(* ===== verification/C_Prelude.thy ===== *)
theory C_Prelude
  imports Main "HOL-Library.Word" "HOL-Library.Monad_Syntax" "HOL-Library.Sublist"
begin

section \<open>C strings, characters and results shared by the components\<close>

text \<open>
  What the components of wget use of the C language and of its small helper headers.

  A C string is a \<^typ>\<open>string\<close> without its terminating NUL: a pointer into a string is the
  suffix that starts there, reading through a pointer at the end of the string gives NUL
  (\<open>deref\<close>), and a region \<open>[b, e)\<close> of a string is the substring between the two pointers.

  A computation that may fail to return (an endless loop, \<open>abort ()\<close>, undefined signed
  overflow) is an \<^typ>\<open>'a option\<close>, named \<open>'a run\<close> here: \<^term>\<open>None\<close> means that the
  C function does not return. A NULL result is an inner option, kept apart from it.

  The character classes are those of \<open>lib/c-ctype.h\<close>; the comparison macros
  \<open>BOUNDED_EQUAL\<close> and \<open>BOUNDED_EQUAL_NO_CASE\<close> and the hexadecimal helpers are those of
  \<open>src/wget.h\<close>.
\<close>

type_synonym 'a run = "'a option"

named_theorems cstr "facts about C strings and character classes"
named_theorems inv_intros "invariant preservation, one rule for each operation"

subsection \<open>Characters\<close>

abbreviation NUL :: char where "NUL \<equiv> CHR 0x00"
abbreviation TAB :: char where "TAB \<equiv> CHR 0x09"
abbreviation LF :: char where "LF \<equiv> CHR 0x0A"
abbreviation CR :: char where "CR \<equiv> CHR 0x0D"

abbreviation byte :: "char \<Rightarrow> nat" where "byte c \<equiv> of_char c"

definition schar :: "char \<Rightarrow> int" where
  \<comment> \<open>the value of a plain \<open>char\<close> promoted to int: signed on x86-64\<close>
  "schar c = (if byte c < 128 then int (byte c) else int (byte c) - 256)"

definition c_isspace :: "char \<Rightarrow> bool" where
  "c_isspace c \<longleftrightarrow>
     c = CHR '' '' \<or> c = TAB \<or> c = LF \<or> c = CHR 0x0B \<or> c = CHR 0x0C \<or> c = CR"

definition c_isdigit :: "char \<Rightarrow> bool" where
  "c_isdigit c \<longleftrightarrow> 48 \<le> byte c \<and> byte c \<le> 57"

definition c_isupper :: "char \<Rightarrow> bool" where
  "c_isupper c \<longleftrightarrow> 65 \<le> byte c \<and> byte c \<le> 90"

definition c_islower :: "char \<Rightarrow> bool" where
  "c_islower c \<longleftrightarrow> 97 \<le> byte c \<and> byte c \<le> 122"

definition c_isalpha :: "char \<Rightarrow> bool" where
  "c_isalpha c \<longleftrightarrow> c_islower c \<or> c_isupper c"

definition c_isalnum :: "char \<Rightarrow> bool" where
  "c_isalnum c \<longleftrightarrow> c_isdigit c \<or> c_islower c \<or> c_isupper c"

definition c_isxdigit :: "char \<Rightarrow> bool" where
  "c_isxdigit c \<longleftrightarrow> c_isdigit c \<or> 97 \<le> byte c \<and> byte c \<le> 102 \<or> 65 \<le> byte c \<and> byte c \<le> 70"

definition c_tolower :: "char \<Rightarrow> char" where
  "c_tolower c = (if c_isupper c then char_of (byte c - 65 + 97) else c)"

definition c_toupper :: "char \<Rightarrow> char" where
  "c_toupper c = (if c_islower c then char_of (byte c - 97 + 65) else c)"

definition unhex :: "char \<Rightarrow> nat" where
  \<comment> \<open>the C function works on unsigned char, hence modulo 256\<close>
  "unhex c =
     (if byte c \<le> 57 then nat ((int (byte c) - 48) mod 256)
      else if byte c \<le> 70 then nat ((int (byte c) - 65 + 10) mod 256)
      else nat ((int (byte c) - 97 + 10) mod 256))"

definition X2DIGITS_TO_NUM :: "char \<Rightarrow> char \<Rightarrow> nat" where
  "X2DIGITS_TO_NUM h1 h2 = unhex h1 * 16 + unhex h2"

definition XNUM_TO_DIGIT :: "nat \<Rightarrow> char" where
  "XNUM_TO_DIGIT x = (if x < 16 then ''0123456789ABCDEF'' ! x else NUL)"

subsection \<open>Strings\<close>

definition deref :: "string \<Rightarrow> nat \<Rightarrow> char" where
  \<comment> \<open>\<open>p[i]\<close>, where the byte after the last character is the terminating NUL\<close>
  "deref p i = (if i < length p then p ! i else NUL)"

definition lower :: "string \<Rightarrow> string" where
  "lower s = map c_tolower s"

definition strcaseeq :: "string \<Rightarrow> string \<Rightarrow> bool" where
  \<comment> \<open>\<open>0 == strcasecmp (s, t)\<close>\<close>
  "strcaseeq s t \<longleftrightarrow> lower s = lower t"

definition BOUNDED_EQUAL :: "string \<Rightarrow> string \<Rightarrow> bool" where
  "BOUNDED_EQUAL tok lit \<longleftrightarrow> length tok = length lit \<and> tok = lit"

definition BOUNDED_EQUAL_NO_CASE :: "string \<Rightarrow> string \<Rightarrow> bool" where
  "BOUNDED_EQUAL_NO_CASE tok lit \<longleftrightarrow> length tok = length lit \<and> lower tok = lower lit"

fun strchr :: "string \<Rightarrow> char \<Rightarrow> string option" where
  \<comment> \<open>the suffix that starts at the first occurrence, for a character other than NUL\<close>
  "strchr [] c = None"
| "strchr (x # xs) c = (if x = c then Some (x # xs) else strchr xs c)"

definition strrchr_pos :: "string \<Rightarrow> char \<Rightarrow> nat option" where
  \<comment> \<open>the offset of the last occurrence\<close>
  "strrchr_pos s c =
     (if c \<in> set s then Some (length s - 1 - length (takeWhile (\<lambda>x. x \<noteq> c) (rev s))) else None)"

definition skip_space :: "string \<Rightarrow> string" where
  \<comment> \<open>\<open>while (c_isspace (*p)) ++p\<close>: NUL is not a space, so the loop stops at the end\<close>
  "skip_space p = dropWhile c_isspace p"

definition rtrim_space :: "string \<Rightarrow> string" where
  \<comment> \<open>\<open>while (e != b && c_isspace (e[-1])) --e\<close>\<close>
  "rtrim_space s = rev (dropWhile c_isspace (rev s))"

definition strdupdelim :: "string \<Rightarrow> string \<Rightarrow> string" where
  \<comment> \<open>the bytes from one pointer to the other, empty when they are the wrong way round\<close>
  "strdupdelim beg e = take (length beg - length e) beg"

definition cstring :: "string \<Rightarrow> bool" where
  \<comment> \<open>what a \<^typ>\<open>string\<close> needs to be the contents of a C string\<close>
  "cstring s \<longleftrightarrow> NUL \<notin> set s"

subsection \<open>Decimal numbers\<close>

definition digits_value :: "string \<Rightarrow> int" where
  "digits_value ds = foldl (\<lambda>n c. 10 * n + (int (byte c) - 48)) 0 ds"

fun print_nat :: "nat \<Rightarrow> string" where
  "print_nat n =
     (if n < 10 then [char_of (48 + n)] else print_nat (n div 10) @ [char_of (48 + n mod 10)])"

definition print_int :: "int \<Rightarrow> string" where
  "print_int i = (if i < 0 then CHR ''-'' # print_nat (nat (- i)) else print_nat (nat i))"

definition in_int32 :: "int \<Rightarrow> bool" where
  "in_int32 i \<longleftrightarrow> -2147483648 \<le> i \<and> i \<le> 2147483647"

definition in_int64 :: "int \<Rightarrow> bool" where
  "in_int64 i \<longleftrightarrow> -9223372036854775808 \<le> i \<and> i \<le> 9223372036854775807"

definition add64 :: "int \<Rightarrow> int \<Rightarrow> int run" where
  \<comment> \<open>signed 64-bit addition: overflow is undefined behaviour\<close>
  "add64 a b = (if in_int64 (a + b) then Some (a + b) else None)"

declare print_nat.simps [simp del]

subsection \<open>Facts about characters\<close>

lemma byte_less_256 [cstr]: "byte c < 256"
  by (rule nat_of_char_less_256)

lemma byte_inject [cstr]: "byte c = byte d \<longleftrightarrow> c = d"
  by simp

lemma byte_char_of [cstr]: "n < 256 \<Longrightarrow> byte (char_of n) = n"
  by (simp add: take_bit_eq_mod)

lemma all_chars_iff: "(\<forall>c. P c) \<longleftrightarrow> (\<forall>n<256::nat. P (char_of n))" for P :: "char \<Rightarrow> bool"
proof
  assume H: "\<forall>n<256::nat. P (char_of n)"
  show "\<forall>c. P c"
  proof
    fix c :: char
    have "P (char_of (byte c))" using H byte_less_256[of c] by blast
    then show "P c" by simp
  qed
qed simp

lemma tolower_cases:
  obtains "c_tolower c = c" "\<not> c_isupper c" | "c_isupper c" "byte (c_tolower c) = byte c + 32" "65 \<le> byte c" "byte c \<le> 90"
proof (cases "c_isupper c")
  case True
  then have b: "65 \<le> byte c" "byte c \<le> 90" by (auto simp: c_isupper_def)
  then have "byte (c_tolower c) = byte c + 32" using True by (simp add: c_tolower_def byte_char_of)
  with True b show thesis by (intro that(2))
qed (use that(1) in \<open>simp add: c_tolower_def\<close>)

lemma tolower_digit [cstr]: "c_isdigit (c_tolower c) = c_isdigit c"
  by (rule tolower_cases[of c]) (auto simp: c_isdigit_def)

lemma tolower_of_digit [cstr]: "c_isdigit c \<Longrightarrow> c_tolower c = c"
  by (auto simp: c_isdigit_def c_isupper_def c_tolower_def)

lemma tolower_xdigit [cstr]: "c_isxdigit (c_tolower c) = c_isxdigit c"
  by (rule tolower_cases[of c]) (auto simp: c_isxdigit_def c_isdigit_def)

lemma unhex_tolower [cstr]: "c_isxdigit c \<Longrightarrow> unhex (c_tolower c) = unhex c"
  by (rule tolower_cases[of c]) (auto simp: c_isxdigit_def c_isdigit_def unhex_def)

lemma tolower_nonletter [cstr]: "byte d < 65 \<Longrightarrow> c_tolower c = d \<longleftrightarrow> c = d"
  by (rule tolower_cases[of c]) (auto dest: arg_cong[of _ _ "of_char :: char \<Rightarrow> nat"])

lemma tolower_idem [cstr]: "c_tolower (c_tolower c) = c_tolower c"
  by (rule tolower_cases[of c]) (auto simp: c_isupper_def c_tolower_def[of "c_tolower c"])

lemmas tolower_eq = tolower_digit tolower_of_digit tolower_xdigit unhex_tolower tolower_nonletter tolower_idem

subsection \<open>Facts about strings\<close>

lemma lower_lower [simp]: "lower (lower s) = lower s"
  by (simp add: lower_def tolower_idem)

lemma cstring_Nil [simp, cstr]: "cstring []"
  by (simp add: cstring_def)

lemma cstring_Cons [simp, cstr]: "cstring (c # s) \<longleftrightarrow> c \<noteq> NUL \<and> cstring s"
  by (auto simp: cstring_def)

lemma cstring_append [simp, cstr]: "cstring (s @ t) \<longleftrightarrow> cstring s \<and> cstring t"
  by (auto simp: cstring_def)

lemma cstring_take [cstr]: "cstring s \<Longrightarrow> cstring (take n s)"
  by (auto simp: cstring_def dest: in_set_takeD)

lemma cstring_drop [cstr]: "cstring s \<Longrightarrow> cstring (drop n s)"
  by (auto simp: cstring_def dest: in_set_dropD)

lemma cstring_strdupdelim [cstr]: "cstring b \<Longrightarrow> cstring (strdupdelim b e)"
  by (simp add: strdupdelim_def cstring_take)

lemma deref_Cons_0 [simp]: "deref (c # s) 0 = c"
  by (simp add: deref_def)

lemma deref_Cons_Suc [simp]: "deref (c # s) (Suc i) = deref s i"
  by (simp add: deref_def)

lemma deref_Nil [simp]: "deref [] i = NUL"
  by (simp add: deref_def)

lemma lower_Cons: "lower (c # s) = c_tolower c # lower s"
  by (simp add: lower_def)

lemma lower_append [simp]: "lower (s @ t) = lower s @ lower t"
  by (simp add: lower_def)

lemma length_lower [simp]: "length (lower s) = length s"
  by (simp add: lower_def)

lemma strdupdelim_append [simp]: "strdupdelim (s @ t) t = s"
  by (simp add: strdupdelim_def)

lemma strdupdelim_self [simp]: "strdupdelim s s = []"
  by (simp add: strdupdelim_def)

lemma length_takeWhile_stop: "x \<in> set xs \<Longrightarrow> \<not> P x \<Longrightarrow> length (takeWhile P xs) < length xs"
  by (induction xs) auto

lemma strrchr_pos_Some:
  assumes "strrchr_pos s c = Some k"
  shows "k < length s" "c \<notin> set (drop (k + 1) s)" "s ! k = c"
proof -
  let ?n = "length (takeWhile (\<lambda>x. x \<noteq> c) (rev s))"
  have c: "c \<in> set s" and k: "k = length s - 1 - ?n" using assms
    by (auto simp: strrchr_pos_def split: if_splits)
  have n: "?n < length s"
    using c length_takeWhile_stop[of c "rev s" "\<lambda>x. x \<noteq> c"] by simp
  then show "k < length s" using k by simp
  have "k + 1 = length s - ?n" using n k by linarith
  then have "drop (k + 1) s = rev (take ?n (rev s))" by (simp only: rev_take length_rev rev_rev_ident)
  also have "\<dots> = rev (takeWhile (\<lambda>x. x \<noteq> c) (rev s))" by (simp only: takeWhile_eq_take[symmetric])
  finally show "c \<notin> set (drop (k + 1) s)" by (auto dest: set_takeWhileD)
  have "rev s ! ?n = c" using nth_length_takeWhile[of "\<lambda>x. x \<noteq> c" "rev s"] n by simp
  moreover have "rev s ! ?n = s ! k" unfolding rev_nth[OF n] k by (rule arg_cong[of _ _ "(!) s"]) simp
  ultimately show "s ! k = c" by simp
qed

lemma strrchr_pos_None: "strrchr_pos s c = None \<longleftrightarrow> c \<notin> set s"
  by (simp add: strrchr_pos_def)

lemma takeWhile_until: "c \<notin> set m \<Longrightarrow> takeWhile (\<lambda>x. x \<noteq> c) (m @ c # r) = m" "c \<notin> set m \<Longrightarrow> takeWhile (\<lambda>x. x \<noteq> c) m = m"
  by (induction m) auto

lemma strchr_cut:
  assumes "c \<notin> set a"
  shows "(case strchr (a @ r) c of None \<Rightarrow> a @ r | Some p \<Rightarrow> strdupdelim (a @ r) p) = a @ takeWhile (\<lambda>x. x \<noteq> c) r"
proof -
  have "strchr (a @ r) c = strchr r c" using assms by (induction a) auto
  moreover have "(case strchr r c of None \<Rightarrow> True | Some p \<Rightarrow> r = takeWhile (\<lambda>x. x \<noteq> c) r @ p)"
    by (induction r) (auto split: option.splits)
  moreover have "strchr r c = None \<Longrightarrow> takeWhile (\<lambda>x. x \<noteq> c) r = r" by (induction r) (auto split: if_splits)
  moreover have "strdupdelim (a @ r) p = a @ takeWhile (\<lambda>x. x \<noteq> c) r" if "r = takeWhile (\<lambda>x. x \<noteq> c) r @ p" for p
    using strdupdelim_append[of "a @ takeWhile (\<lambda>x. x \<noteq> c) r" p] arg_cong[OF that, of "\<lambda>y. strdupdelim (a @ y) p"] by simp
  ultimately show ?thesis by (cases "strchr r c") (simp_all del: takeWhile_eq_all_conv)
qed

lemma strrchr_pos_app: "c \<notin> set b \<Longrightarrow> strrchr_pos (a @ c # b) c = Some (length a)"
  using takeWhile_until(1)[of c "rev b" "rev a"] by (simp add: strrchr_pos_def)

lemma strchr_shorter: "strchr s c = Some r \<Longrightarrow> length (tl r) < length s"
  by (induction s) (auto split: if_splits)

subsection \<open>Facts about decimal numbers\<close>

lemma digits_value_append: "digits_value (ds @ [c]) = 10 * digits_value ds + (int (byte c) - 48)"
  by (simp add: digits_value_def)

lemma print_nat_digits: "\<forall>c\<in>set (print_nat n). c_isdigit c"
proof (induction n rule: print_nat.induct)
  case (1 n)
  then show ?case by (subst print_nat.simps) (auto simp: c_isdigit_def byte_char_of)
qed

lemma print_int_chars: "c \<in> set (print_int i) \<Longrightarrow> c_isdigit c \<or> c = CHR ''-''"
  using print_nat_digits by (auto simp: print_int_def split: if_splits)

lemma print_nat_not_Nil [simp]: "print_nat n \<noteq> []"
  by (subst print_nat.simps) simp

lemma digits_value_print_nat [simp]: "digits_value (print_nat n) = int n"
proof (induction n rule: print_nat.induct)
  case (1 n)
  show ?case
  proof (cases "n < 10")
    case True
    then show ?thesis by (subst print_nat.simps) (simp add: digits_value_def byte_char_of)
  next
    case False
    then have "digits_value (print_nat n) = 10 * int (n div 10) + int (n mod 10)"
      using 1 by (subst print_nat.simps) (simp add: digits_value_append byte_char_of)
    also have "\<dots> = int (10 * (n div 10) + n mod 10)" by (simp only: of_nat_add of_nat_mult of_nat_numeral)
    finally show ?thesis by (simp only: mult_div_mod_eq)
  qed
qed

end
