(* ===== verification/Wget_Hash_Probe.thy ===== *)
theory Wget_Hash_Probe
  imports Wget_Hash
begin

section \<open>Linear probing and rehashing (wget/src/hash.c)\<close>

text \<open>
  The proofs behind the hash table that only concern the array of cells: what
  \<open>find_from\<close> finds and when it stops, how writing, moving and clearing a cell act on the
  chains of occupied cells, and that the rehashing loop of \<open>hash_table_remove\<close> ends with
  every remaining entry back on a chain of its own.
\<close>

subsection \<open>Linear probing\<close>

definition stops :: "('k \<Rightarrow> bool) \<Rightarrow> ('k \<times> 'v) option \<Rightarrow> bool" where
  "stops stop cell \<longleftrightarrow> (case cell of None \<Rightarrow> True | Some (k, v) \<Rightarrow> stop k)"

lemma stops_simps [simp]:
  "stops stop None" "stops stop (Some kv) = stop (fst kv)"
  by (auto simp: stops_def split: prod.splits)

lemma mod_bound: "c < n \<Longrightarrow> m mod n < (n::nat)"
  by (cases n) simp_all

lemma NEXT_CELL_mod: "c < n \<Longrightarrow> NEXT_CELL c n = (c + 1) mod n"
  by (auto simp: NEXT_CELL_def)

lemma find_from_step:
  "find_from stop cs (Suc fuel) c =
     (if stops stop (cs ! c) then Some c else find_from stop cs fuel (NEXT_CELL c (length cs)))"
  by (auto simp: stops_def split: option.splits)

lemma find_from_Some:
  assumes "c < length cs" "find_from stop cs fuel c = Some r"
  obtains d where "d < fuel" "r = (c + d) mod length cs" "stops stop (cs ! r)"
    "\<And>d'. d' < d \<Longrightarrow> \<not> stops stop (cs ! ((c + d') mod length cs))"
  using assms
proof (induction fuel arbitrary: c thesis)
  case 0
  then show ?case by simp
next
  case (Suc fuel)
  let ?n = "length cs"
  show ?case
  proof (cases "stops stop (cs ! c)")
    case True
    with Suc.prems show ?thesis by (intro Suc.prems(1)[of 0]) (auto simp: find_from_step simp del: find_from.simps)
  next
    case False
    have c': "NEXT_CELL c ?n = (c + 1) mod ?n" and lt: "(c + 1) mod ?n < ?n"
      using Suc.prems(2) by (auto simp: NEXT_CELL_mod intro: mod_bound)
    from False Suc.prems(3) c' have "find_from stop cs fuel ((c + 1) mod ?n) = Some r"
      by (simp add: find_from_step del: find_from.simps)
    from Suc.IH[OF _ lt this] obtain d where d: "d < fuel" "r = ((c + 1) mod ?n + d) mod ?n"
      "stops stop (cs ! r)"
      "\<And>d'. d' < d \<Longrightarrow> \<not> stops stop (cs ! (((c + 1) mod ?n + d') mod ?n))" by blast
    show ?thesis
    proof (rule Suc.prems(1)[of "Suc d"])
      show "\<not> stops stop (cs ! ((c + d') mod ?n))" if "d' < Suc d" for d'
        using that d(4) False Suc.prems(2) by (cases d') (simp_all add: mod_add_left_eq)
    qed (use d in \<open>simp_all add: mod_add_left_eq\<close>)
  qed
qed

lemma find_from_reaches:
  assumes "c < length cs" "d < fuel" "stops stop (cs ! ((c + d) mod length cs))"
    "\<And>d'. d' < d \<Longrightarrow> \<not> stops stop (cs ! ((c + d') mod length cs))"
  shows "find_from stop cs fuel c = Some ((c + d) mod length cs)"
  using assms
proof (induction fuel arbitrary: c d)
  case 0
  then show ?case by simp
next
  case (Suc fuel)
  let ?n = "length cs"
  show ?case
  proof (cases d)
    case 0
    with Suc.prems show ?thesis by (simp add: find_from_step del: find_from.simps)
  next
    case (Suc e)
    have "\<not> stops stop (cs ! c)" using Suc.prems(1) Suc.prems(4)[of 0] \<open>d = Suc e\<close> by simp
    moreover have "find_from stop cs fuel ((c + 1) mod ?n) = Some (((c + 1) mod ?n + e) mod ?n)"
    proof (rule Suc.IH)
      show "\<not> stops stop (cs ! (((c + 1) mod ?n + d') mod ?n))" if "d' < e" for d'
        using Suc.prems(4)[of "Suc d'"] that \<open>d = Suc e\<close> by (simp add: mod_add_left_eq)
    qed (use Suc.prems \<open>d = Suc e\<close> in \<open>auto simp: mod_add_left_eq intro: mod_bound\<close>)
    ultimately show ?thesis using Suc.prems(1) \<open>d = Suc e\<close>
      by (simp add: find_from_step NEXT_CELL_mod mod_add_left_eq del: find_from.simps)
  qed
qed

lemma mod_offset_ex:
  assumes "c < n" "j < n"
  shows "\<exists>d<n. (c + d) mod n = (j::nat)"
proof (rule exI[of _ "(j + n - c) mod n"], intro conjI)
  show "(j + n - c) mod n < n" using assms by simp
  have "(c + (j + n - c) mod n) mod n = (c + (j + n - c)) mod n" by (rule mod_add_right_eq)
  also have "\<dots> = j" using assms by simp
  finally show "(c + (j + n - c) mod n) mod n = j" .
qed

lemma find_from_terminates:
  assumes "c < length cs" "j < length cs" "stops stop (cs ! j)"
  shows "\<exists>r. find_from stop cs (length cs) c = Some r"
proof -
  let ?n = "length cs"
  let ?P = "\<lambda>d. d < ?n \<and> stops stop (cs ! ((c + d) mod ?n))"
  from mod_offset_ex[OF assms(1,2)] assms(3) obtain d0 where "?P d0" by auto
  then have "?P (LEAST d. ?P d)" by (rule LeastI)
  moreover have "\<not> stops stop (cs ! ((c + d') mod ?n))" if "d' < (LEAST d. ?P d)" for d'
    using not_less_Least[OF that] that calculation by auto
  ultimately show ?thesis using find_from_reaches[OF assms(1)] by blast
qed

subsection \<open>Cells, chains and keys\<close>

lemma mod_offset_inj:
  assumes "(a + x) mod n = (a + y) mod n" "x < n" "y < (n::nat)"
  shows "x = y"
proof -
  have aux: "x = y" if "(a + x) mod n = (a + y) mod n" "x < n" "y < n" "x \<le> y" for x y :: nat
  proof -
    from that have "n dvd (a + y) - (a + x)" by (metis mod_eq_dvd_iff_nat add_le_cancel_left)
    then have "n dvd y - x" by simp
    with that show ?thesis by (metis diff_is_0_eq diff_le_self dvd_imp_le le_antisym leD le_less_trans not_gr0)
  qed
  show ?thesis using aux[of x y] aux[of y x] assms by (metis nat_le_linear)
qed

lemma mod_offset_shift: "(a + x) mod n = b mod n \<Longrightarrow> (a + (x + y)) mod n = (b + y) mod (n::nat)"
  by (metis add.assoc mod_add_left_eq)

lemma on_chainI:
  "d < length cs \<Longrightarrow> (HASH_POSITION k hf (length cs) + d) mod length cs = j \<Longrightarrow>
   (\<And>d'. d' < d \<Longrightarrow> cs ! ((HASH_POSITION k hf (length cs) + d') mod length cs) \<noteq> None) \<Longrightarrow>
   on_chain hf cs j k"
  unfolding on_chain_def by blast

lemma keys_uniqueD:
  "keys_unique tf cs \<Longrightarrow> cs ! i = Some (a, v) \<Longrightarrow> cs ! j = Some (b, w) \<Longrightarrow> tf a b \<Longrightarrow>
   i < length cs \<Longrightarrow> j < length cs \<Longrightarrow> i = j"
  unfolding keys_unique_def by blast

lemma empty_cells_ok [simp]: "chains_ok hf (replicate n None)" "keys_unique tf (replicate n None)"
  by (simp_all add: chains_ok_def keys_unique_def)

lemma occupied_simps [simp]:
  "occupied [] = []" "occupied (None # cs) = occupied cs"
  "occupied (Some kv # cs) = kv # occupied cs"
  "occupied (cs @ cs') = occupied cs @ occupied cs'"
  by (simp_all add: occupied_def List.map_filter_def)

lemma occupied_replicate_None [simp]: "occupied (replicate n None) = []"
  by (induction n) simp_all

lemma set_occupied: "set (occupied cs) = {kv. Some kv \<in> set cs}"
  by (force simp: occupied_def List.map_filter_def)

lemma in_occupied: "kv \<in> set (occupied cs) \<longleftrightarrow> (\<exists>j<length cs. cs ! j = Some kv)"
  by (auto simp: set_occupied in_set_conv_nth)

lemma length_occupied_le: "length (occupied cs) \<le> length cs"
  by (simp add: occupied_def List.map_filter_def)

lemma empty_cell_ex:
  assumes "length (occupied cs) < length cs"
  shows "\<exists>j<length cs. cs ! j = None"
proof (rule ccontr)
  assume "\<not> ?thesis"
  then have "\<forall>x\<in>set cs. x \<noteq> None" by (metis in_set_conv_nth)
  then have "length (occupied cs) = length cs" by (simp add: occupied_def List.map_filter_def)
  with assms show False by simp
qed

lemma mset_occupied_update:
  assumes "c < length cs"
  shows "mset (occupied (cs[c := x])) + mset (occupied [cs ! c]) = mset (occupied cs) + mset (occupied [x])"
proof -
  have eq: "cs = take c cs @ [cs ! c] @ drop (Suc c) cs"
    using assms by (simp add: id_take_nth_drop[symmetric])
  have "occupied cs = occupied (take c cs) @ occupied [cs ! c] @ occupied (drop (Suc c) cs)"
    by (subst eq) (simp only: occupied_simps)
  moreover have "cs[c := x] = take c cs @ [x] @ drop (Suc c) cs"
    using assms by (simp add: upd_conv_take_nth_drop)
  ultimately show ?thesis by (simp only: occupied_simps) simp
qed

lemma on_chain_mono:
  assumes "on_chain hf cs j k" "length cs' = length cs"
    "\<And>i. i < length cs \<Longrightarrow> cs ! i \<noteq> None \<Longrightarrow> cs' ! i \<noteq> None"
  shows "on_chain hf cs' j k"
  using assms unfolding on_chain_def by (metis mod_bound)

lemma HASH_POSITION_less [simp]: "0 < n \<Longrightarrow> HASH_POSITION k hf n < n"
  by (simp add: HASH_POSITION_def)

lemma keys_unique_update:
  assumes "keys_unique tf cs" "c < length cs"
    "\<And>j b w. j < length cs \<Longrightarrow> j \<noteq> c \<Longrightarrow> cs ! j = Some (b, w) \<Longrightarrow> \<not> tf k b \<and> \<not> tf b k"
  shows "keys_unique tf (cs[c := Some (k, v)])"
  using assms unfolding keys_unique_def by (auto simp: nth_list_update split: if_splits) 

lemma keys_unique_clear:
  "keys_unique tf cs \<Longrightarrow> keys_unique tf (cs[c := None])"
  unfolding keys_unique_def
  by (metis length_list_update nth_list_update_eq nth_list_update_neq option.distinct(1))

lemma keys_unique_move:
  assumes "keys_unique tf cs" "c < length cs" "c' < length cs" "cs ! c = Some (k, v)" "cs ! c' = None"
  shows "keys_unique tf (cs[c' := Some (k, v), c := None])"
proof -
  have neq: "c \<noteq> c'" using assms(4,5) by auto
  have orig: "\<exists>i'<length cs. cs ! i' = Some e \<and> (i = c' \<and> i' = c \<or> i \<noteq> c' \<and> i \<noteq> c \<and> i' = i)"
    if "i < length cs" "cs[c' := Some (k, v), c := None] ! i = Some e" for i e
    using that assms neq by (cases "i = c"; cases "i = c'") auto
  show ?thesis
    unfolding keys_unique_def
  proof (intro allI impI)
    fix i j a x b y
    assume *: "i < length (cs[c' := Some (k, v), c := None])" "j < length (cs[c' := Some (k, v), c := None])"
      "cs[c' := Some (k, v), c := None] ! i = Some (a, x)"
      "cs[c' := Some (k, v), c := None] ! j = Some (b, y)" "tf a b"
    from orig[of i "(a, x)"] * obtain i' where i': "i' < length cs" "cs ! i' = Some (a, x)"
      "i = c' \<and> i' = c \<or> i \<noteq> c' \<and> i \<noteq> c \<and> i' = i" by auto
    from orig[of j "(b, y)"] * obtain j' where j': "j' < length cs" "cs ! j' = Some (b, y)"
      "j = c' \<and> j' = c \<or> j \<noteq> c' \<and> j \<noteq> c \<and> j' = j" by auto
    have "i' = j'" using assms(1) i' j' *(5) unfolding keys_unique_def by blast
    with i'(3) j'(3) show "i = j" by auto
  qed
qed

lemma chains_ok_insert:
  assumes ok: "chains_ok hf cs" and d: "d < length cs"
    and c: "c = (HASH_POSITION k hf (length cs) + d) mod length cs"
    and path: "\<And>d'. d' < d \<Longrightarrow> cs ! ((HASH_POSITION k hf (length cs) + d') mod length cs) \<noteq> None"
  shows "chains_ok hf (cs[c := Some (k, v)])"
  unfolding chains_ok_def
proof (intro allI impI)
  let ?cs = "cs[c := Some (k, v)]"
  have occ: "cs ! i \<noteq> None \<Longrightarrow> i < length cs \<Longrightarrow> ?cs ! i \<noteq> None" for i
    by (cases "i = c") auto
  fix j k' v'
  assume j: "j < length ?cs" "?cs ! j = Some (k', v')"
  show "on_chain hf ?cs j k'"
  proof (cases "j = c")
    case True
    with j have "k' = k" by simp
    moreover have "?cs ! ((HASH_POSITION k hf (length cs) + d') mod length cs) \<noteq> None" if "d' < d" for d'
      using path[OF that] by (intro occ) (use mod_bound[OF d] in auto)
    ultimately show ?thesis using True d c unfolding on_chain_def by auto
  next
    case False
    with j have "on_chain hf cs j k'" using ok unfolding chains_ok_def by simp
    then show ?thesis by (rule on_chain_mono) (use occ in auto)
  qed
qed

subsection \<open>The rehashing loop of \<open>hash_table_remove\<close>\<close>

text \<open>The state of the rehash loop when it reaches the cell \<open>t\<close> places after the cleared cell \<open>i\<close>.\<close>

definition rehash_state :: "('k \<Rightarrow> 64 word) \<Rightarrow> ('k \<Rightarrow> 'k \<Rightarrow> bool) \<Rightarrow> ('k \<times> 'v) option list \<Rightarrow> nat \<Rightarrow> nat \<Rightarrow> nat \<Rightarrow> bool" where
  "rehash_state hf tf cs i m t \<longleftrightarrow>
     m + 1 < length cs \<and> keys_unique tf cs \<and>
     cs ! ((i + (m + 1)) mod length cs) = None \<and>
     (\<forall>s. t \<le> s \<and> s \<le> m \<longrightarrow> cs ! ((i + s) mod length cs) \<noteq> None) \<and>
     (\<forall>j<length cs. \<forall>k v. cs ! j = Some (k, v) \<longrightarrow>
        (\<exists>s. t \<le> s \<and> s \<le> m \<and> j = (i + s) mod length cs) \<or> on_chain hf cs j k) \<and>
     (\<forall>s k v. t \<le> s \<and> s \<le> m \<longrightarrow> cs ! ((i + s) mod length cs) = Some (k, v) \<longrightarrow>
        (\<exists>d<length cs. (HASH_POSITION k hf (length cs) + d) mod length cs = (i + s) mod length cs \<and>
           (\<forall>d'<d. (HASH_POSITION k hf (length cs) + d') mod length cs \<noteq> (i + (m + 1)) mod length cs)))"

lemma rehash_stateD:
  assumes "rehash_state hf tf cs i m t"
  shows "m + 1 < length cs" "keys_unique tf cs" "cs ! ((i + (m + 1)) mod length cs) = None"
    "t \<le> s \<Longrightarrow> s \<le> m \<Longrightarrow> cs ! ((i + s) mod length cs) \<noteq> None"
    "j < length cs \<Longrightarrow> cs ! j = Some (k, v) \<Longrightarrow>
       (\<exists>s. t \<le> s \<and> s \<le> m \<and> j = (i + s) mod length cs) \<or> on_chain hf cs j k"
    "t \<le> s \<Longrightarrow> s \<le> m \<Longrightarrow> cs ! ((i + s) mod length cs) = Some (k, v) \<Longrightarrow>
        (\<exists>d<length cs. (HASH_POSITION k hf (length cs) + d) mod length cs = (i + s) mod length cs \<and>
           (\<forall>d'<d. (HASH_POSITION k hf (length cs) + d') mod length cs \<noteq> (i + (m + 1)) mod length cs))"
  using assms unfolding rehash_state_def by blast+

text \<open>A chain that passes through the cell \<open>t\<close> places after \<open>i\<close> ends inside the run that follows it.\<close>

lemma chain_through_run:
  assumes e: "cs ! ((i + (m + 1)) mod length cs) = None" and t: "t \<le> m + 1"
    and occ: "\<And>d'. d' < d \<Longrightarrow> cs ! ((h + d') mod length cs) \<noteq> None"
    and j: "cs ! ((h + d) mod length cs) \<noteq> None"
    and d2: "d2 < d" "(h + d2) mod length cs = (i + t) mod length cs"
  shows "t + (d - d2) \<le> m \<and> (h + d) mod length cs = (i + (t + (d - d2))) mod length cs"
proof -
  let ?n = "length cs"
  have shift: "(h + (d2 + x)) mod ?n = (i + (t + x)) mod ?n" for x
    using mod_offset_shift[OF d2(2)[simplified], of x] by (simp add: add.assoc)
  have at: "(h + d) mod ?n = (i + (t + (d - d2))) mod ?n"
    using shift[of "d - d2"] d2(1) by simp
  moreover have "t + (d - d2) \<le> m"
  proof (rule ccontr)
    assume "\<not> ?thesis"
    then have x: "d2 + (m + 1 - t) \<le> d" using t d2(1) by linarith
    have "(h + (d2 + (m + 1 - t))) mod ?n = (i + (m + 1)) mod ?n"
      using shift[of "m + 1 - t"] t by simp
    with e have "cs ! ((h + (d2 + (m + 1 - t))) mod ?n) = None" by simp
    with occ[of "d2 + (m + 1 - t)"] j x show False by (cases "d2 + (m + 1 - t) = d") auto
  qed
  ultimately show ?thesis by blast
qed

text \<open>Clearing a cell of the run leaves every chain intact but those of the cells behind it.\<close>

lemma chain_survives_clear:
  assumes chain: "on_chain hf cs j k" "cs ! j \<noteq> None"
    and e: "cs ! ((i + (m + 1)) mod length cs) = None" and t: "t \<le> m + 1" and c: "c = (i + t) mod length cs"
    and len: "length cs' = length cs" and occ: "\<And>x. x \<noteq> c \<Longrightarrow> cs ! x \<noteq> None \<Longrightarrow> cs' ! x \<noteq> None"
  shows "(\<exists>s. Suc t \<le> s \<and> s \<le> m \<and> j = (i + s) mod length cs) \<or> on_chain hf cs' j k"
proof -
  let ?n = "length cs" and ?h = "HASH_POSITION k hf (length cs)"
  from chain(1) obtain d where d: "d < ?n" "(?h + d) mod ?n = j"
    "\<And>d'. d' < d \<Longrightarrow> cs ! ((?h + d') mod ?n) \<noteq> None" unfolding on_chain_def by blast
  show ?thesis
  proof (cases "\<exists>d2<d. (?h + d2) mod ?n = c")
    case True
    then obtain d2 where d2: "d2 < d" "(?h + d2) mod ?n = (i + t) mod ?n" using c by auto
    have "t + (d - d2) \<le> m \<and> (?h + d) mod ?n = (i + (t + (d - d2))) mod ?n"
      by (rule chain_through_run[OF e t d(3) _ d2]) (use d(2) chain(2) in auto)
    then show ?thesis using d(2) d2(1) by (intro disjI1 exI[of _ "t + (d - d2)"]) auto
  next
    case False
    then have "cs' ! ((?h + d') mod ?n) \<noteq> None" if "d' < d" for d'
      using d(3)[OF that] that occ by blast
    then have "on_chain hf cs' j k" by (intro on_chainI[of d]) (use d(1,2) len in auto)
    then show ?thesis ..
  qed
qed

lemma rehash_state_stay:
  assumes st: "rehash_state hf tf cs i m t" and "t \<le> m" "on_chain hf cs ((i + t) mod length cs) k"
    "cs ! ((i + t) mod length cs) = Some (k, v)"
  shows "rehash_state hf tf cs i m (Suc t)"
proof -
  have "(\<exists>s. Suc t \<le> s \<and> s \<le> m \<and> j = (i + s) mod length cs) \<or> on_chain hf cs j k'"
    if "j < length cs" "cs ! j = Some (k', v')" for j k' v'
    using rehash_stateD(5)[OF st that] assms(3,4) that
    by (metis Pair_inject Suc_leI le_neq_implies_less option.inject)
  with st show ?thesis unfolding rehash_state_def by (metis Suc_leD)
qed

lemma rehash_state_move:
  assumes st: "rehash_state hf tf cs i m t" and t: "t \<le> m"
    and c: "c = (i + t) mod length cs" "cs ! c = Some (k, v)"
    and d: "d < length cs" "(HASH_POSITION k hf (length cs) + d) mod length cs = c"
      "\<And>d'. d' < d \<Longrightarrow> (HASH_POSITION k hf (length cs) + d') mod length cs \<noteq> (i + (m + 1)) mod length cs"
    and dn: "dn < d" "c' = (HASH_POSITION k hf (length cs) + dn) mod length cs" "cs ! c' = None"
      "\<And>d'. d' < dn \<Longrightarrow> cs ! ((HASH_POSITION k hf (length cs) + d') mod length cs) \<noteq> None"
  shows "rehash_state hf tf (cs[c' := Some (k, v), c := None]) i m (Suc t)"
proof -
  let ?n = "length cs" and ?cs = "cs[c' := Some (k, v), c := None]" and ?h = "HASH_POSITION k hf (length cs)"
  note D = rehash_stateD[OF st]
  have n: "m + 1 < ?n" and clt: "c < ?n" and c'lt: "c' < ?n" and "c \<noteq> c'"
    using D(1) c dn mod_bound[OF d(1)] by auto
  have ne: "(i + x) mod ?n \<noteq> (i + y) mod ?n" if "x \<noteq> y" "x \<le> m + 1" "y \<le> m + 1" for x y
    using mod_offset_inj[of i x ?n y] that n by auto
  have same: "?cs ! j = cs ! j" if "j \<noteq> c" "j \<noteq> c'" for j using that by simp
  have run: "(i + s) mod ?n \<noteq> c \<and> (i + s) mod ?n \<noteq> c'" if "Suc t \<le> s" "s \<le> m" for s
    using ne[of s t] that c(1) D(4)[of s] dn(3) by auto
  have e: "(i + (m + 1)) mod ?n \<noteq> c \<and> (i + (m + 1)) mod ?n \<noteq> c'"
    using ne[of "m + 1" t] t c(1) d(3)[OF dn(1)] dn(2) by auto
  have occ: "?cs ! x \<noteq> None" if "x \<noteq> c" "cs ! x \<noteq> None" for x
    using that c'lt by (cases "x = c'") auto
  have moved: "on_chain hf ?cs c' k"
  proof (rule on_chainI[of dn])
    fix d' assume d': "d' < dn"
    have "(?h + d') mod ?n \<noteq> c" using mod_offset_inj[of ?h d' ?n d] d dn(1) d' by auto
    then show "?cs ! ((HASH_POSITION k hf (length ?cs) + d') mod length ?cs) \<noteq> None"
      using occ dn(4)[OF d'] by simp
  qed (use dn(1,2) d(1) in auto)
  have chain: "(\<exists>s. Suc t \<le> s \<and> s \<le> m \<and> j = (i + s) mod ?n) \<or> on_chain hf ?cs j k1"
    if j: "j < ?n" "?cs ! j = Some (k1, v1)" for j k1 v1
  proof (cases "j = c'")
    case True
    with j \<open>c \<noteq> c'\<close> c'lt moved show ?thesis by simp
  next
    case False
    have jc: "j \<noteq> c" using j clt by auto
    with False j have csj: "cs ! j = Some (k1, v1)" by simp
    from D(5)[OF j(1) csj] show ?thesis
    proof
      assume "\<exists>s. t \<le> s \<and> s \<le> m \<and> j = (i + s) mod ?n"
      with jc c(1) show ?thesis by (metis Suc_leI le_neq_implies_less)
    next
      assume "on_chain hf cs j k1"
      from chain_survives_clear[OF this _ D(3) _ c(1) _ occ] t csj show ?thesis by simp
    qed
  qed
  have uniq: "keys_unique tf ?cs" using keys_unique_move[OF D(2) clt c'lt c(2) dn(3)] .
  have runeq: "?cs ! ((i + s) mod ?n) = cs ! ((i + s) mod ?n)" if "Suc t \<le> s" "s \<le> m" for s
    using run[OF that] by simp
  show ?thesis
    unfolding rehash_state_def length_list_update
  proof (intro conjI allI impI)
    show "?cs ! ((i + (m + 1)) mod ?n) = None" using e D(3) by simp
  next
    fix s assume "Suc t \<le> s \<and> s \<le> m"
    then show "?cs ! ((i + s) mod ?n) \<noteq> None" using runeq[of s] D(4)[of s] by simp
  next
    fix s k1 v1 assume "Suc t \<le> s \<and> s \<le> m" "?cs ! ((i + s) mod ?n) = Some (k1, v1)"
    then show "\<exists>d<?n. (HASH_POSITION k1 hf ?n + d) mod ?n = (i + s) mod ?n \<and>
        (\<forall>d'<d. (HASH_POSITION k1 hf ?n + d') mod ?n \<noteq> (i + (m + 1)) mod ?n)"
      using runeq[of s] D(6)[of s k1 v1] by simp
  qed (use n uniq chain in auto)
qed

lemma rehash_state_step:
  assumes st: "rehash_state hf tf cs i m t" and t: "t \<le> m" and refl: "\<And>k. tf k k"
    and c: "cs ! ((i + t) mod length cs) = Some (k, v)"
  shows "\<exists>c'. find_from (\<lambda>k'. k' = k) cs (length cs) (HASH_POSITION k hf (length cs)) = Some c' \<and>
    (if cs ! c' \<noteq> None then rehash_state hf tf cs i m (Suc t)
     else c' < length cs \<and> rehash_state hf tf (cs[c' := Some (k, v), (i + t) mod length cs := None]) i m (Suc t))"
proof -
  let ?n = "length cs" and ?h = "HASH_POSITION k hf (length cs)" and ?c = "(i + t) mod length cs"
  note D = rehash_stateD[OF st]
  from D(6)[of t] t c obtain d where d: "d < ?n" "(?h + d) mod ?n = ?c"
    "\<And>d'. d' < d \<Longrightarrow> (?h + d') mod ?n \<noteq> (i + (m + 1)) mod ?n" by auto
  have h: "?h < ?n" and clt: "?c < ?n" using mod_bound[OF d(1)] by (auto simp: HASH_POSITION_def)
  from find_from_terminates[OF h clt, of "\<lambda>k'. k' = k"] c
  obtain c' where c': "find_from (\<lambda>k'. k' = k) cs ?n ?h = Some c'" by auto
  obtain dn where dn: "dn < ?n" "c' = (?h + dn) mod ?n" "stops (\<lambda>k'. k' = k) (cs ! c')"
    "\<And>d'. d' < dn \<Longrightarrow> \<not> stops (\<lambda>k'. k' = k) (cs ! ((?h + d') mod ?n))"
    using find_from_Some[OF h c'] by blast
  have path: "cs ! ((?h + d') mod ?n) \<noteq> None" if "d' < dn" for d'
    using dn(4)[OF that] by (metis stops_simps(1))
  have c'lt: "c' < ?n" using dn(2) mod_bound[OF d(1)] by simp
  have "stops (\<lambda>k'. k' = k) (cs ! ((?h + d) mod ?n))" using d(2) c by simp
  then have "dn \<le> d" using dn(4)[of d] by (meson not_less)
  show ?thesis
  proof (cases "cs ! c'")
    case None
    then have "dn \<noteq> d" using d(2) dn(2) c by auto
    with \<open>dn \<le> d\<close> have "dn < d" by simp
    have "rehash_state hf tf (cs[c' := Some (k, v), ?c := None]) i m (Suc t)"
      by (rule rehash_state_move[OF st t HOL.refl c d \<open>dn < d\<close> dn(2) None path])
    with None c' c'lt show ?thesis by auto
  next
    case (Some kv)
    with dn(3) obtain v' where "cs ! c' = Some (k, v')" by (cases kv) auto
    then have "c' = ?c" by (rule keys_uniqueD[OF D(2) _ c refl c'lt clt])
    then have "on_chain hf cs ?c k" using dn(1,2) path by (intro on_chainI[of dn]) auto
    then have "rehash_state hf tf cs i m (Suc t)" by (rule rehash_state_stay[OF st t _ c])
    with Some c' show ?thesis by simp
  qed
qed

lemma mset_occupied_move:
  assumes "c < length cs" "c' < length cs" "cs ! c = Some kv" "cs ! c' = None"
  shows "mset (occupied (cs[c' := Some kv, c := None])) = mset (occupied cs)"
proof -
  have "c \<noteq> c'" using assms(3,4) by auto
  then show ?thesis
    using mset_occupied_update[of c "cs[c' := Some kv]" None] mset_occupied_update[of c' cs "Some kv"] assms
    by simp
qed

lemma rehash_adjacent_ok:
  assumes "rehash_state hf tf cs i m t" "t \<le> m + 1" "m + 1 < t + fuel" and refl: "\<And>k. tf k k"
  shows "\<exists>cs'. rehash_adjacent hf fuel cs ((i + t) mod length cs) = Some cs' \<and> length cs' = length cs \<and>
    mset (occupied cs') = mset (occupied cs) \<and> chains_ok hf cs' \<and> keys_unique tf cs'"
  using assms(1-3)
proof (induction fuel arbitrary: cs t)
  case 0
  then show ?case by simp
next
  case (Suc fuel)
  let ?n = "length cs" and ?c = "(i + t) mod length cs"
  note D = rehash_stateD[OF Suc.prems(1)]
  show ?case
  proof (cases "t \<le> m")
    case False
    then have "t = m + 1" using Suc.prems(2) by simp
    then have "on_chain hf cs j k" if "j < ?n" "cs ! j = Some (k, v)" for j k v
      using D(5)[OF that] by auto
    then have "chains_ok hf cs" unfolding chains_ok_def by blast
    moreover have "cs ! ?c = None" using D(3) \<open>t = m + 1\<close> by simp
    ultimately show ?thesis using D(2) by simp
  next
    case True
    have clt: "?c < ?n" and nxt: "NEXT_CELL ?c ?n = (i + Suc t) mod ?n"
      using mod_bound[OF D(1)] by (simp_all add: NEXT_CELL_mod mod_Suc_eq)
    from D(4)[of t] True obtain k v where c: "cs ! ?c = Some (k, v)" by auto
    from rehash_state_step[OF Suc.prems(1) True refl c] obtain c' where
      c': "find_from (\<lambda>k'. k' = k) cs ?n (HASH_POSITION k hf ?n) = Some c'" and
      next_st: "if cs ! c' \<noteq> None then rehash_state hf tf cs i m (Suc t)
        else c' < ?n \<and> rehash_state hf tf (cs[c' := Some (k, v), ?c := None]) i m (Suc t)" by blast
    let ?cs = "if cs ! c' \<noteq> None then cs else cs[c' := Some (k, v), ?c := None]"
    have st: "rehash_state hf tf ?cs i m (Suc t)" and len: "length ?cs = ?n"
      and ms: "mset (occupied ?cs) = mset (occupied cs)"
      using next_st mset_occupied_move[OF clt _ c] by (cases "cs ! c'"; simp)+
    have "rehash_adjacent hf (Suc fuel) cs ?c = rehash_adjacent hf fuel ?cs ((i + Suc t) mod length ?cs)"
      using c c' nxt len by (simp add: Let_def)
    moreover from Suc.IH[OF st] Suc.prems True obtain cs' where
      "rehash_adjacent hf fuel ?cs ((i + Suc t) mod length ?cs) = Some cs'" "length cs' = length ?cs"
      "mset (occupied cs') = mset (occupied ?cs)" "chains_ok hf cs'" "keys_unique tf cs'" by auto
    ultimately show ?thesis using len ms by metis
  qed
qed

lemma rehash_state_init:
  assumes ok: "chains_ok hf cs" and uniq: "keys_unique tf cs" and i: "i < length cs" "cs ! i \<noteq> None"
    and empty: "j0 < length cs" "cs ! j0 = None"
  shows "\<exists>m. rehash_state hf tf (cs[i := None]) i m 1"
proof -
  let ?n = "length cs" and ?cs = "cs[i := None]"
  let ?P = "\<lambda>x. x < ?n \<and> cs ! ((i + x) mod ?n) = None"
  define e where "e = (LEAST x. ?P x)"
  from mod_offset_ex[OF i(1) empty(1)] empty(2) obtain x0 where "?P x0" by auto
  then have e: "?P e" unfolding e_def by (rule LeastI)
  have before: "cs ! ((i + x) mod ?n) \<noteq> None" if "x < e" for x
    using not_less_Least[of x ?P] that e unfolding e_def by auto
  have "e \<noteq> 0" using e i by (cases e) auto
  then obtain m where m: "e = m + 1" by (cases e) auto
  have ne: "(i + x) mod ?n \<noteq> i" if "1 \<le> x" "x \<le> m + 1" for x
  proof
    assume "(i + x) mod ?n = i"
    then have "(i + x) mod ?n = (i + 0) mod ?n" using i(1) by simp
    from mod_offset_inj[OF this] show False using that e m by linarith
  qed
  have pend: "\<exists>d<?n. (HASH_POSITION k hf ?n + d) mod ?n = j \<and>
      (\<forall>d'<d. (HASH_POSITION k hf ?n + d') mod ?n \<noteq> (i + (m + 1)) mod ?n)"
    if "j < ?n" "cs ! j = Some (k, v)" for j k v
    using ok that e m unfolding chains_ok_def on_chain_def by metis
  have chain: "(\<exists>s. 1 \<le> s \<and> s \<le> m \<and> j = (i + s) mod ?n) \<or> on_chain hf ?cs j k"
    if j: "j < ?n" "?cs ! j = Some (k, v)" for j k v
  proof -
    have csj: "cs ! j = Some (k, v)" using j i(1) by (cases "j = i") auto
    with j(1) ok have "on_chain hf cs j k" unfolding chains_ok_def by blast
    from chain_survives_clear[OF this, of i m 0 i ?cs] e m csj i(1) show ?thesis by simp
  qed
  have "rehash_state hf tf ?cs i m 1"
    unfolding rehash_state_def length_list_update
  proof (intro conjI allI impI)
    show "?cs ! ((i + (m + 1)) mod ?n) = None" using e m ne[of "m + 1"] by simp
    show "?cs ! ((i + s) mod ?n) \<noteq> None" if "1 \<le> s \<and> s \<le> m" for s
      using before[of s] ne[of s] m that by simp
    show "\<exists>d<?n. (HASH_POSITION k hf ?n + d) mod ?n = (i + s) mod ?n \<and>
        (\<forall>d'<d. (HASH_POSITION k hf ?n + d') mod ?n \<noteq> (i + (m + 1)) mod ?n)"
      if "1 \<le> s \<and> s \<le> m" "?cs ! ((i + s) mod ?n) = Some (k, v)" for s k v
      using pend[of "(i + s) mod ?n" k v] that ne[of s] mod_bound[OF i(1)] by simp
  qed (use e m chain keys_unique_clear[OF uniq] in auto)
  then show ?thesis ..
qed

end
