(* ===== verification/Wget_Hash_Map.thy ===== *)
theory Wget_Hash_Map
  imports Wget_Hash_Probe
begin

section \<open>Hash tables implement maps (wget/src/hash.c)\<close>

text \<open>
  The operations of \<open>hash.c\<close> verified against the reference lookup \<open>ht_find\<close>: once for any
  hash and test function that satisfy the contract \<open>hash_keys\<close>, then as an implementation of
  the map interface \<open>keyed_map\<close>, which is what the cookie jar, the HSTS store and the robots
  table use. The string, case-insensitive string and pointer keys are interpretations.
\<close>

subsection \<open>The prime table\<close>

lemma primes_ge_13: "p \<in> set primes \<Longrightarrow> 13 \<le> p"
  by (auto simp: primes_def)

lemma length_primes: "length primes = 71"
  by (simp add: primes_def)

lemma prime_search_Some:
  "prime_search ps i sz = Some (p, j) \<Longrightarrow>
   i < j \<and> j \<le> i + length ps \<and> p = ps ! (j - 1 - i) \<and> sz \<le> p"
proof (induction ps arbitrary: i)
  case Nil
  then show ?case by simp
next
  case (Cons a ps)
  show ?case
  proof (cases "a \<ge> sz")
    case True
    with Cons.prems show ?thesis by auto
  next
    case False
    with Cons.prems have "prime_search ps (i + 1) sz = Some (p, j)" by simp
    from Cons.IH[OF this] show ?thesis
      by (auto simp: nth_Cons' Suc_diff_Suc[symmetric])
  qed
qed

lemma prime_search_None: "prime_search ps i sz = None \<longleftrightarrow> (\<forall>p\<in>set ps. p < sz)"
  by (induction ps arbitrary: i) auto

lemma prime_size_Some:
  assumes "prime_size sz off = Some (p, off')"
  shows "off < off'" "off' \<le> length primes" "p = primes ! (off' - 1)" "sz \<le> p" "13 \<le> p"
proof -
  from prime_search_Some[of "drop off primes" off sz p off'] assms
  have *: "off < off'" "off' \<le> off + length (drop off primes)" "p = drop off primes ! (off' - 1 - off)" "sz \<le> p"
    by (auto simp: prime_size_def)
  show "off < off'" "sz \<le> p" by fact+
  show "off' \<le> length primes" using * by (cases "off \<le> length primes") auto
  then show p: "p = primes ! (off' - 1)" using * by simp
  show "13 \<le> p" unfolding p using \<open>off' \<le> length primes\<close> \<open>off < off'\<close> by (intro primes_ge_13 nth_mem) simp
qed

lemma prime_size_total:
  assumes "off < length primes" "sz \<le> INT_MAX"
  shows "\<exists>r. prime_size sz off = Some r"
proof -
  have "last (drop off primes) = 2147483647" using assms(1) by (simp add: primes_def last_drop)
  then have "2147483647 \<in> set (drop off primes)"
    by (metis assms(1) drop_eq_Nil last_in_set not_le)
  then have "prime_search (drop off primes) off sz \<noteq> None"
    using assms(2) unfolding prime_search_None INT_MAX_def by (meson not_less)
  then show ?thesis by (auto simp: prime_size_def)
qed

lemma ht_invD:
  assumes "ht_inv hf tf ht"
  shows "hash_function ht = hf" "test_function ht = tf" "length (cells ht) = ht_size ht"
    "ht_count ht = length (ht_entries ht)" "ht_count ht \<le> resize_threshold ht"
    "resize_threshold ht = 3 * ht_size ht div 4" "ht_size ht = primes ! (prime_offset ht - 1)"
    "0 < prime_offset ht" "prime_offset ht \<le> length primes"
    "chains_ok hf (cells ht)" "keys_unique tf (cells ht)"
    "13 \<le> ht_size ht" "length (occupied (cells ht)) < length (cells ht)"
proof -
  show "13 \<le> ht_size ht"
    using assms unfolding ht_inv_def by (metis primes_ge_13 nth_mem diff_less less_le_trans zero_less_one)
  then show "length (occupied (cells ht)) < length (cells ht)"
    using assms unfolding ht_inv_def ht_entries_def by linarith
qed (use assms in \<open>auto simp: ht_inv_def\<close>)

subsection \<open>The contract of the hash and test functions\<close>

text \<open>
  What \<open>hash.c\<close> asks of the callbacks in its guidelines for custom hash and test
  functions: the test is an equivalence and equal keys hash alike. Every operation is
  verified once from these laws.
\<close>

locale hash_keys =
  fixes hf :: "'k \<Rightarrow> 64 word" and tf :: "'k \<Rightarrow> 'k \<Rightarrow> bool"
  assumes tf_refl: "tf k k"
    and tf_sym: "tf a b \<Longrightarrow> tf b a"
    and tf_trans: "tf a b \<Longrightarrow> tf b c \<Longrightarrow> tf a c"
    and hf_cong: "tf a b \<Longrightarrow> hf a = hf b"
begin

lemma home_cong: "tf a b \<Longrightarrow> HASH_POSITION a hf n = HASH_POSITION b hf n"
  by (simp add: HASH_POSITION_def hf_cong)

lemma find_entry_iff:
  assumes "keys_unique tf cs"
  shows "find (\<lambda>e. tf k (fst e)) (occupied cs) = Some e \<longleftrightarrow> e \<in> set (occupied cs) \<and> tf k (fst e)"
proof
  assume "find (\<lambda>e. tf k (fst e)) (occupied cs) = Some e"
  then show "e \<in> set (occupied cs) \<and> tf k (fst e)"
    by (auto simp: find_Some_iff)
next
  assume e: "e \<in> set (occupied cs) \<and> tf k (fst e)"
  then have "find (\<lambda>e. tf k (fst e)) (occupied cs) \<noteq> None"
    unfolding find_None_iff by blast
  then obtain e' where e': "find (\<lambda>e. tf k (fst e)) (occupied cs) = Some e'" by auto
  then have "e' \<in> set (occupied cs)" "tf k (fst e')"
    by (auto simp: find_Some_iff)
  with e obtain i j where ij: "i < length cs" "j < length cs" "cs ! i = Some e" "cs ! j = Some e'"
    by (auto simp: in_occupied)
  have "tf (fst e) (fst e')" using e \<open>tf k (fst e')\<close> tf_sym tf_trans by blast
  then have "i = j"
    using keys_uniqueD[OF assms, of i "fst e" "snd e" j "fst e'" "snd e'"] ij by simp
  with ij e' show "find (\<lambda>e. tf k (fst e)) (occupied cs) = Some e" by simp
qed

lemma ht_find_iff:
  "ht_inv hf tf ht \<Longrightarrow> ht_find ht k = Some e \<longleftrightarrow> e \<in> set (ht_entries ht) \<and> tf k (fst e)"
  using find_entry_iff[of "cells ht" k e] by (simp add: ht_find_def ht_entries_def ht_invD)

lemma ht_find_None:
  "ht_inv hf tf ht \<Longrightarrow> ht_find ht k = None \<longleftrightarrow> (\<forall>e\<in>set (ht_entries ht). \<not> tf k (fst e))"
  using ht_find_iff[of ht k] by (metis not_Some_eq)

lemma ht_find_eqI:
  assumes "ht_inv hf tf ht" "\<And>e. e \<in> set (ht_entries ht) \<and> tf k (fst e) \<longleftrightarrow> r = Some e"
  shows "ht_find ht k = r"
  using ht_find_iff[OF assms(1), of k] assms(2) by (metis option.exhaust)

lemma find_cell_ok:
  assumes inv: "ht_inv hf tf ht"
  obtains c d where "find_cell ht k = Some c" "c < ht_size ht" "cells ht ! c = ht_find ht k"
    "d < ht_size ht" "c = (HASH_POSITION k hf (ht_size ht) + d) mod ht_size ht"
    "\<And>d'. d' < d \<Longrightarrow> cells ht ! ((HASH_POSITION k hf (ht_size ht) + d') mod ht_size ht) \<noteq> None"
proof -
  let ?cs = "cells ht" and ?n = "ht_size ht" and ?h = "HASH_POSITION k hf (ht_size ht)"
  note D = ht_invD[OF inv]
  have h: "?h < length ?cs" using D(3,12) by simp
  from empty_cell_ex[OF D(13)] obtain j0 where j0: "j0 < length ?cs" "?cs ! j0 = None" by blast
  from find_from_terminates[OF h j0(1), of "tf k"] j0 obtain c where
    c: "find_from (tf k) ?cs (length ?cs) ?h = Some c" by auto
  obtain d where d: "d < ?n" "c = (?h + d) mod ?n" "stops (tf k) (?cs ! c)"
    "\<And>d'. d' < d \<Longrightarrow> \<not> stops (tf k) (?cs ! ((?h + d') mod ?n))"
    using find_from_Some[OF h c] D(3) by metis
  have found: "?cs ! c = ht_find ht k"
  proof (cases "?cs ! c")
    case (Some e)
    then have "tf k (fst e)" using d(3) by simp
    moreover have "c < length ?cs" using d(2) mod_bound[OF d(1)] D(3) by simp
    ultimately have "e \<in> set (ht_entries ht) \<and> tf k (fst e)"
      using Some by (auto simp: ht_entries_def in_occupied)
    with Some show ?thesis using ht_find_iff[OF inv, of k e] by metis
  next
    case None
    have "\<not> tf k k'" if e: "(k', v) \<in> set (ht_entries ht)" for k' v
    proof
      assume tf: "tf k k'"
      from e obtain j where j: "j < ?n" "?cs ! j = Some (k', v)" using D(3) by (auto simp: ht_entries_def in_occupied)
      with D(3,10) home_cong[OF tf] obtain d1 where d1: "d1 < ?n" "(?h + d1) mod ?n = j"
        "\<And>d'. d' < d1 \<Longrightarrow> ?cs ! ((?h + d') mod ?n) \<noteq> None"
        unfolding chains_ok_def on_chain_def by metis
      have "stops (tf k) (?cs ! ((?h + d1) mod ?n))" using j d1(2) tf by simp
      then have "\<not> d1 < d" using d(4) by blast
      moreover have "d \<noteq> d1" using None d(2) d1(2) j by auto
      moreover have "\<not> d < d1" using None d(2) d1(3)[of d] by auto
      ultimately show False by simp
    qed
    with None show ?thesis using ht_find_None[OF inv, of k] by force
  qed
  show thesis
  proof (rule that[of c d])
    show "find_cell ht k = Some c" using c D by (simp add: find_cell_def)
    show "?cs ! ((?h + d') mod ?n) \<noteq> None" if "d' < d" for d'
      using d(4)[OF that] by (metis stops_simps(1))
  qed (use found d mod_bound[OF d(1)] in auto)
qed

lemma found_cell_only:
  assumes uniq: "keys_unique tf cs" and c: "c < length cs"
    and found: "cs ! c = find (\<lambda>e. tf k (fst e)) (occupied cs)"
    and j: "j < length cs" "cs ! j = Some e"
  shows "j \<noteq> c \<longleftrightarrow> \<not> tf k (fst e)"
proof
  assume "j \<noteq> c"
  have "j = c" if "tf k (fst e)"
  proof -
    from that j have "cs ! c = Some e"
      using found find_entry_iff[OF uniq, of k e] in_occupied[of e cs] by auto
    then show ?thesis
      using keys_uniqueD[OF uniq, of j "fst e" "snd e" c "fst e" "snd e"] tf_refl j c by simp
  qed
  with \<open>j \<noteq> c\<close> show "\<not> tf k (fst e)" by blast
next
  assume "\<not> tf k (fst e)"
  then show "j \<noteq> c" using found j find_entry_iff[OF uniq, of k e] by auto
qed

lemma entries_update:
  assumes uniq: "keys_unique tf cs" and c: "c < length cs"
    and found: "cs ! c = find (\<lambda>e. tf k (fst e)) (occupied cs)"
  shows "set (occupied (cs[c := None])) = {e \<in> set (occupied cs). \<not> tf k (fst e)}" (is ?del)
    and "set (occupied (cs[c := Some (k, v)])) = insert (k, v) {e \<in> set (occupied cs). \<not> tf k (fst e)}" (is ?ins)
proof -
  note other = found_cell_only[OF uniq c found]
  have "e \<in> set (occupied (cs[c := None])) \<longleftrightarrow> e \<in> set (occupied cs) \<and> \<not> tf k (fst e)" for e
    unfolding in_occupied length_list_update
    using other[of _ e] by (metis nth_list_update_eq nth_list_update_neq option.distinct(1))
  then show ?del by blast
  have "e \<in> set (occupied (cs[c := Some (k, v)])) \<longleftrightarrow>
      e = (k, v) \<or> e \<in> set (occupied cs) \<and> \<not> tf k (fst e)" for e
    unfolding in_occupied length_list_update
    using other[of _ e] c by (metis nth_list_update_eq nth_list_update_neq option.inject)
  then show ?ins by blast
qed

lemma get_ok [simp]: "ht_inv hf tf ht \<Longrightarrow> hash_table_get ht k = Some (map_option snd (ht_find ht k))"
  by (erule find_cell_ok[of _ k]) (simp add: hash_table_get_def)

lemma get_pair_ok [simp]: "ht_inv hf tf ht \<Longrightarrow> hash_table_get_pair ht k = Some (ht_find ht k)"
  by (erule find_cell_ok[of _ k]) (simp add: hash_table_get_pair_def)

lemma contains_ok [simp]: "ht_inv hf tf ht \<Longrightarrow> hash_table_contains ht k = Some (ht_find ht k \<noteq> None)"
  by (erule find_cell_ok[of _ k]) (simp add: hash_table_contains_def)

lemma rehash_into_ok:
  assumes "rehash_into hf old cs = Some cs'" "chains_ok hf cs" "0 < length cs"
    "keys_unique tf cs" "\<And>a b. a \<in> set (occupied old) \<Longrightarrow> b \<in> set (occupied cs) \<Longrightarrow> \<not> tf (fst a) (fst b)"
    "sorted_wrt (\<lambda>a b. \<not> tf (fst a) (fst b)) (occupied old)"
  shows "length cs' = length cs \<and> chains_ok hf cs' \<and> keys_unique tf cs' \<and>
    mset (occupied cs') = mset (occupied old) + mset (occupied cs)"
  using assms
proof (induction hf old cs rule: rehash_into.induct)
  case (3 hasher k v old cs)
  let ?n = "length cs" and ?h = "HASH_POSITION k hasher (length cs)"
  from "3.prems"(1) obtain c where c: "find_from (\<lambda>_. False) cs ?n ?h = Some c"
    and rec: "rehash_into hasher old (cs[c := Some (k, v)]) = Some cs'" by (auto simp: bind_eq_Some_conv)
  have h: "?h < ?n" using "3.prems"(3) by simp
  obtain d where d: "d < ?n" "c = (?h + d) mod ?n" "stops (\<lambda>_. False) (cs ! c)"
    "\<And>d'. d' < d \<Longrightarrow> \<not> stops (\<lambda>_. False) (cs ! ((?h + d') mod ?n))"
    using find_from_Some[OF h c] by metis
  have clt: "c < ?n" and free: "cs ! c = None" using d(2,3) mod_bound[OF h] by (auto simp: stops_def split: option.splits)
  let ?cs = "cs[c := Some (k, v)]"
  have ms: "mset (occupied ?cs) = add_mset (k, v) (mset (occupied cs))"
    using mset_occupied_update[OF clt, of "Some (k, v)"] free by simp
  then have sets: "set (occupied ?cs) = insert (k, v) (set (occupied cs))"
    by (metis set_mset_add_mset_insert set_mset_mset)
  have ch: "chains_ok hasher ?cs"
    by (rule chains_ok_insert[OF "3.prems"(2) d(1,2)]) (use d(4) in \<open>metis stops_simps(1)\<close>)
  have un: "keys_unique tf ?cs"
  proof (rule keys_unique_update[OF "3.prems"(4) clt])
    fix j b w assume "j < ?n" "cs ! j = Some (b, w)"
    then have "(b, w) \<in> set (occupied cs)" by (auto simp: in_occupied)
    then have "\<not> tf k b" using "3.prems"(5)[of "(k, v)" "(b, w)"] by simp
    then show "\<not> tf k b \<and> \<not> tf b k" using tf_sym by blast
  qed
  have sep: "\<not> tf (fst a) (fst b)" if "a \<in> set (occupied old)" "b \<in> set (occupied ?cs)" for a b
  proof (cases "b = (k, v)")
    case True
    have "\<not> tf k (fst a)" using "3.prems"(6) that(1) by simp
    with True tf_sym show ?thesis by auto
  next
    case False
    with that sets show ?thesis by (intro "3.prems"(5)) auto
  qed
  from "3.IH"[OF c rec ch _ un sep] "3.prems"(3,6) ms show ?case by auto
qed auto

lemma rehash_into_total:
  assumes "length (occupied old) + length (occupied cs) < length cs"
  shows "\<exists>cs'. rehash_into hf old cs = Some cs'"
  using assms
proof (induction hf old cs rule: rehash_into.induct)
  case (3 hasher k v old cs)
  let ?n = "length cs" and ?h = "HASH_POSITION k hasher (length cs)"
  have "length (occupied cs) < ?n" and h: "?h < ?n" using "3.prems" by (auto intro: HASH_POSITION_less)
  then obtain j where j: "j < ?n" "cs ! j = None" using empty_cell_ex by blast
  then obtain c where c: "find_from (\<lambda>_. False) cs ?n ?h = Some c"
    using find_from_terminates[OF h j(1), of "\<lambda>_. False"] by auto
  obtain d where "c = (?h + d) mod ?n" "stops (\<lambda>_. False) (cs ! c)" using find_from_Some[OF h c] by blast
  then have clt: "c < ?n" and free: "cs ! c = None"
    using mod_bound[OF h] by (auto simp: stops_def split: option.splits)
  then have "mset (occupied (cs[c := Some (k, v)])) = add_mset (k, v) (mset (occupied cs))"
    using mset_occupied_update[OF clt, of "Some (k, v)"] by simp
  then have "length (occupied (cs[c := Some (k, v)])) = Suc (length (occupied cs))"
    by (metis size_add_mset size_mset)
  with "3.IH"[OF c] "3.prems" c show ?case by simp
qed auto

lemma keys_unique_sorted:
  "keys_unique tf cs \<Longrightarrow> sorted_wrt (\<lambda>a b. \<not> tf (fst a) (fst b)) (occupied cs)"
proof (induction cs)
  case Nil
  then show ?case by simp
next
  case (Cons x cs)
  have "keys_unique tf cs"
    unfolding keys_unique_def
  proof (intro allI impI)
    fix i j a v b w assume "i < length cs" "j < length cs" "cs ! i = Some (a, v)" "cs ! j = Some (b, w)" "tf a b"
    then show "i = j" using keys_uniqueD[OF Cons.prems, of "Suc i" a v "Suc j" b w] by simp
  qed
  moreover have "\<not> tf (fst a) (fst b)" if "x = Some a" "b \<in> set (occupied cs)" for a b
  proof
    assume tf: "tf (fst a) (fst b)"
    from that obtain j where "j < length cs" "cs ! j = Some b" by (auto simp: in_occupied)
    then show False
      using keys_uniqueD[OF Cons.prems, of 0 "fst a" "snd a" "Suc j" "fst b" "snd b"] that tf by simp
  qed
  ultimately show ?case using Cons.IH by (cases x) auto
qed

lemma new_ok:
  assumes "hash_table_new items hf tf = Some ht"
  shows "ht_inv hf tf ht" "ht_entries ht = []"
proof -
  from assms obtain sz off where sz: "prime_size (1 + 4 * items div 3) 0 = Some (sz, off)"
    and ht: "ht = \<lparr>hash_function = hf, test_function = tf, cells = replicate sz None, ht_size = sz,
      ht_count = 0, resize_threshold = 3 * sz div 4, prime_offset = off\<rparr>"
    by (auto simp: hash_table_new_def bind_eq_Some_conv)
  note P = prime_size_Some[OF sz]
  show "ht_entries ht = []" by (simp add: ht ht_entries_def)
  then show "ht_inv hf tf ht"
    using P by (auto simp: ht_inv_def ht)
qed

lemma clear_ok:
  assumes "ht_inv hf tf ht"
  shows "ht_inv hf tf (hash_table_clear ht)" "ht_entries (hash_table_clear ht) = []"
  using assms by (auto simp: hash_table_clear_def ht_inv_def ht_entries_def)

lemma grow_ok:
  assumes inv: "ht_inv hf tf ht" and grow: "grow_hash_table ht = Some ht'"
  shows "ht_inv hf tf ht'" "mset (ht_entries ht') = mset (ht_entries ht)"
    "ht_count ht' = ht_count ht" "ht_count ht' < resize_threshold ht'"
proof -
  note D = ht_invD[OF inv]
  from grow obtain sz off cs where sz: "prime_size (ht_size ht * 2) (prime_offset ht) = Some (sz, off)"
    and cs: "rehash_into hf (cells ht) (replicate sz None) = Some cs"
    and ht': "ht' = ht\<lparr>ht_size := sz, resize_threshold := 3 * sz div 4, cells := cs, prime_offset := off\<rparr>"
    using D(1) by (auto simp: grow_hash_table_def bind_eq_Some_conv split: if_splits)
  note P = prime_size_Some[OF sz]
  have "length cs = sz \<and> chains_ok hf cs \<and> keys_unique tf cs \<and> mset (occupied cs) = mset (occupied (cells ht))"
    using rehash_into_ok[OF cs] P keys_unique_sorted[OF D(11)] by simp
  moreover then have "length (occupied cs) = length (occupied (cells ht))" by (metis size_mset)
  moreover show "ht_count ht' < resize_threshold ht'"
    using D(5,6,12) P(4) by (simp add: ht')
  ultimately show "ht_inv hf tf ht'" "mset (ht_entries ht') = mset (ht_entries ht)"
    "ht_count ht' = ht_count ht"
    using D P unfolding ht_inv_def ht_entries_def by (auto simp: ht' ht_entries_def)
qed

lemma grow_total:
  assumes inv: "ht_inv hf tf ht" and "ht_size ht * 2 \<le> INT_MAX"
  shows "\<exists>ht'. grow_hash_table ht = Some ht'"
proof -
  note D = ht_invD[OF inv]
  have "prime_offset ht \<noteq> length primes"
  proof
    assume "prime_offset ht = length primes"
    then have "ht_size ht = 2147483647" using D(7) by (simp add: primes_def)
    with assms(2) show False by (simp add: INT_MAX_def)
  qed
  then obtain sz off where sz: "prime_size (ht_size ht * 2) (prime_offset ht) = Some (sz, off)"
    using prime_size_total[of "prime_offset ht" "ht_size ht * 2"] D(9) assms(2) by auto
  have "length (occupied (cells ht)) < sz" using prime_size_Some(4)[OF sz] D(3,12,13) by simp
  then obtain cs where "rehash_into hf (cells ht) (replicate sz None) = Some cs"
    using rehash_into_total[of "cells ht" "replicate sz None"] by auto
  with sz assms(2) D(1) show ?thesis by (simp add: grow_hash_table_def)
qed

lemma write_cell:
  assumes inv: "ht_inv hf tf ht" and c: "find_cell ht k = Some c" and cs': "cs' = (cells ht)[c := Some (k, v)]"
  shows "chains_ok hf cs'" and "keys_unique tf cs'"
    and "set (occupied cs') = insert (k, v) {e \<in> set (ht_entries ht). \<not> tf k (fst e)}"
    and "length (occupied cs') = (if ht_find ht k = None then Suc (ht_count ht) else ht_count ht)"
proof -
  note D = ht_invD[OF inv]
  obtain c0 d where c0: "find_cell ht k = Some c0" and d0: "c0 < ht_size ht" "cells ht ! c0 = ht_find ht k"
    "d < ht_size ht" "c0 = (HASH_POSITION k hf (ht_size ht) + d) mod ht_size ht"
    "\<And>d'. d' < d \<Longrightarrow> cells ht ! ((HASH_POSITION k hf (ht_size ht) + d') mod ht_size ht) \<noteq> None"
    using find_cell_ok[OF inv, of k] by blast
  have "c0 = c" using c c0 by simp
  note d = d0[unfolded this]
  have clt: "c < length (cells ht)" using d(1) D(3) by simp
  have found: "cells ht ! c = find (\<lambda>e. tf k (fst e)) (occupied (cells ht))"
    using d(2) D(2) by (simp add: ht_find_def ht_entries_def)
  show "set (occupied cs') = insert (k, v) {e \<in> set (ht_entries ht). \<not> tf k (fst e)}"
    using entries_update(2)[OF D(11) clt found, of v] by (simp add: ht_entries_def cs')
  show "chains_ok hf cs'"
    using chains_ok_insert[OF D(10), of d c k v] d D(3) by (simp add: cs')
  show "keys_unique tf cs'"
    unfolding cs'
  proof (rule keys_unique_update[OF D(11) clt])
    fix j b w assume j: "j < length (cells ht)" "j \<noteq> c" "cells ht ! j = Some (b, w)"
    then have "\<not> tf k b" using found_cell_only[OF D(11) clt found j(1,3)] by simp
    then show "\<not> tf k b \<and> \<not> tf b k" using tf_sym by blast
  qed
  have "length (occupied cs') + length (occupied [cells ht ! c]) = Suc (length (occupied (cells ht)))"
    using arg_cong[OF mset_occupied_update[OF clt, of "Some (k, v)"], of size] by (simp add: cs')
  then show "length (occupied cs') = (if ht_find ht k = None then Suc (ht_count ht) else ht_count ht)"
    using d(2) D(4) by (auto simp: ht_entries_def)
qed

lemma tf_class: "tf k' x \<Longrightarrow> tf k x \<longleftrightarrow> tf k k'"
  using tf_sym tf_trans by blast

lemma find_after_write:
  assumes inv: "ht_inv hf tf ht" "ht_inv hf tf ht'"
    and sets: "set (ht_entries ht') = insert (k, v) {e \<in> set (ht_entries ht). \<not> tf k (fst e)}"
  shows "ht_find ht' k' = (if tf k k' then Some (k, v) else ht_find ht k')"
proof (rule ht_find_eqI[OF inv(2)])
  fix e
  have "tf k k' \<longleftrightarrow> tf k' k" using tf_sym by blast
  then show "e \<in> set (ht_entries ht') \<and> tf k' (fst e) \<longleftrightarrow> (if tf k k' then Some (k, v) else ht_find ht k') = Some e"
    using ht_find_iff[OF inv(1), of k' e] tf_class[of k' "fst e" k] unfolding sets by (cases "tf k k'") auto
qed

lemma find_after_delete:
  assumes inv: "ht_inv hf tf ht" "ht_inv hf tf ht'"
    and sets: "set (ht_entries ht') = {e \<in> set (ht_entries ht). \<not> tf k (fst e)}"
  shows "ht_find ht' k' = (if tf k k' then None else ht_find ht k')"
proof (rule ht_find_eqI[OF inv(2)])
  fix e
  show "e \<in> set (ht_entries ht') \<and> tf k' (fst e) \<longleftrightarrow> (if tf k k' then None else ht_find ht k') = Some e"
    using ht_find_iff[OF inv(1), of k' e] tf_class[of k' "fst e" k] unfolding sets by (cases "tf k k'") auto
qed

lemma put_ok:
  assumes inv: "ht_inv hf tf ht" and put: "hash_table_put ht k v = Some ht'"
  shows "ht_inv hf tf ht'"
    and "ht_find ht' k' = (if tf k k' then Some (k, v) else ht_find ht k')"
    and "ht_count ht' = (if ht_find ht k = None then Suc (ht_count ht) else ht_count ht)"
proof -
  obtain c where c: "find_cell ht k = Some c" "cells ht ! c = ht_find ht k"
    using find_cell_ok[OF inv, of k] by blast
  note D = ht_invD[OF inv] and W = write_cell[OF inv c(1) refl, of v]
  consider (old) "ht_find ht k \<noteq> None" "ht' = ht\<lparr>cells := (cells ht)[c := Some (k, v)]\<rparr>"
    | (new) "ht_find ht k = None" "ht_count ht < resize_threshold ht"
        "ht' = ht\<lparr>ht_count := ht_count ht + 1, cells := (cells ht)[c := Some (k, v)]\<rparr>"
    | (grow) g c' where "ht_find ht k = None" "grow_hash_table ht = Some g" "find_cell g k = Some c'"
        "ht' = g\<lparr>ht_count := ht_count g + 1, cells := (cells g)[c' := Some (k, v)]\<rparr>"
    using put c by (cases "ht_find ht k") (auto simp: hash_table_put_def bind_eq_Some_conv split: if_splits)
  then have "ht_inv hf tf ht' \<and> set (ht_entries ht') = insert (k, v) {e \<in> set (ht_entries ht). \<not> tf k (fst e)} \<and>
    ht_count ht' = (if ht_find ht k = None then Suc (ht_count ht) else ht_count ht)"
  proof cases
    case old
    with W D show ?thesis by (auto simp: ht_inv_def ht_entries_def)
  next
    case new
    with W D show ?thesis by (auto simp: ht_inv_def ht_entries_def)
  next
    case grow
    note G = grow_ok[OF inv grow(2)]
    note DG = ht_invD[OF G(1)] and WG = write_cell[OF G(1) grow(3) refl, of v]
    have same: "set (ht_entries g) = set (ht_entries ht)" using G(2) by (metis set_mset_mset)
    then have "ht_find g k = None" using grow(1) ht_find_None[OF inv] ht_find_None[OF G(1)] by simp
    with grow WG DG G same show ?thesis by (auto simp: ht_inv_def ht_entries_def)
  qed
  then show "ht_inv hf tf ht'" "ht_find ht' k' = (if tf k k' then Some (k, v) else ht_find ht k')"
    "ht_count ht' = (if ht_find ht k = None then Suc (ht_count ht) else ht_count ht)"
    using find_after_write[OF inv] by blast+
qed

lemma put_total:
  assumes inv: "ht_inv hf tf ht" and "ht_count ht < 805306367"
  shows "\<exists>ht'. hash_table_put ht k v = Some ht'"
proof -
  note D = ht_invD[OF inv]
  obtain c where c: "find_cell ht k = Some c" using find_cell_ok[OF inv, of k] by blast
  show ?thesis
  proof (cases "ht_count ht \<ge> resize_threshold ht")
    case True
    then have "ht_size ht * 2 \<le> INT_MAX" using D(6) assms(2) by (simp add: INT_MAX_def)
    then obtain g where g: "grow_hash_table ht = Some g" using grow_total[OF inv] by blast
    obtain c' where "find_cell g k = Some c'" using find_cell_ok[OF grow_ok(1)[OF inv g], of k] by blast
    with c g show ?thesis by (simp add: hash_table_put_def)
  next
    case False
    with c show ?thesis by (simp add: hash_table_put_def)
  qed
qed

lemma relink_put:
  assumes inv: "ht_inv hf tf ht" and find: "ht_find ht k = Some (key, old)"
  shows "relink ht k v = hash_table_put ht key v"
proof -
  have eq: "tf k key" using find ht_find_iff[OF inv] by auto
  then have tf: "tf k = tf key" using tf_sym tf_trans by blast
  have cell: "find_cell ht key = find_cell ht k"
    using tf home_cong[OF eq] ht_invD(1,2)[OF inv] by (simp add: find_cell_def)
  obtain c where c: "find_cell ht k = Some c" "cells ht ! c = ht_find ht k"
    using find_cell_ok[OF inv, of k] by blast
  show ?thesis using c cell find by (simp add: relink_def hash_table_put_def)
qed

lemma put_old:
  assumes inv: "ht_inv hf tf ht" and find: "ht_find ht k \<noteq> None"
  shows "\<exists>ht'. hash_table_put ht k v = Some ht'"
proof -
  obtain c where "find_cell ht k = Some c" "cells ht ! c = ht_find ht k"
    using find_cell_ok[OF inv, of k] by blast
  then show ?thesis using find by (auto simp: hash_table_put_def)
qed

lemma relink_ok:
  assumes inv: "ht_inv hf tf ht" and find: "ht_find ht k = Some (key, old)"
  obtains ht' where "relink ht k v = Some ht'" "ht_inv hf tf ht'"
    "\<And>k'. ht_find ht' k' = (if tf k k' then Some (key, v) else ht_find ht k')" "ht_count ht' = ht_count ht"
proof -
  have eq: "tf k key" using find ht_find_iff[OF inv] by auto
  have key: "ht_find ht key = Some (key, old)"
    using find ht_find_iff[OF inv] eq tf_refl by auto
  then obtain ht' where ht': "hash_table_put ht key v = Some ht'" using put_old[OF inv, of key] by auto
  have "tf key k' \<longleftrightarrow> tf k k'" for k' using eq tf_sym tf_trans by blast
  then show thesis
    using that[of ht'] put_ok[OF inv ht'] relink_put[OF assms] ht' key by simp
qed

lemma remove_ok:
  assumes inv: "ht_inv hf tf ht"
  obtains ht' where "hash_table_remove ht k = Some (ht_find ht k \<noteq> None, ht')"
    "ht_inv hf tf ht'" "\<And>k'. ht_find ht' k' = (if tf k k' then None else ht_find ht k')"
    "ht_count ht' = (if ht_find ht k = None then ht_count ht else ht_count ht - 1)"
proof -
  note D = ht_invD[OF inv]
  obtain c where c: "find_cell ht k = Some c" "c < length (cells ht)" "cells ht ! c = ht_find ht k"
    using find_cell_ok[OF inv, of k] D(3) by metis
  show thesis
  proof (cases "ht_find ht k")
    case None
    have "ht_find ht k' = None" if "tf k k'" for k'
      using None that ht_find_None[OF inv] tf_trans by blast
    with None c inv show ?thesis by (intro that[of ht]) (auto simp: hash_table_remove_def)
  next
    case (Some kv)
    let ?cs = "(cells ht)[c := None]"
    from empty_cell_ex[OF D(13)] obtain j0 where j0: "j0 < length (cells ht)" "cells ht ! j0 = None" by blast
    obtain m where m: "rehash_state hf tf ?cs c m 1"
      using rehash_state_init[OF D(10,11) c(2) _ j0] c(3) Some by auto
    have "NEXT_CELL c (ht_size ht) = (c + 1) mod length ?cs" using c(2) D(3) by (simp add: NEXT_CELL_mod)
    then obtain cs' where cs': "rehash_adjacent hf (ht_size ht) ?cs (NEXT_CELL c (ht_size ht)) = Some cs'"
      "length cs' = ht_size ht" "mset (occupied cs') = mset (occupied ?cs)" "chains_ok hf cs'" "keys_unique tf cs'"
      using rehash_adjacent_ok[OF m _ _ tf_refl, of "ht_size ht"] rehash_stateD(1)[OF m] D(3) by auto
    let ?ht = "ht\<lparr>cells := cs', ht_count := ht_count ht - 1\<rparr>"
    have found: "cells ht ! c = find (\<lambda>e. tf k (fst e)) (occupied (cells ht))"
      using c(3) D(2) by (simp add: ht_find_def ht_entries_def)
    have sets: "set (ht_entries ?ht) = {e \<in> set (ht_entries ht). \<not> tf k (fst e)}"
      using entries_update(1)[OF D(11) c(2) found] cs'(3) by (simp add: ht_entries_def) (metis set_mset_mset)
    have "length (occupied ?cs) + 1 = length (occupied (cells ht))"
      using arg_cong[OF mset_occupied_update[OF c(2), of None], of size] c(3) Some by simp
    moreover have "length (occupied cs') = length (occupied ?cs)" using cs'(3) by (metis size_mset)
    ultimately have "length (occupied cs') = ht_count ht - 1" using D(4) by (simp add: ht_entries_def)
    moreover have "ht_count ht - 1 \<le> resize_threshold ht" using D(5) by simp
    ultimately have inv': "ht_inv hf tf ?ht" using D(1-3,6-9) cs' by (simp add: ht_inv_def ht_entries_def)
    note find' = find_after_delete[OF inv inv' sets]
    show ?thesis
      by (rule that[OF _ inv' find']) (use c Some cs'(1) D(1) in \<open>auto simp: hash_table_remove_def\<close>)
  qed
qed

end

subsection \<open>Iteration visits the entries\<close>

lemma iter_scan_cases:
  assumes "c + left = length cs"
  shows "case iter_scan cs left c of
      None \<Rightarrow> occupied (drop c cs) = []
    | Some (j, e) \<Rightarrow> c \<le> j \<and> j < length cs \<and> occupied (drop c cs) = e # occupied (drop (Suc j) cs)"
  using assms
proof (induction left arbitrary: c)
  case 0
  then show ?case by simp
next
  case (Suc left)
  then have c: "drop c cs = cs ! c # drop (Suc c) cs" by (simp add: Cons_nth_drop_Suc)
  show ?case
  proof (cases "cs ! c")
    case None
    with Suc.IH[of "c + 1"] Suc.prems c show ?thesis by (auto split: option.splits)
  next
    case (Some e)
    with Suc.prems c show ?thesis by simp
  qed
qed

lemma iter_drain_eq:
  assumes "it_end iter = length (cells ht)" "it_pos iter \<le> it_end iter" "it_end iter - it_pos iter < fuel"
  shows "iter_drain ht fuel iter = occupied (drop (it_pos iter) (cells ht))"
  using assms
proof (induction fuel arbitrary: iter)
  case 0
  then show ?case by simp
next
  case (Suc fuel)
  have scan: "it_pos iter + (it_end iter - it_pos iter) = length (cells ht)" using Suc.prems by simp
  show ?case
  proof (cases "iter_scan (cells ht) (it_end iter - it_pos iter) (it_pos iter)")
    case None
    with iter_scan_cases[OF scan] show ?thesis by (simp add: hash_table_iter_next_def)
  next
    case (Some je)
    obtain j e where je: "je = (j, e)" by (cases je)
    with Some iter_scan_cases[OF scan] have j: "it_pos iter \<le> j" "j < length (cells ht)"
      "occupied (drop (it_pos iter) (cells ht)) = e # occupied (drop (Suc j) (cells ht))" by auto
    let ?it = "iter\<lparr>it_entry := Some e, it_pos := j + 1\<rparr>"
    have "iter_drain ht fuel ?it = occupied (drop (it_pos ?it) (cells ht))"
      by (rule Suc.IH) (use Suc.prems j in auto)
    with Some je j show ?thesis by (simp add: hash_table_iter_next_def)
  qed
qed

lemma hash_table_drain_entries: "length (cells ht) = ht_size ht \<Longrightarrow> hash_table_drain ht = ht_entries ht"
  using iter_drain_eq[of "hash_table_iterate ht" ht "ht_size ht + 1"]
  by (simp add: hash_table_drain_def hash_table_iterate_def ht_entries_def del: iter_drain.simps)

lemma lower_hash: "lower a = lower b \<Longrightarrow> hash_string_nocase a = hash_string_nocase b"
proof -
  assume ab: "lower a = lower b"
  have fold: "foldl (\<lambda>h c. hash_step h (c_tolower c)) h s = foldl hash_step h (lower s)" for h s
    by (induction s arbitrary: h) (simp_all add: lower_def)
  have "lower (tl a) = lower (tl b)" "c_tolower (deref a 0) = c_tolower (deref b 0)"
    using ab by (cases a; cases b; simp add: lower_def deref_def)+
  then show ?thesis by (simp add: hash_string_nocase_def Let_def fold)
qed

subsection \<open>The table as a map\<close>

text \<open>
  The interface the clients of a table rely on, and the fact that every hash table over
  keys that satisfy \<open>hash_keys\<close> provides it.
\<close>

locale keyed_map =
  fixes keq :: "'k \<Rightarrow> 'k \<Rightarrow> bool" and invar :: "'t \<Rightarrow> bool"
    and fnd :: "'t \<Rightarrow> 'k \<Rightarrow> ('k \<times> 'v) option" and cnt :: "'t \<Rightarrow> nat" and room :: nat
    and put :: "'t \<Rightarrow> 'k \<Rightarrow> 'v \<Rightarrow> 't run" and rem :: "'t \<Rightarrow> 'k \<Rightarrow> (bool \<times> 't) run" and clr :: "'t \<Rightarrow> 't"
  assumes put_defined: "invar t \<Longrightarrow> cnt t < room \<Longrightarrow> \<exists>t'. put t k v = Some t'"
    and put_keeps: "invar t \<Longrightarrow> put t k v = Some t' \<Longrightarrow> invar t' \<and> cnt t' \<le> Suc (cnt t)"
    and put_find: "invar t \<Longrightarrow> put t k v = Some t' \<Longrightarrow> fnd t' = (\<lambda>k'. if keq k k' then Some (k, v) else fnd t k')"
    and rem_defined: "invar t \<Longrightarrow> \<exists>t'. rem t k = Some (fnd t k \<noteq> None, t') \<and> invar t' \<and> cnt t' \<le> cnt t \<and>
      fnd t' = (\<lambda>k'. if keq k k' then None else fnd t k')"
    and clr_keeps: "invar t \<Longrightarrow> invar (clr t) \<and> cnt (clr t) = 0 \<and> fnd (clr t) = (\<lambda>k. None)"
begin

lemma run_refines:
  assumes "invar t" "cnt t + length ops \<le> room"
  shows "\<exists>t'. run_ops put rem clr ops t = Some t' \<and> invar t' \<and> fnd t' = map_ops keq ops (fnd t)"
  using assms
proof (induction ops arbitrary: t)
  case Nil
  then show ?case by simp
next
  case (Cons op ops)
  show ?case
  proof (cases op)
    case (Put k v)
    with Cons.prems obtain t' where t': "put t k v = Some t'" using put_defined by fastforce
    from put_keeps[OF Cons.prems(1) t'] put_find[OF Cons.prems(1) t'] Cons.IH[of t'] Cons.prems(2) t' Put
    show ?thesis by simp
  next
    case (Remove k)
    from rem_defined[OF Cons.prems(1), of k] obtain t' where t': "rem t k = Some (fnd t k \<noteq> None, t')"
      "invar t'" "cnt t' \<le> cnt t" "fnd t' = (\<lambda>k'. if keq k k' then None else fnd t k')" by blast
    with Cons.IH[of t'] Cons.prems(2) Remove show ?thesis by simp
  next
    case Clear
    with clr_keeps[OF Cons.prems(1)] Cons.IH[of "clr t"] Cons.prems(2) show ?thesis by simp
  qed
qed

end

context hash_keys begin
lemma keyed_map: "keyed_map tf (ht_inv hf tf) ht_find ht_count 805306367 hash_table_put hash_table_remove hash_table_clear"
proof (unfold_locales, goal_cases)
  case (1 t k v)
  then show ?case by (rule put_total)
next
  case (2 t k v t')
  then show ?case using put_ok(1,3)[OF 2] by auto
next
  case (3 t k v t')
  then show ?case using put_ok(2)[OF 3] by blast
next
  case (4 t k)
  obtain t' where t': "hash_table_remove t k = Some (ht_find t k \<noteq> None, t')" "ht_inv hf tf t'"
    "\<And>k'. ht_find t' k' = (if tf k k' then None else ht_find t k')"
    "ht_count t' = (if ht_find t k = None then ht_count t else ht_count t - 1)"
    using remove_ok[OF 4, of k] by blast
  from t'(3) have "ht_find t' = (\<lambda>k'. if tf k k' then None else ht_find t k')" by (rule ext)
  with t' show ?case by (intro exI[of _ t']) simp
next
  case (5 t)
  from clear_ok[OF 5] ht_find_None[OF clear_ok(1)[OF 5]] show ?case
    by (auto simp: hash_table_clear_def)
qed

end

sublocale hash_keys \<subseteq> tbl: keyed_map tf "ht_inv hf tf" ht_find ht_count 805306367 hash_table_put hash_table_remove hash_table_clear
  by (rule keyed_map)

interpretation string_keys: hash_keys hash_string cmp_string
  by unfold_locales (auto simp: cmp_string_def)

interpretation nocase_keys: hash_keys hash_string_nocase string_cmp_nocase
  by unfold_locales (auto simp: string_cmp_nocase_def strcaseeq_def intro: lower_hash)

interpretation pointer_keys: hash_keys hash_pointer cmp_pointer
  by unfold_locales (auto simp: cmp_pointer_def)

subsection \<open>Properties\<close>

lemma hash_table_new_0: "\<exists>ht. hash_table_new 0 hf tf = Some ht"
  by (simp add: hash_table_new_def prime_size_def primes_def)

text \<open>
  C1. Over keys whose hash and test functions satisfy the contract of \<open>hash.c\<close>, any sequence
  of up to 805306367 insertions, removals and clearings on a new table terminates without
  aborting, whatever growing and rehashing it causes, and afterwards every lookup returns the
  key and the value that the same sequence leaves in a plain map.
\<close>

theorem hash_table_refines_map:
  assumes "hash_keys hf tf" and "hash_table_new items hf tf = Some ht" and "length ops \<le> 805306367"
  shows "\<exists>ht'. run_ops hash_table_put hash_table_remove hash_table_clear ops ht = Some ht' \<and>
    (\<forall>k. hash_table_get_pair ht' k = Some (map_ops tf ops (\<lambda>_. None) k))"
proof -
  note new = hash_keys.new_ok[OF assms(1,2)]
  have none: "ht_find ht = (\<lambda>_. None)"
    using new(2) by (simp add: ht_find_def fun_eq_iff)
  have "ht_count ht = 0" using new by (simp add: ht_inv_def)
  then obtain ht' where ht': "run_ops hash_table_put hash_table_remove hash_table_clear ops ht = Some ht'"
    "ht_inv hf tf ht'" "ht_find ht' = map_ops tf ops (ht_find ht)"
    using keyed_map.run_refines[OF hash_keys.keyed_map[OF assms(1)] new(1), of ops] assms(3) by auto
  then show ?thesis using none hash_keys.get_pair_ok[OF assms(1) ht'(2)] by auto
qed

theorem hash_table_refines_map_witness:
  "\<exists>ht ht'. hash_table_new 0 hash_string_nocase string_cmp_nocase = Some ht \<and>
     run_ops hash_table_put hash_table_remove hash_table_clear
       [Put ''foo.com'' (1::nat), Put ''FOO.com'' 2, Put ''bar'' 3, Remove ''BAR''] ht = Some ht' \<and>
     hash_table_get_pair ht' ''foo.COM'' = Some (Some (''FOO.com'', 2)) \<and>
     hash_table_get_pair ht' ''bar'' = Some None"
proof -
  obtain ht :: "(string, nat) hash_table" where ht: "hash_table_new 0 hash_string_nocase string_cmp_nocase = Some ht"
    using hash_table_new_0 by blast
  have keys: "hash_keys hash_string_nocase string_cmp_nocase" by (rule nocase_keys.hash_keys_axioms)
  have cmp: "string_cmp_nocase ''FOO.com'' ''foo.COM''" "string_cmp_nocase ''BAR'' ''bar''"
    "\<not> string_cmp_nocase ''BAR'' ''foo.COM''" "\<not> string_cmp_nocase ''bar'' ''foo.COM''"
    by code_simp+
  from hash_table_refines_map[OF keys ht,
      of "[Put ''foo.com'' 1, Put ''FOO.com'' 2, Put ''bar'' 3, Remove ''BAR'']"]
  show ?thesis using ht cmp by auto
qed

text \<open>
  On a table that satisfies the invariant, the linear probing of \<open>find_cell\<close> always
  stops within the table's size, and the cell it stops at holds exactly the entry that a
  linear search over all entries finds, or is empty when there is none: lookups by get,
  get_pair and contains agree with that search.
\<close>

theorem find_cell_is_linear_search:
  assumes "hash_keys hf tf" and "ht_inv hf tf ht"
  shows "(\<exists>c. find_cell ht k = Some c \<and> c < ht_size ht \<and> cells ht ! c = ht_find ht k) \<and>
    hash_table_get ht k = Some (map_option snd (ht_find ht k)) \<and>
    hash_table_contains ht k = Some (\<exists>e\<in>set (ht_entries ht). tf k (fst e))"
proof (intro conjI)
  show "\<exists>c. find_cell ht k = Some c \<and> c < ht_size ht \<and> cells ht ! c = ht_find ht k"
    using hash_keys.find_cell_ok[OF assms, of k] by blast
  show "hash_table_get ht k = Some (map_option snd (ht_find ht k))"
    by (rule hash_keys.get_ok[OF assms])
  show "hash_table_contains ht k = Some (\<exists>e\<in>set (ht_entries ht). tf k (fst e))"
    using hash_keys.contains_ok[OF assms, of k] hash_keys.ht_find_None[OF assms, of k] by auto
qed

lemma one_entry_table:
  obtains ht :: "(string, nat) hash_table" where "ht_inv hash_string cmp_string ht"
    "ht_find ht = (\<lambda>k. if k = ''a'' then Some (''a'', 7) else None)" "ht_count ht = 1"
proof -
  obtain t :: "(string, nat) hash_table" where t: "hash_table_new 0 hash_string cmp_string = Some t"
    using hash_table_new_0 by blast
  note new = string_keys.new_ok[OF t]
  have cnt: "ht_count t = 0" using new by (simp add: ht_inv_def)
  then obtain t' where t': "hash_table_put t ''a'' 7 = Some t'"
    using string_keys.put_total[OF new(1)] by auto
  have none: "ht_find t k = None" for k using new(2) by (simp add: ht_find_def)
  show thesis
  proof (rule that[of t'])
    show "ht_inv hash_string cmp_string t'" by (rule string_keys.put_ok(1)[OF new(1) t'])
    show "ht_find t' = (\<lambda>k. if k = ''a'' then Some (''a'', 7) else None)"
      using string_keys.put_ok(2)[OF new(1) t'] none by (auto simp: cmp_string_def fun_eq_iff)
    show "ht_count t' = 1" using string_keys.put_ok(3)[OF new(1) t'] none cnt by simp
  qed
qed

theorem find_cell_is_linear_search_witness:
  "\<exists>ht c. ht_inv hash_string cmp_string ht \<and> find_cell ht ''a'' = Some c \<and>
     cells ht ! c = Some (''a'', 7::nat) \<and> hash_table_contains ht ''a'' = Some True"
proof -
  obtain ht :: "(string, nat) hash_table" where ht: "ht_inv hash_string cmp_string ht"
    "ht_find ht = (\<lambda>k. if k = ''a'' then Some (''a'', 7) else None)" by (rule one_entry_table)
  from find_cell_is_linear_search[OF string_keys.hash_keys_axioms ht(1), of "''a''"] ht
    string_keys.contains_ok[OF ht(1), of "''a''"]
  show ?thesis by auto
qed

text \<open>
  Inserting into a table that satisfies the invariant and holds fewer than 805306367
  entries returns a table that satisfies it again (growing included), in which the key is
  bound to the new key and value, every key that tests different is bound as before, and the
  count has grown by one exactly when the key was new.
\<close>

theorem hash_table_put_correct:
  assumes "hash_keys hf tf" and "ht_inv hf tf ht" and "hash_table_count ht < 805306367"
  shows "\<exists>ht'. hash_table_put ht k v = Some ht' \<and> ht_inv hf tf ht' \<and>
    (\<forall>k'. hash_table_get_pair ht' k' = (if tf k k' then Some (Some (k, v)) else hash_table_get_pair ht k')) \<and>
    hash_table_count ht' = hash_table_count ht + (if hash_table_contains ht k = Some True then 0 else 1)"
proof -
  note K = assms(1) and I = assms(2)
  obtain ht' where ht': "hash_table_put ht k v = Some ht'"
    using hash_keys.put_total[OF K I] assms(3) by (auto simp: hash_table_count_def)
  note P = hash_keys.put_ok[OF K I ht']
  show ?thesis
    by (intro exI[of _ ht'])
      (use ht' P in \<open>simp add: hash_keys.get_pair_ok[OF K] hash_keys.contains_ok[OF K] I hash_table_count_def\<close>)
qed

theorem hash_table_put_correct_witness:
  "\<exists>ht ht' :: (string, nat) hash_table. ht_inv hash_string cmp_string ht \<and>
     hash_table_put ht ''b'' 8 = Some ht' \<and> hash_table_get_pair ht' ''a'' = Some (Some (''a'', 7)) \<and>
     hash_table_get_pair ht' ''b'' = Some (Some (''b'', 8)) \<and> hash_table_count ht' = 2"
proof -
  obtain ht :: "(string, nat) hash_table" where ht: "ht_inv hash_string cmp_string ht"
    "ht_find ht = (\<lambda>k. if k = ''a'' then Some (''a'', 7) else None)" "ht_count ht = 1" by (rule one_entry_table)
  have "hash_table_count ht < 805306367" using ht(3) by (simp add: hash_table_count_def)
  from hash_table_put_correct[OF string_keys.hash_keys_axioms ht(1) this, of "''b''" 8] obtain ht' where
    ht': "hash_table_put ht ''b'' 8 = Some ht'"
    "\<And>k'. hash_table_get_pair ht' k' = (if cmp_string ''b'' k' then Some (Some (''b'', 8)) else hash_table_get_pair ht k')"
    "hash_table_count ht' = hash_table_count ht + (if hash_table_contains ht ''b'' = Some True then 0 else 1)" by blast
  show ?thesis
    by (intro exI[of _ ht] exI[of _ ht'])
      (use ht ht' in \<open>simp add: cmp_string_def hash_table_count_def string_keys.get_pair_ok string_keys.contains_ok\<close>)
qed

text \<open>
  Removing a key from a table that satisfies the invariant always terminates, reports
  whether the key was there, and returns a table that satisfies the invariant again, in which
  the key is gone and every key that tests different is still found with its value: moving
  the cells that follow the removed one loses no entry.
\<close>

theorem hash_table_remove_correct:
  assumes "hash_keys hf tf" and "ht_inv hf tf ht"
  shows "\<exists>b ht'. hash_table_remove ht k = Some (b, ht') \<and> hash_table_contains ht k = Some b \<and>
    ht_inv hf tf ht' \<and>
    (\<forall>k'. hash_table_get_pair ht' k' = (if tf k k' then Some None else hash_table_get_pair ht k')) \<and>
    hash_table_count ht' = hash_table_count ht - (if b then 1 else 0)"
proof -
  note K = assms(1) and I = assms(2)
  obtain ht' where ht': "hash_table_remove ht k = Some (ht_find ht k \<noteq> None, ht')"
    "ht_inv hf tf ht'" "\<And>k'. ht_find ht' k' = (if tf k k' then None else ht_find ht k')"
    "ht_count ht' = (if ht_find ht k = None then ht_count ht else ht_count ht - 1)"
    using hash_keys.remove_ok[OF K I, of k] by blast
  show ?thesis
    by (intro exI[of _ "ht_find ht k \<noteq> None"] exI[of _ ht'])
      (use ht' in \<open>simp add: hash_keys.get_pair_ok[OF K] hash_keys.contains_ok[OF K] I hash_table_count_def\<close>)
qed

theorem hash_table_remove_correct_witness:
  "\<exists>ht ht' :: (string, nat) hash_table. ht_inv hash_string cmp_string ht \<and>
     hash_table_remove ht ''a'' = Some (True, ht') \<and> hash_table_get_pair ht' ''a'' = Some None \<and>
     hash_table_count ht' = 0"
proof -
  obtain ht :: "(string, nat) hash_table" where ht: "ht_inv hash_string cmp_string ht"
    "ht_find ht = (\<lambda>k. if k = ''a'' then Some (''a'', 7) else None)" "ht_count ht = 1" by (rule one_entry_table)
  from hash_table_remove_correct[OF string_keys.hash_keys_axioms ht(1), of "''a''"] obtain b ht' where
    "hash_table_remove ht ''a'' = Some (b, ht')" "hash_table_contains ht ''a'' = Some b"
    "hash_table_get_pair ht' ''a'' = (if cmp_string ''a'' ''a'' then Some None else hash_table_get_pair ht ''a'')"
    "hash_table_count ht' = hash_table_count ht - (if b then 1 else 0)" by blast
  with ht show ?thesis by (auto simp: cmp_string_def hash_table_count_def)
qed

lemma sorted_wrt_distinct_keys:
  assumes "\<And>k. tf k k" and "sorted_wrt (\<lambda>a b. \<not> tf (fst a) (fst b)) xs"
  shows "distinct (map fst xs)"
  using assms(2)
proof (induction xs)
  case (Cons x xs)
  have "fst x \<noteq> fst y" if "y \<in> set xs" for y
    using Cons.prems that assms(1)[of "fst y"] by force
  then show ?case using Cons by auto
qed simp

text \<open>
  Iterating over a table that satisfies the invariant visits exactly the entries a
  lookup can return, each once, and as many as the table counts.
\<close>

theorem hash_table_iteration_complete:
  assumes "hash_keys hf tf" and "ht_inv hf tf ht"
  shows "set (hash_table_drain ht) = {e. hash_table_get_pair ht (fst e) = Some (Some e)} \<and>
    distinct (map fst (hash_table_drain ht)) \<and> length (hash_table_drain ht) = hash_table_count ht"
proof -
  note D = ht_invD[OF assms(2)]
  have drain: "hash_table_drain ht = ht_entries ht" by (rule hash_table_drain_entries[OF D(3)])
  have refl: "tf k k" for k using assms(1) by (simp add: hash_keys_def)
  have "sorted_wrt (\<lambda>a b. \<not> tf (fst a) (fst b)) (ht_entries ht)"
    using hash_keys.keys_unique_sorted[OF assms(1) D(11)] by (simp add: ht_entries_def)
  then have "distinct (map fst (ht_entries ht))" by (rule sorted_wrt_distinct_keys[OF refl])
  moreover have "set (ht_entries ht) = {e. hash_table_get_pair ht (fst e) = Some (Some e)}"
    using hash_keys.get_pair_ok[OF assms] hash_keys.ht_find_iff[OF assms] refl by auto
  ultimately show ?thesis using drain D(4) by (simp add: hash_table_count_def)
qed

theorem hash_table_iteration_complete_witness:
  "\<exists>ht. ht_inv hash_string cmp_string ht \<and> set (hash_table_drain ht) = {(''a'', 7::nat)}"
proof -
  obtain ht :: "(string, nat) hash_table" where ht: "ht_inv hash_string cmp_string ht"
    "ht_find ht = (\<lambda>k. if k = ''a'' then Some (''a'', 7) else None)" by (rule one_entry_table)
  have "hash_table_get_pair ht k = Some (if k = ''a'' then Some (''a'', 7) else None)" for k
    using string_keys.get_pair_ok[OF ht(1)] ht(2) by simp
  then have "{e. hash_table_get_pair ht (fst e) = Some (Some e)} = {(''a'', 7)}"
    by (simp add: set_eq_iff prod_eq_iff)
  with hash_table_iteration_complete[OF string_keys.hash_keys_axioms ht(1)]
  have "set (hash_table_drain ht) = {(''a'', 7)}" by simp
  with ht(1) show ?thesis by blast
qed

end
