(* ===== verification/Wget_Utils.thy ===== *)
theory Wget_Utils
  imports C_Prelude "HOL-Library.Multiset"
begin

section \<open>String, filter, base64 and sorting helpers (wget/src/utils.c)\<close>

text \<open>
  The parts of \<open>utils.c\<close> that decide what wget downloads (the accept and reject lists, the
  include and exclude directories), the base64 coder of the authentication headers, and the
  merge sort behind \<open>stable_sort\<close>.

  The matching options are a record with the fields of \<open>struct options\<close> that these functions
  read. \<open>fnmatch\<close> is the C library's function and is passed as a parameter: pattern, string,
  whether \<open>FNM_PATHNAME\<close> is set, whether \<open>FNM_CASEFOLD\<close> is set, and the answer is whether the
  string matches.
\<close>

unbundle bit_operations_syntax

subsection \<open>Lists of strings and file names\<close>

function sepstring_loop :: "string \<Rightarrow> string \<Rightarrow> string list" where
  \<comment> \<open>\<open>p\<close> is the start of the current element, \<open>s\<close> the scanning pointer\<close>
  "sepstring_loop p s =
     (if s = [] then [strdupdelim p s]
      else if hd s = CHR '','' then
        strdupdelim p s # sepstring_loop (skip_space (tl s)) (skip_space (tl s))
      else sepstring_loop p (tl s))"
  by pat_completeness auto
termination
proof (relation "measure (\<lambda>(p, s). length s)")
  fix s :: string assume "s \<noteq> []"
  then show "((skip_space (tl s), skip_space (tl s)), p, s) \<in> measure (\<lambda>(p, s). length s)" for p
    using length_dropWhile_le[of c_isspace "tl s"] by (cases s) (auto simp: skip_space_def)
  show "((p, tl s), p, s) \<in> measure (\<lambda>(p, s). length s)" for p
    using \<open>s \<noteq> []\<close> by simp
qed simp

definition sepstring :: "string option \<Rightarrow> string list option" where
  "sepstring s =
     (case s of None \<Rightarrow> None | Some s \<Rightarrow> if s = [] then None else Some (sepstring_loop s s))"

definition file_merge :: "string \<Rightarrow> string \<Rightarrow> string" where
  "file_merge base file =
     (case strrchr_pos base (CHR ''/'') of
        None \<Rightarrow> file
      | Some k \<Rightarrow> take k base @ ''/'' @ file)"

definition suffix_of :: "string \<Rightarrow> string option" where
  "suffix_of str =
     (case strrchr_pos str (CHR ''.'') of
        None \<Rightarrow> None
      | Some p \<Rightarrow> if strchr (drop (p + 1) str) (CHR ''/'') = None then Some (drop (p + 1) str) else None)"

definition has_wildcards_p :: "string \<Rightarrow> bool" where
  "has_wildcards_p s \<longleftrightarrow> list_ex (\<lambda>c. c \<in> set ''*?[]'') s"

definition has_html_suffix_p :: "string \<Rightarrow> bool" where
  "has_html_suffix_p fname =
     (case suffix_of fname of
        None \<Rightarrow> False
      | Some suf \<Rightarrow>
          strcaseeq suf ''html'' \<or> strcaseeq suf ''htm'' \<or> suf \<noteq> [] \<and> strcaseeq (tl suf) ''html'')"

definition match_tail :: "string \<Rightarrow> string \<Rightarrow> bool \<Rightarrow> bool" where
  "match_tail str tail fold_case =
     (let pos = int (length str) - int (length tail) in
      if pos < 0 then False
      else if \<not> fold_case then drop (nat pos) str = tail
      else strcaseeq (drop (nat pos) str) tail)"

subsection \<open>Accept, reject, include and exclude lists\<close>

record match_options =
  ignore_case :: bool
  output_document :: "string option"
  accepts :: "string list option"
  rejects :: "string list option"
  include_dirs :: "string list option"
  exclude_dirs :: "string list option"

type_synonym fnmatch = "string \<Rightarrow> string \<Rightarrow> bool \<Rightarrow> bool \<Rightarrow> bool"

fun in_acclist :: "fnmatch \<Rightarrow> match_options \<Rightarrow> string list \<Rightarrow> string \<Rightarrow> bool \<Rightarrow> bool" where
  "in_acclist fnm opt [] s backward = False"
| "in_acclist fnm opt (acc # accs) s backward =
     (if has_wildcards_p acc then
        (if fnm acc s False (ignore_case opt) then True else in_acclist fnm opt accs s backward)
      else if backward then
        (if match_tail s acc (ignore_case opt) then True else in_acclist fnm opt accs s backward)
      else
        (if (if ignore_case opt then strcaseeq s acc else s = acc) then True
         else in_acclist fnm opt accs s backward))"

definition acceptable :: "fnmatch \<Rightarrow> match_options \<Rightarrow> string \<Rightarrow> bool" where
  "acceptable fnm opt s0 =
     (if output_document opt = Some s0 then True
      else
        let s = (case strrchr_pos s0 (CHR ''/'') of None \<Rightarrow> s0 | Some p \<Rightarrow> drop (p + 1) s0) in
        case accepts opt of
          Some acc \<Rightarrow>
            (case rejects opt of
               Some rej \<Rightarrow> in_acclist fnm opt acc s True \<and> \<not> in_acclist fnm opt rej s True
             | None \<Rightarrow> in_acclist fnm opt acc s True)
        | None \<Rightarrow>
            (case rejects opt of
               Some rej \<Rightarrow> \<not> in_acclist fnm opt rej s True
             | None \<Rightarrow> True))"

fun subdir_scan :: "(char \<Rightarrow> char \<Rightarrow> bool) \<Rightarrow> string \<Rightarrow> string \<Rightarrow> bool" where
  "subdir_scan eq [] d2 = (d2 = [] \<or> hd d2 = CHR ''/'')"
| "subdir_scan eq (c1 # d1) [] = False"
| "subdir_scan eq (c1 # d1) (c2 # d2) = (if eq c1 c2 then subdir_scan eq d1 d2 else False)"

definition subdir_p :: "match_options \<Rightarrow> string \<Rightarrow> string \<Rightarrow> bool" where
  "subdir_p opt d1 d2 =
     (if d1 = [] then True
      else if \<not> ignore_case opt then subdir_scan (=) d1 d2
      else subdir_scan (\<lambda>a b. c_tolower a = c_tolower b) d1 d2)"

fun dir_matches_p :: "fnmatch \<Rightarrow> match_options \<Rightarrow> string list \<Rightarrow> string \<Rightarrow> bool" where
  "dir_matches_p fnm opt [] dir = False"
| "dir_matches_p fnm opt (x # dirlist) dir =
     (let p = (if deref x 0 = CHR ''/'' then tl x else x) in
      if has_wildcards_p p
      then (if fnm p dir True (ignore_case opt) then True else dir_matches_p fnm opt dirlist dir)
      else (if subdir_p opt p dir then True else dir_matches_p fnm opt dirlist dir))"

definition accdir :: "fnmatch \<Rightarrow> match_options \<Rightarrow> string \<Rightarrow> bool" where
  "accdir fnm opt directory0 =
     (let directory = (if deref directory0 0 = CHR ''/'' then tl directory0 else directory0) in
      if (case include_dirs opt of None \<Rightarrow> False | Some inc \<Rightarrow> \<not> dir_matches_p fnm opt inc directory) then False
      else if (case exclude_dirs opt of None \<Rightarrow> False | Some exc \<Rightarrow> dir_matches_p fnm opt exc directory) then False
      else True)"

subsection \<open>Base64\<close>

definition base64_tbl :: string where
  "base64_tbl = ''ABCDEFGHIJKLMNOPQRSTUVWXYZabcdefghijklmnopqrstuvwxyz0123456789+/''"

fun wget_base64_encode :: "nat list \<Rightarrow> string" where
  \<comment> \<open>on a list of bytes; the three last equations are the \<open>switch (length % 3)\<close>\<close>
  "wget_base64_encode (s0 # s1 # s2 # s) =
     [base64_tbl ! drop_bit 2 s0,
      base64_tbl ! (push_bit 4 (s0 AND 3) + drop_bit 4 s1),
      base64_tbl ! (push_bit 2 (s1 AND 0xf) + drop_bit 6 s2),
      base64_tbl ! (s2 AND 0x3f)] @ wget_base64_encode s"
| "wget_base64_encode [s0] =
     [base64_tbl ! drop_bit 2 s0, base64_tbl ! push_bit 4 (s0 AND 3), CHR ''='', CHR ''='']"
| "wget_base64_encode [s0, s1] =
     [base64_tbl ! drop_bit 2 s0,
      base64_tbl ! (push_bit 4 (s0 AND 3) + drop_bit 4 s1),
      base64_tbl ! push_bit 2 (s1 AND 0xf), CHR ''='']"
| "wget_base64_encode [] = []"

definition base64_char_to_value :: "int list" where
  "base64_char_to_value = [
      -1,  -1,  -1,  -1,  -1,  -1,  -1,  -1,  -1,  -1,
      -1,  -1,  -1,  -1,  -1,  -1,  -1,  -1,  -1,  -1,
      -1,  -1,  -1,  -1,  -1,  -1,  -1,  -1,  -1,  -1,
      -1,  -1,  -1,  -1,  -1,  -1,  -1,  -1,  -1,  -1,
      -1,  -1,  -1,  62,  -1,  -1,  -1,  63,  52,  53,
      54,  55,  56,  57,  58,  59,  60,  61,  -1,  -1,
      -1,  -1,  -1,  -1,  -1,  0,   1,   2,   3,   4,
      5,   6,   7,   8,   9,   10,  11,  12,  13,  14,
      15,  16,  17,  18,  19,  20,  21,  22,  23,  24,
      25,  -1,  -1,  -1,  -1,  -1,  -1,  26,  27,  28,
      29,  30,  31,  32,  33,  34,  35,  36,  37,  38,
      39,  40,  41,  42,  43,  44,  45,  46,  47,  48,
      49,  50,  51,  -1,  -1,  -1,  -1,  -1]"

definition base64_value :: "char \<Rightarrow> nat option" where
  \<comment> \<open>\<open>BASE64_CHAR_TO_VALUE (c)\<close>, and \<^term>\<open>None\<close> when \<open>c == '=' || !IS_BASE64 (c)\<close>\<close>
  "base64_value c =
     (if byte c < 128 \<and> base64_char_to_value ! byte c \<ge> 0 then Some (nat (base64_char_to_value ! byte c)) else None)"

definition NEXT_CHAR :: "string \<Rightarrow> (char \<times> string) option" where
  \<comment> \<open>\<^term>\<open>None\<close> when the character read is the terminating NUL\<close>
  "NEXT_CHAR p = (case skip_space p of [] \<Rightarrow> None | c # q \<Rightarrow> Some (c, q))"

lemma NEXT_CHAR_length: "NEXT_CHAR p = Some (c, q) \<Longrightarrow> length q < length p"
  using length_dropWhile_le[of c_isspace p] by (auto simp: NEXT_CHAR_def skip_space_def split: list.splits)

function wget_base64_decode :: "string \<Rightarrow> nat list option" where
  \<comment> \<open>the bytes the function would write, \<^term>\<open>None\<close> for -1; \<open>dest\<close> gets the first \<open>size\<close> of
      them and \<open>n\<close> counts them all\<close>
  "wget_base64_decode p =
     (case NEXT_CHAR p of
        None \<Rightarrow> Some []
      | Some (c1, p1) \<Rightarrow>
     (case base64_value c1 of None \<Rightarrow> None | Some v1 \<Rightarrow>
     (case NEXT_CHAR p1 of None \<Rightarrow> None | Some (c2, p2) \<Rightarrow>
     (case base64_value c2 of None \<Rightarrow> None | Some v2 \<Rightarrow>
        let value = push_bit 18 v1 OR push_bit 12 v2; b1 = drop_bit 16 value in
     (case NEXT_CHAR p2 of None \<Rightarrow> None | Some (c3, p3) \<Rightarrow>
        if c3 = CHR ''='' then
          (case NEXT_CHAR p3 of
             None \<Rightarrow> None
           | Some (c4, p4) \<Rightarrow>
               if c4 \<noteq> CHR ''='' then None else map_option (\<lambda>r. b1 # r) (wget_base64_decode p4))
        else
     (case base64_value c3 of None \<Rightarrow> None | Some v3 \<Rightarrow>
        let value = value OR push_bit 6 v3; b2 = 0xff AND drop_bit 8 value in
     (case NEXT_CHAR p3 of None \<Rightarrow> None | Some (c4, p4) \<Rightarrow>
        if c4 = CHR ''='' then map_option (\<lambda>r. b1 # b2 # r) (wget_base64_decode p4)
        else
     (case base64_value c4 of None \<Rightarrow> None | Some v4 \<Rightarrow>
        let value = value OR v4; b3 = 0xff AND value in
        map_option (\<lambda>r. b1 # b2 # b3 # r) (wget_base64_decode p4)))))))))"
  by pat_completeness auto
termination
  by (relation "measure length") (auto dest!: NEXT_CHAR_length)

subsection \<open>Stable sorting\<close>

fun merge_loop :: "('a \<Rightarrow> 'a \<Rightarrow> int) \<Rightarrow> 'a list \<Rightarrow> 'a list \<Rightarrow> 'a list" where
  "merge_loop cmpfun (x # xs) (y # ys) =
     (if cmpfun x y \<le> 0 then x # merge_loop cmpfun xs (y # ys)
      else y # merge_loop cmpfun (x # xs) ys)"
| "merge_loop cmpfun xs [] = xs"
| "merge_loop cmpfun [] ys = ys"

function mergesort_internal :: "('a \<Rightarrow> 'a \<Rightarrow> int) \<Rightarrow> 'a list \<Rightarrow> nat \<Rightarrow> nat \<Rightarrow> 'a list" where
  \<comment> \<open>the array after sorting its cells \<open>from\<close> to \<open>to\<close>; \<open>temp\<close> holds the merged segment\<close>
  "mergesort_internal cmpfun base from to =
     (if from < to then
        let mid = (to + from) div 2;
            base = mergesort_internal cmpfun base from mid;
            base = mergesort_internal cmpfun base (mid + 1) to;
            temp = merge_loop cmpfun (take (mid + 1 - from) (drop from base)) (take (to - mid) (drop (mid + 1) base))
        in take from base @ temp @ drop (to + 1) base
      else base)"
  by pat_completeness auto
termination
  by (relation "measure (\<lambda>(cmpfun, base, from, to). to - from)") auto

definition stable_sort :: "('a \<Rightarrow> 'a \<Rightarrow> int) \<Rightarrow> 'a list \<Rightarrow> 'a list" where
  \<comment> \<open>for elements of more than one byte\<close>
  "stable_sort cmpfun base =
     (if length base > 1 then mergesort_internal cmpfun base 0 (length base - 1) else base)"

declare wget_base64_decode.simps [simp del] mergesort_internal.simps [simp del] sepstring_loop.simps [simp del]

subsection \<open>Tails and base64 digits\<close>

lemma suffix_iff_drop: "suffix t s \<longleftrightarrow> length t \<le> length s \<and> drop (length s - length t) s = t"
  by (auto simp: suffix_def) (metis append_take_drop_id)

lemma drop_lower: "drop n (lower s) = lower (drop n s)"
  by (simp add: lower_def drop_map)

lemma match_tail_iff:
  "match_tail str tail fold_case \<longleftrightarrow>
     (if fold_case then suffix (lower tail) (lower str) else suffix tail str)"
  by (auto simp: match_tail_def Let_def strcaseeq_def suffix_iff_drop drop_lower nat_diff_distrib)

lemma or_disjoint: "a < 2 ^ n \<Longrightarrow> push_bit n b OR a = b * 2 ^ n + a" for a b :: nat
proof -
  assume a: "a < 2 ^ n"
  have "\<not> bit (push_bit n b) k \<or> \<not> bit a k" for k
    using a by (auto simp: bit_push_bit_iff bit_nat_iff not_le)
      (metis bit_take_bit_iff not_le take_bit_nat_eq_self_iff)
  then have "push_bit n b + a = push_bit n b OR a" by (intro disjunctive_add) auto
  then show ?thesis by (simp add: push_bit_eq_mult)
qed

lemma base64_row:
  "list_all (\<lambda>i. base64_value (base64_tbl ! i) = Some i \<and> \<not> c_isspace (base64_tbl ! i) \<and> base64_tbl ! i \<noteq> CHR ''='') [0..<64]"
  by code_simp

lemma base64_digit:
  assumes "i < 64"
  shows "base64_value (base64_tbl ! i) = Some i" "NEXT_CHAR (base64_tbl ! i # s) = Some (base64_tbl ! i, s)"
    "base64_tbl ! i \<noteq> CHR ''=''"
  using base64_row assms by (auto simp: list_all_iff NEXT_CHAR_def skip_space_def)

lemma NEXT_CHAR_simps [simp]: "NEXT_CHAR [] = None" "NEXT_CHAR (CHR ''='' # s) = Some (CHR ''='', s)"
  by (simp_all add: NEXT_CHAR_def skip_space_def c_isspace_def)

lemma and_mod: "x AND 3 = x mod 4" "x AND 15 = x mod 16" "x AND 63 = x mod 64" "255 AND x = x mod 256" for x :: nat
  using take_bit_eq_mask[of 2 x] take_bit_eq_mask[of 4 x] take_bit_eq_mask[of 6 x] take_bit_eq_mask[of 8 x]
  by (simp_all add: take_bit_eq_mod mask_eq_exp_minus_1 and.commute)

lemma base64_join:
  assumes "v2 < 64" "v3 < 64" "v4 < (64::nat)"
  shows "push_bit 18 v1 OR push_bit 12 v2 = v1 * 262144 + v2 * 4096"
    "v1 * 262144 + v2 * 4096 OR push_bit 6 v3 = v1 * 262144 + v2 * 4096 + v3 * 64"
    "v1 * 262144 + v2 * 4096 + v3 * 64 OR v4 = v1 * 262144 + v2 * 4096 + v3 * 64 + v4"
  using or_disjoint[of "push_bit 12 v2" 18 v1] or_disjoint[of "push_bit 6 v3" 12 "v1 * 64 + v2"]
    or_disjoint[of v4 6 "v1 * 4096 + v2 * 64 + v3"] assms
  by (simp_all add: push_bit_eq_mult mult.commute distrib_left)

lemma base64_values:
  assumes "s0 < 256" "s1 < 256" "s2 < (256::nat)"
  shows "drop_bit 2 s0 < 64" "push_bit 4 (s0 AND 3) + drop_bit 4 s1 < 64"
    "push_bit 2 (s1 AND 15) + drop_bit 6 s2 < 64" "s2 AND 63 < 64"
    "push_bit 4 (s0 AND 3) < 64" "push_bit 2 (s1 AND 15) < 64"
  using assms by (simp_all add: push_bit_eq_mult drop_bit_eq_div and_mod; presburger)+

lemma base64_bytes:
  "s0 div 4 * 262144 + (s0 mod 4 * 16 + s1 div 16) * 4096 + (s1 mod 16 * 4 + s2 div 64) * 64 + s2 mod 64
    = s0 * 65536 + s1 * 256 + s2" for s0 s1 s2 :: nat
proof -
  have lin: "a * 262144 + (b * 16 + c) * 4096 + (d * 4 + e) * 64 + f
     = (a * 4 + b) * 65536 + (c * 16 + d) * 256 + (e * 64 + f)" for a b c d e f :: nat by simp
  show ?thesis by (simp only: lin div_mult_mod_eq)
qed

lemma div_drop_low: "r < k \<Longrightarrow> (x * k + r) div (k * m) = (x * k) div (k * m)" for x k r m :: nat
  by (simp add: div_mult2_eq)

lemma base64_low: "a < 64 \<Longrightarrow> b < 64 \<Longrightarrow> a * 64 + b < (4096::nat)"
  by simp

lemma base64_split:
  assumes "v3 < 64" "v4 < 64" "s1 < 256" "s2 < 256"
    and v: "v1 * 262144 + v2 * 4096 + v3 * 64 + v4 = s0 * 65536 + s1 * 256 + (s2::nat)"
  shows "drop_bit 16 (v1 * 262144 + v2 * 4096) = s0"
    "255 AND drop_bit 8 (v1 * 262144 + v2 * 4096 + v3 * 64) = s1"
    "255 AND (v1 * 262144 + v2 * 4096 + v3 * 64 + v4) = s2"
proof -
  have e: "v1 * 262144 + v2 * 4096 = (v1 * 64 + v2) * 4096"
    "v1 * 262144 + v2 * 4096 + v3 * 64 = (v1 * 4096 + v2 * 64 + v3) * 64"
    "v1 * 262144 + v2 * 4096 + v3 * 64 + v4 = (v1 * 64 + v2) * 4096 + (v3 * 64 + v4)"
    "v1 * 262144 + v2 * 4096 + v3 * 64 + v4 = (v1 * 4096 + v2 * 64 + v3) * 64 + v4" by simp_all
  have "(v1 * 262144 + v2 * 4096) div (4096 * 16) = (v1 * 262144 + v2 * 4096 + v3 * 64 + v4) div (4096 * 16)"
    unfolding e(3) unfolding e(1) by (rule div_drop_low[OF base64_low[OF assms(1,2)], symmetric])
  moreover have "(s0 * 65536 + s1 * 256 + s2) div 65536 = s0" using assms(3,4) by simp
  ultimately show "drop_bit 16 (v1 * 262144 + v2 * 4096) = s0" unfolding v by (simp add: drop_bit_eq_div)
  have "(v1 * 262144 + v2 * 4096 + v3 * 64) div (64 * 4) = (v1 * 262144 + v2 * 4096 + v3 * 64 + v4) div (64 * 4)"
    unfolding e(4) unfolding e(2) by (rule div_drop_low[OF assms(2), symmetric])
  then have "drop_bit 8 (v1 * 262144 + v2 * 4096 + v3 * 64) = (s0 * 65536 + s1 * 256 + s2) div 256"
    unfolding v by (simp add: drop_bit_eq_div)
  moreover have "(s0 * 65536 + s1 * 256 + s2) div 256 = s0 * 256 + s1" using assms(4) by simp
  ultimately show "255 AND drop_bit 8 (v1 * 262144 + v2 * 4096 + v3 * 64) = s1"
    using assms(3) by (simp add: and_mod)
  have "s0 * 65536 + s1 * 256 + s2 = s2 + 256 * (s0 * 256 + s1)" by simp
  then have "(s0 * 65536 + s1 * 256 + s2) mod 256 = s2" using assms(4) by (simp only: mod_mult_self2 mod_less)
  then show "255 AND (v1 * 262144 + v2 * 4096 + v3 * 64 + v4) = s2" unfolding v and_mod .
qed

lemma base64_quad:
  assumes "v1 < 64" "v2 < 64" "v3 < 64" "v4 < 64" "s1 < 256" "s2 < 256"
    and v: "v1 * 262144 + v2 * 4096 + v3 * 64 + v4 = s0 * 65536 + s1 * 256 + s2"
  shows "wget_base64_decode (base64_tbl ! v1 # base64_tbl ! v2 # base64_tbl ! v3 # base64_tbl ! v4 # r) =
    map_option (\<lambda>r. s0 # s1 # s2 # r) (wget_base64_decode r)"
    "v4 = 0 \<Longrightarrow> wget_base64_decode (base64_tbl ! v1 # base64_tbl ! v2 # base64_tbl ! v3 # CHR ''='' # r) =
    map_option (\<lambda>r. s0 # s1 # r) (wget_base64_decode r)"
    "v3 = 0 \<Longrightarrow> v4 = 0 \<Longrightarrow> wget_base64_decode (base64_tbl ! v1 # base64_tbl ! v2 # CHR ''='' # CHR ''='' # r) =
    map_option (\<lambda>r. s0 # r) (wget_base64_decode r)"
proof -
  note J = base64_join[OF assms(2-4), of v1] and B = base64_split[OF assms(3-7)]
  show "wget_base64_decode (base64_tbl ! v1 # base64_tbl ! v2 # base64_tbl ! v3 # base64_tbl ! v4 # r) =
    map_option (\<lambda>r. s0 # s1 # s2 # r) (wget_base64_decode r)"
    by (simp add: wget_base64_decode.simps[of "_ # _"] base64_digit assms(1-4) Let_def J B)
  show "wget_base64_decode (base64_tbl ! v1 # base64_tbl ! v2 # base64_tbl ! v3 # CHR ''='' # r) =
    map_option (\<lambda>r. s0 # s1 # r) (wget_base64_decode r)"
    by (simp add: wget_base64_decode.simps[of "_ # _"] base64_digit assms(1-4) Let_def J B)
  show "wget_base64_decode (base64_tbl ! v1 # base64_tbl ! v2 # CHR ''='' # CHR ''='' # r) =
    map_option (\<lambda>r. s0 # r) (wget_base64_decode r)"
    by (simp add: wget_base64_decode.simps[of "_ # _"] base64_digit assms(1-4) Let_def J B)
qed

lemma base64_eqs:
  "drop_bit 2 s0 * 262144 + (push_bit 4 (s0 AND 3) + drop_bit 4 s1) * 4096 + (push_bit 2 (s1 AND 15) + drop_bit 6 s2) * 64
     + (s2 AND 63) = s0 * 65536 + s1 * 256 + s2" for s0 s1 s2 :: nat
  using base64_bytes[of s0 s1 s2] by (simp add: push_bit_eq_mult drop_bit_eq_div and_mod)

lemma base64_roundtrip_aux:
  "(\<forall>b\<in>set bs. b < 256) \<Longrightarrow> wget_base64_decode (wget_base64_encode bs) = Some bs"
proof (induction bs rule: wget_base64_encode.induct)
  case (1 s0 s1 s2 s)
  then have b: "s0 < 256" "s1 < 256" "s2 < 256" by auto
  note V = base64_values[OF b]
  show ?case using 1 base64_quad(1)[OF V(1-4) b(2,3) base64_eqs] unfolding wget_base64_encode.simps append.simps by simp
next
  case (2 s0)
  then have b: "s0 < 256" "0 < (256::nat)" "0 < (256::nat)" by auto
  note V = base64_values[OF b] and E = base64_eqs[of s0 0 0]
  have "wget_base64_decode [] = Some []" by (simp add: wget_base64_decode.simps)
  then show ?case using base64_quad(3)[OF V(1,5) _ _ b(2,3), of 0 0 s0 "[]"] E unfolding wget_base64_encode.simps append.simps by simp
next
  case (3 s0 s1)
  then have b: "s0 < 256" "s1 < 256" "0 < (256::nat)" by auto
  note V = base64_values[OF b] and E = base64_eqs[of s0 s1 0]
  have "wget_base64_decode [] = Some []" by (simp add: wget_base64_decode.simps)
  then show ?case using base64_quad(2)[OF V(1,2,6) _ b(2,3), of 0 s0 "[]"] E unfolding wget_base64_encode.simps append.simps by simp
next
  case 4
  show ?case by (simp add: wget_base64_decode.simps)
qed

lemma base64_encode_length: "length (wget_base64_encode bs) = 4 * ((length bs + 2) div 3)"
  by (induction bs rule: wget_base64_encode.induct) (simp, presburger, simp_all)

subsection \<open>Merge sort\<close>

definition comparator :: "('a \<Rightarrow> 'a \<Rightarrow> int) \<Rightarrow> bool" where
  "comparator cmp \<longleftrightarrow> (\<forall>x y. cmp x y \<le> 0 \<or> cmp y x \<le> 0) \<and> (\<forall>x y z. cmp x y \<le> 0 \<and> cmp y z \<le> 0 \<longrightarrow> cmp x z \<le> 0)"

definition ties :: "('a \<Rightarrow> 'a \<Rightarrow> int) \<Rightarrow> 'a \<Rightarrow> 'a list \<Rightarrow> 'a list" where
  "ties cmp x xs = filter (\<lambda>y. cmp x y \<le> 0 \<and> cmp y x \<le> 0) xs"

definition stable_sorted :: "('a \<Rightarrow> 'a \<Rightarrow> int) \<Rightarrow> 'a list \<Rightarrow> 'a list \<Rightarrow> bool" where
  "stable_sorted cmp xs ys \<longleftrightarrow>
     sorted_wrt (\<lambda>a b. cmp a b \<le> 0) ys \<and> mset ys = mset xs \<and> (\<forall>x. ties cmp x ys = ties cmp x xs)"

lemma set_merge_loop [simp]: "set (merge_loop cmp xs ys) = set xs \<union> set ys"
  by (induction cmp xs ys rule: merge_loop.induct) auto

lemma merge_loop_mset: "mset (merge_loop cmp xs ys) = mset xs + mset ys"
  by (induction cmp xs ys rule: merge_loop.induct) auto

lemma comparatorD:
  assumes "comparator cmp"
  shows "\<not> cmp x y \<le> 0 \<Longrightarrow> cmp y x \<le> 0" "cmp x y \<le> 0 \<Longrightarrow> cmp y z \<le> 0 \<Longrightarrow> cmp x z \<le> 0"
  using assms unfolding comparator_def by blast+

lemma merge_loop_sorted:
  assumes "comparator cmp"
  shows "sorted_wrt (\<lambda>a b. cmp a b \<le> 0) xs \<Longrightarrow> sorted_wrt (\<lambda>a b. cmp a b \<le> 0) ys \<Longrightarrow>
    sorted_wrt (\<lambda>a b. cmp a b \<le> 0) (merge_loop cmp xs ys)"
proof (induction "\<lambda>x y. cmp x y" xs ys rule: merge_loop.induct)
  case (1 x xs y ys)
  show ?case
  proof (cases "cmp x y \<le> 0")
    case True
    have "cmp x z \<le> 0" if "z \<in> set ys" for z
      using comparatorD(2)[OF assms True] 1(4) that by simp
    then show ?thesis using 1(1)[OF True] 1(3,4) True by auto
  next
    case False
    have "cmp y z \<le> 0" if "z \<in> set xs" for z
      using comparatorD(2)[OF assms comparatorD(1)[OF assms False]] 1(3) that by simp
    then show ?thesis using 1(2)[OF False] 1(3,4) False comparatorD(1)[OF assms False] by auto
  qed
qed simp_all

lemma merge_loop_ties:
  assumes "comparator cmp"
  shows "sorted_wrt (\<lambda>a b. cmp a b \<le> 0) xs \<Longrightarrow> ties cmp z (merge_loop cmp xs ys) = ties cmp z xs @ ties cmp z ys"
proof (induction "\<lambda>x y. cmp x y" xs ys rule: merge_loop.induct)
  case (1 x xs y ys)
  show ?case
  proof (cases "cmp x y \<le> 0")
    case True
    then show ?thesis using 1(1)[OF True] 1(3) by (simp add: ties_def)
  next
    case False
    \<comment> \<open>then nothing in \<open>x # xs\<close> ties with what ties with \<open>y\<close>\<close>
    have none: "ties cmp z (x # xs) = []" if zy: "cmp z y \<le> 0"
    proof -
      have "\<not> cmp w z \<le> 0" if w: "w \<in> set (x # xs)" for w
      proof
        assume "cmp w z \<le> 0"
        then have wy: "cmp w y \<le> 0" using comparatorD(2)[OF assms _ zy] by blast
        have "w = x \<or> cmp x w \<le> 0" using w 1(3) by auto
        then show False using comparatorD(2)[OF assms _ wy] wy False by blast
      qed
      then show ?thesis unfolding ties_def filter_empty_conv by blast
    qed
    have "ties cmp z (merge_loop cmp (x # xs) ys) = ties cmp z (x # xs) @ ties cmp z ys"
      using 1(2)[OF False] 1(3) by simp
    then show ?thesis using none False by (simp add: ties_def)
  qed
qed (simp_all add: ties_def)

lemma merge_stable_sorted:
  assumes "comparator cmp" "stable_sorted cmp xs xs'" "stable_sorted cmp ys ys'"
  shows "stable_sorted cmp (xs @ ys) (merge_loop cmp xs' ys')"
proof -
  have "ties cmp z (xs @ ys) = ties cmp z xs @ ties cmp z ys" for z by (simp add: ties_def)
  then show ?thesis
    using assms(2,3) merge_loop_sorted[OF assms(1), of xs' ys'] merge_loop_ties[OF assms(1), of xs' _ ys']
    by (simp add: stable_sorted_def merge_loop_mset)
qed

lemma mergesort_segment:
  assumes "comparator cmp"
  shows "xs \<noteq> [] \<Longrightarrow> length pre = lo \<Longrightarrow> hi = lo + length xs - 1 \<Longrightarrow>
    \<exists>ys. mergesort_internal cmp (pre @ xs @ post) lo hi = pre @ ys @ post \<and> stable_sorted cmp xs ys"
proof (induction xs arbitrary: pre post lo hi rule: length_induct)
  case (1 xs)
  show ?case
  proof (cases "lo < hi")
    case False
    then obtain x where "xs = [x]" using 1(2,4) by (cases xs; cases "tl xs") auto
    then show ?thesis using False by (subst mergesort_internal.simps) (auto simp: stable_sorted_def)
  next
    case True
    define mid where "mid = (hi + lo) div 2"
    define k where "k = mid + 1 - lo"
    have mid: "lo \<le> mid" "mid < hi" using True by (auto simp: mid_def)
    have len: "length xs = hi + 1 - lo" using 1(4) True by simp
    define A B where "A = take k xs" and "B = drop k xs"
    have xs: "xs = A @ B" and lA: "length A = mid + 1 - lo" and lB: "length B = hi - mid"
      using len mid by (auto simp: A_def B_def k_def)
    have ne: "A \<noteq> []" "B \<noteq> []" and lt: "length A < length xs" "length B < length xs"
      using lA lB mid len by auto
    obtain A' where A': "mergesort_internal cmp (pre @ A @ B @ post) lo mid = pre @ A' @ B @ post" "stable_sorted cmp A A'"
      using 1(1)[rule_format, OF lt(1) ne(1), of pre lo mid "B @ post"] 1(3) lA mid by auto
    have lA': "length A' = length A" using A'(2) by (metis stable_sorted_def mset_eq_length)
    obtain B' where B': "mergesort_internal cmp ((pre @ A') @ B @ post) (mid + 1) hi = (pre @ A') @ B' @ post" "stable_sorted cmp B B'"
      using 1(1)[rule_format, OF lt(2) ne(2), of "pre @ A'" "mid + 1" hi post] 1(3) lA lA' lB mid by auto
    have lB': "length B' = length B" using B'(2) by (metis stable_sorted_def mset_eq_length)
    have "mergesort_internal cmp (pre @ xs @ post) lo hi = pre @ merge_loop cmp A' B' @ post"
      using True A'(1) B'(1) lA lB lA' lB' 1(3) mid
      by (subst mergesort_internal.simps) (simp add: xs Let_def flip: mid_def)
    then show ?thesis using merge_stable_sorted[OF assms A'(2) B'(2)] xs by blast
  qed
qed

lemma stable_sort_ok: "comparator cmp \<Longrightarrow> stable_sorted cmp xs (stable_sort cmp xs)"
proof (cases "length xs > 1")
  case True
  assume "comparator cmp"
  from mergesort_segment[OF this, of xs "[]" 0 "length xs - 1" "[]"] True show ?thesis
    by (cases xs) (auto simp: stable_sort_def)
next
  case False
  then show ?thesis by (cases xs; cases "tl xs") (auto simp: stable_sort_def stable_sorted_def)
qed

subsection \<open>Directories\<close>

lemma subdir_scan_eq: "subdir_scan (=) d1 d2 \<longleftrightarrow> d2 = d1 \<or> prefix (d1 @ ''/'') d2"
proof (induction "(=) :: char \<Rightarrow> char \<Rightarrow> bool" d1 d2 rule: subdir_scan.induct)
  case (1 d2)
  show ?case by (cases d2) auto
qed auto

lemma tolower_slash: "c_tolower c = CHR ''/'' \<longleftrightarrow> c = CHR ''/''"
  by (simp add: tolower_nonletter)

lemma subdir_scan_nocase:
  "subdir_scan (\<lambda>a b. c_tolower a = c_tolower b) d1 d2 = subdir_scan (=) (lower d1) (lower d2)"
proof (induction "\<lambda>a b. c_tolower a = c_tolower b" d1 d2 rule: subdir_scan.induct)
  case (1 d2)
  show ?case by (cases d2) (auto simp: lower_def tolower_slash)
qed (auto simp: lower_def)

definition dir_matches :: "fnmatch \<Rightarrow> match_options \<Rightarrow> string \<Rightarrow> string \<Rightarrow> bool" where
  \<comment> \<open>what one element of a directory list accepts\<close>
  "dir_matches fnm opt x dir \<longleftrightarrow>
     (let p = (if deref x 0 = CHR ''/'' then tl x else x) in
      if has_wildcards_p p then fnm p dir True (ignore_case opt)
      else if ignore_case opt then p = [] \<or> lower dir = lower p \<or> prefix (lower p @ ''/'') (lower dir)
      else p = [] \<or> dir = p \<or> prefix (p @ ''/'') dir)"

lemma dir_matches_iff:
  "dir_matches fnm opt x dir \<longleftrightarrow>
     (let p = (if deref x 0 = CHR ''/'' then tl x else x) in
      if has_wildcards_p p then fnm p dir True (ignore_case opt) else subdir_p opt p dir)"
  by (simp add: dir_matches_def subdir_p_def subdir_scan_nocase subdir_scan_eq Let_def)

lemma dir_matches_p_ex: "dir_matches_p fnm opt dirlist dir \<longleftrightarrow> (\<exists>x\<in>set dirlist. dir_matches fnm opt x dir)"
proof (induction dirlist)
  case (Cons x dirlist)
  have "dir_matches_p fnm opt (x # dirlist) dir \<longleftrightarrow> dir_matches fnm opt x dir \<or> dir_matches_p fnm opt dirlist dir"
    by (simp add: dir_matches_iff Let_def)
  then show ?case using Cons by simp
qed simp

subsection \<open>Properties\<close>

text \<open>
  A directory is accepted for download exactly when, its leading slash dropped, some
  include element matches it (if there is an include list) and no exclude element does;
  an element without wildcards matches the directory itself and everything below it, and
  nothing that merely shares its letters as a prefix.
\<close>

theorem accdir_iff:
  "accdir fnm opt d \<longleftrightarrow>
     (let dir = (if deref d 0 = CHR ''/'' then tl d else d) in
      (\<forall>inc. include_dirs opt = Some inc \<longrightarrow> (\<exists>x\<in>set inc. dir_matches fnm opt x dir)) \<and>
      (\<forall>exc. exclude_dirs opt = Some exc \<longrightarrow> \<not> (\<exists>x\<in>set exc. dir_matches fnm opt x dir)))"
  by (auto simp: accdir_def Let_def dir_matches_p_ex split: option.splits)

theorem accdir_iff_witness:
  "\<forall>fnm. accdir fnm \<lparr>ignore_case = False, output_document = None, accepts = None, rejects = None,
      include_dirs = Some [''/pub''], exclude_dirs = Some [''/pub/tmp'']\<rparr> ''/pub/x''"
  by (simp add: accdir_iff dir_matches_def has_wildcards_p_def)

text \<open>
  Base64: decoding what \<open>wget_base64_encode\<close> produced for a list of bytes gives the bytes
  back, and the encoding is as long as \<open>BASE64_LENGTH\<close> says.
\<close>

theorem base64_roundtrip:
  assumes "\<forall>b\<in>set bs. b < 256"
  shows "wget_base64_decode (wget_base64_encode bs) = Some bs \<and>
    length (wget_base64_encode bs) = 4 * ((length bs + 2) div 3)"
  using base64_roundtrip_aux[OF assms] base64_encode_length by simp

theorem base64_roundtrip_witness:
  "wget_base64_encode [117, 58, 112, 255] = ''dTpw/w=='' \<and> wget_base64_decode ''dTpw/w=='' = Some [117, 58, 112, 255]"
proof -
  have e: "wget_base64_encode [117, 58, 112, 255] = ''dTpw/w==''" by code_simp
  from base64_roundtrip[of "[117, 58, 112, 255]"] e show ?thesis by simp
qed

text \<open>
  \<open>stable_sort\<close>, for every comparison function that is a total preorder, returns a
  permutation of the array that is sorted, with elements that compare equal in their
  original order.
\<close>

theorem stable_sort_correct:
  assumes "comparator cmp"
  shows "mset (stable_sort cmp xs) = mset xs \<and> sorted_wrt (\<lambda>a b. cmp a b \<le> 0) (stable_sort cmp xs) \<and>
    (\<forall>x. filter (\<lambda>y. cmp x y \<le> 0 \<and> cmp y x \<le> 0) (stable_sort cmp xs) =
         filter (\<lambda>y. cmp x y \<le> 0 \<and> cmp y x \<le> 0) xs)"
  using stable_sort_ok[OF assms, of xs] by (simp add: stable_sorted_def ties_def)

theorem stable_sort_correct_witness:
  "mset (stable_sort (\<lambda>x y. x div 10 - y div 10) [31, 12, 30, 11]) = {#31, 12, 30, 11#} \<and>
   stable_sort (\<lambda>x y. x div 10 - y div 10) [31, 12, 30, 11] = [12, 11, 31, 30 :: int]"
proof -
  have "comparator (\<lambda>x y :: int. x div 10 - y div 10)" by (auto simp: comparator_def)
  from stable_sort_correct[OF this, of "[31, 12, 30, 11]"]
  have "mset (stable_sort (\<lambda>x y. x div 10 - y div 10) [31, 12, 30, 11]) = {#31, 12, 30, 11 :: int#}" by simp
  moreover have "stable_sort (\<lambda>x y. x div 10 - y div 10) [31, 12, 30, 11] = [12, 11, 31, 30 :: int]"
    by code_simp
  ultimately show ?thesis by simp
qed

end
