(* ===== verification/Wget_Http_Head.thy ===== *)
theory Wget_Http_Head
  imports Wget_Hash_Map Wget_Utils
begin

section \<open>Heads of HTTP requests and responses (wget/src/http.c)\<close>

text \<open>
  Requests as a list of headers with the text that is sent, and responses as the head that
  was read, cut into lines. The array \<open>headers\<close> of a response holds pointers into the text, the last
  of them at the empty line: it is modelled by the texts between neighbouring pointers and
  the text from the last pointer on. Which of the strings a header owns only matters for freeing
  memory and is left out.
\<close>

subsection \<open>Requests\<close>

record request =
  rq_method :: string
  rq_arg :: string
  rq_headers :: "(string \<times> string) list" \<comment> \<open>names and values\<close>

definition request_new :: "string \<Rightarrow> string \<Rightarrow> request" where
  "request_new method arg = \<lparr>rq_method = method, rq_arg = arg, rq_headers = []\<rparr>"

definition request_method :: "request \<Rightarrow> string" where
  "request_method req = rq_method req"

fun replace_header :: "string \<Rightarrow> string \<Rightarrow> (string \<times> string) list \<Rightarrow> (string \<times> string) list" where
  "replace_header nm val [] = [(nm, val)]"
| "replace_header nm val (h # hs) =
     (if strcaseeq nm (fst h) then (nm, val) # hs else h # replace_header nm val hs)"

definition request_set_header :: "request \<Rightarrow> string \<Rightarrow> string option \<Rightarrow> request" where
  "request_set_header req nm val =
     (case val of None \<Rightarrow> req | Some v \<Rightarrow> req\<lparr>rq_headers := replace_header nm v (rq_headers req)\<rparr>)"

definition request_set_user_header :: "request \<Rightarrow> string \<Rightarrow> request" where
  "request_set_user_header req header =
     (case strchr header (CHR '':'') of
        None \<Rightarrow> req
      | Some p \<Rightarrow> request_set_header req (strdupdelim header p) (Some (skip_space (tl p))))"

fun remove_header :: "string \<Rightarrow> (string \<times> string) list \<Rightarrow> bool \<times> (string \<times> string) list" where
  "remove_header nm [] = (False, [])"
| "remove_header nm (h # hs) =
     (if strcaseeq nm (fst h) then (True, hs) else let (r, hs) = remove_header nm hs in (r, h # hs))"

definition request_remove_header :: "request \<Rightarrow> string \<Rightarrow> bool \<times> request" where
  "request_remove_header req nm =
     (let (r, hs) = remove_header nm (rq_headers req) in (r, req\<lparr>rq_headers := hs\<rparr>))"

definition request_send :: "request \<Rightarrow> string run" where
  \<comment> \<open>what is written to the connection; \<^term>\<open>None\<close> when the assertion on the size fails\<close>
  "request_send req =
     (let sz = length (rq_method req) + 1 + length (rq_arg req) + 1 + 8 + 2
            + sum_list (map (\<lambda>h. length (fst h) + 2 + length (snd h) + 2) (rq_headers req)) + 3;
          request_string =
            rq_method req @ '' '' @ rq_arg req @ '' '' @ ''HTTP/1.1'' @ [CR, LF]
              @ concat (map (\<lambda>h. fst h @ '': '' @ snd h @ [CR, LF]) (rq_headers req)) @ [CR, LF]
      in if length request_string + 1 = sz then Some request_string else None)"

subsection \<open>Basic authentication\<close>

definition basic_authentication_encode :: "string \<Rightarrow> string \<Rightarrow> string" where
  "basic_authentication_encode user passwd = ''Basic '' @ wget_base64_encode (map byte (user @ '':'' @ passwd))"

type_synonym authed_hosts = "(string, unit) hash_table option"

definition maybe_send_basic_creds ::
  "bool \<Rightarrow> authed_hosts \<Rightarrow> string \<Rightarrow> string \<Rightarrow> string \<Rightarrow> request \<Rightarrow> (bool \<times> request) run" where
  "maybe_send_basic_creds auth_without_challenge basic_authed_hosts hostname user passwd req = do {
     do_challenge \<leftarrow>
       (if auth_without_challenge then Some True
        else case basic_authed_hosts of None \<Rightarrow> Some False | Some ht \<Rightarrow> hash_table_contains ht hostname);
     Some (do_challenge,
           if do_challenge
           then request_set_header req ''Authorization'' (Some (basic_authentication_encode user passwd))
           else req) }"

definition register_basic_auth_host :: "authed_hosts \<Rightarrow> string \<Rightarrow> authed_hosts run" where
  "register_basic_auth_host basic_authed_hosts hostname = do {
     ht \<leftarrow> (case basic_authed_hosts of None \<Rightarrow> make_nocase_string_hash_table 1 | Some ht \<Rightarrow> Some ht);
     found \<leftarrow> hash_table_contains ht hostname;
     if found then Some (Some ht)
     else do {
       ht \<leftarrow> hash_table_put ht hostname ();
       Some (Some ht) } }"

subsection \<open>Where the head of a response ends\<close>

fun find_terminator :: "nat \<Rightarrow> string \<Rightarrow> nat \<Rightarrow> nat option" where
  \<comment> \<open>the loop and the check after it, from position \<open>p\<close> on\<close>
  "find_terminator peeklen (a # b # c # s) p =
     (if a = LF \<and> b = CR \<and> c = LF then Some (p + 3)
      else if a = LF \<and> b = LF then Some (p + 2)
      else find_terminator peeklen (b # c # s) (p + 1))"
| "find_terminator peeklen [a, b] p = (if peeklen \<ge> 2 \<and> a = LF \<and> b = LF then Some (p + 2) else None)"
| "find_terminator peeklen s p = None"

definition response_head_terminator :: "string \<Rightarrow> nat \<Rightarrow> nat option" where
  \<comment> \<open>the data from \<open>start\<close> on, and where \<open>peeked\<close> is in it; the result is a position\<close>
  "response_head_terminator data peeked =
     (let peeklen = length data - peeked in
      if peeked = 0 \<and> take (min peeklen 4) data \<noteq> take (min peeklen 4) ''HTTP'' then Some 0
      else
        let p = (if peeked < 2 then 0 else peeked - 2)
        in find_terminator peeklen (drop p data) p)"

subsection \<open>Responses\<close>

record response =
  resp_lines :: "string list option" \<comment> \<open>the texts from \<open>headers[i]\<close> to \<open>headers[i + 1]\<close>; \<^term>\<open>None\<close>: \<open>headers\<close> is NULL\<close>
  resp_rest :: string \<comment> \<open>the text at the last pointer\<close>

function header_end :: "string \<Rightarrow> string \<times> string" where
  \<comment> \<open>the header at \<open>hdr\<close> with its continuations joined, and the text after it\<close>
  "header_end hdr =
     (case strchr hdr LF of
        None \<Rightarrow> (hdr, [])
      | Some e \<Rightarrow>
          let line = strdupdelim hdr e; hdr = tl e in
          if deref hdr 0 \<noteq> CHR '' '' \<and> deref hdr 0 \<noteq> TAB then (line @ [LF], hdr)
          else
            let line = (if line \<noteq> [] \<and> last line = CR then butlast line @ '' '' else line);
                (more, hdr) = header_end hdr
            in (line @ '' '' @ more, hdr))"
  by pat_completeness auto
termination
  by (relation "measure length") (auto dest: strchr_shorter)

declare header_end.simps [simp del]

lemma header_end_shorter: "snd (header_end s) = [] \<or> length (snd (header_end s)) < length s"
proof (induction s rule: header_end.induct)
  case (1 s)
  show ?case
  proof (cases "strchr s LF")
    case (Some e)
    have "length (tl e) < length s" by (rule strchr_shorter[OF Some])
    then show ?thesis using 1[OF Some refl refl] Some
      by (subst (1 2) header_end.simps) (auto simp: Let_def split: prod.splits)
  qed (simp add: header_end.simps)
qed

function resp_split :: "string \<Rightarrow> string list \<times> string" where
  "resp_split hdr =
     (if hdr = [] \<or> deref hdr 0 = CR \<and> deref hdr 1 = LF \<or> deref hdr 0 = LF then ([], hdr)
      else let (line, hdr) = header_end hdr; (lines, rest) = resp_split hdr in (line # lines, rest))"
  by pat_completeness auto
termination
proof (relation "measure length", goal_cases)
  case (2 hdr x line hdr')
  then show ?case using header_end_shorter[of hdr] by (cases hdr) (auto dest: arg_cong[of _ _ snd])
qed simp

declare resp_split.simps [simp del]

definition resp_new :: "string \<Rightarrow> response" where
  "resp_new head =
     (if head = [] then \<lparr>resp_lines = None, resp_rest = head\<rparr>
      else let (lines, rest) = resp_split head in \<lparr>resp_lines = Some lines, resp_rest = rest\<rparr>)"

definition header_value :: "string \<Rightarrow> string \<Rightarrow> string option" where
  \<comment> \<open>the value in the header line, if it has the name\<close>
  "header_value nm line =
     (if length line > length nm \<and> line ! length nm = CHR '':'' \<and> lower (take (length nm) line) = lower nm
      then Some (rtrim_space (skip_space (drop (length nm + 1) line)))
      else None)"

fun locate_loop :: "string \<Rightarrow> string list \<Rightarrow> nat \<Rightarrow> (nat \<times> string) option" where
  "locate_loop nm [] i = None"
| "locate_loop nm (l # ls) i = (case header_value nm l of Some v \<Rightarrow> Some (i, v) | None \<Rightarrow> locate_loop nm ls (i + 1))"

definition resp_header_locate :: "response \<Rightarrow> string \<Rightarrow> nat \<Rightarrow> (nat \<times> string) option run" where
  \<comment> \<open>\<^term>\<open>Some None\<close> for the result -1; \<^term>\<open>None\<close> when \<open>start\<close> is behind the array\<close>
  "resp_header_locate resp nm start =
     (case resp_lines resp of
        None \<Rightarrow> Some None
      | Some lines \<Rightarrow>
          if lines = [] then Some None
          else
            let i = (if start > 0 then start else 1) in
            if i > length lines then None else Some (locate_loop nm (drop i lines) i))"

definition resp_header_get :: "response \<Rightarrow> string \<Rightarrow> string option run" where
  "resp_header_get resp nm = map_option (map_option snd) (resp_header_locate resp nm 0)"

definition resp_header_copy :: "response \<Rightarrow> string \<Rightarrow> nat \<Rightarrow> string option run" where
  \<comment> \<open>the contents of the buffer of \<open>bufsize\<close> bytes, at least one, when the header is there\<close>
  "resp_header_copy resp nm bufsize = map_option (map_option (take (bufsize - 1))) (resp_header_get resp nm)"

definition resp_header_strdup :: "response \<Rightarrow> string \<Rightarrow> string option run" where
  "resp_header_strdup resp nm = resp_header_get resp nm"

definition skip_version :: "string \<Rightarrow> string" where
  "skip_version p =
     (if deref p 0 = CHR ''/'' then
        let p = dropWhile c_isdigit (tl p);
            p = (if deref p 0 = CHR ''.'' then tl p else p)
        in dropWhile c_isdigit p
      else p)"

definition digit_value :: "char \<Rightarrow> int" where
  "digit_value c = int (byte c) - 48"

definition resp_status :: "response \<Rightarrow> (int \<times> string) option" where
  \<comment> \<open>the status and the message; \<^term>\<open>None\<close> for the result -1\<close>
  "resp_status resp =
     (case resp_lines resp of
        None \<Rightarrow> Some (200, ''No headers, assuming HTTP/0.9'')
      | Some lines \<Rightarrow>
          (case lines of
             [] \<Rightarrow> None
           | l # _ \<Rightarrow>
               if take 4 l \<noteq> ''HTTP'' then None
               else
                 let p = skip_space (skip_version (drop 4 l)) in
                 if length p < 3 \<or> \<not> c_isdigit (p ! 0) \<or> \<not> c_isdigit (p ! 1) \<or> \<not> c_isdigit (p ! 2) then None
                 else Some (100 * digit_value (p ! 0) + 10 * digit_value (p ! 1) + digit_value (p ! 2),
                            rtrim_space (skip_space (drop 3 p)))))"

subsection \<open>Content-Range\<close>

fun scan_wgint :: "string \<Rightarrow> int \<Rightarrow> (int \<times> string) run" where
  \<comment> \<open>\<open>for (num = 0; c_isdigit (*hdr); hdr++) num = 10 * num + (*hdr - '0')\<close>; \<^term>\<open>None\<close> on overflow\<close>
  "scan_wgint [] num = Some (num, [])"
| "scan_wgint (c # hdr) num =
     (if c_isdigit c then
        let num = 10 * num + digit_value c in
        if in_int64 num then scan_wgint hdr num else None
      else Some (num, c # hdr))"

definition skip_bytes_unit :: "string \<Rightarrow> string option" where
  \<comment> \<open>\<^term>\<open>None\<close> when nothing follows the unit\<close>
  "skip_bytes_unit hdr =
     (if lower (take 5 hdr) = ''bytes'' then
        let hdr = drop 5 hdr;
            hdr = skip_space (if deref hdr 0 = CHR '':'' then tl hdr else hdr)
        in if hdr = [] then None else Some hdr
      else Some hdr)"

definition parse_content_range :: "string \<Rightarrow> (int \<times> int \<times> int) option run" where
  \<comment> \<open>first byte, last byte and length of the entity (-1 when unknown); \<^term>\<open>Some None\<close> for the result false\<close>
  "parse_content_range hdr =
     (case skip_bytes_unit hdr of
        None \<Rightarrow> Some None
      | Some hdr \<Rightarrow>
          if \<not> c_isdigit (deref hdr 0) then Some None
          else do {
            (first_byte, hdr) \<leftarrow> scan_wgint hdr 0;
            if deref hdr 0 \<noteq> CHR ''-'' \<or> \<not> c_isdigit (deref hdr 1) then Some None
            else do {
              (last_byte, hdr) \<leftarrow> scan_wgint (tl hdr) 0;
              if deref hdr 0 \<noteq> CHR ''/'' then Some None
              else if \<not> (c_isdigit (deref hdr 1) \<or> deref hdr 1 = CHR ''*'') then Some None
              else if last_byte < first_byte then Some None
              else do {
                (entity_length, hdr) \<leftarrow> (if deref hdr 1 = CHR ''*'' then Some (-1, hdr) else scan_wgint (tl hdr) 0);
                if entity_length \<le> last_byte \<and> entity_length \<noteq> -1 then Some None
                else Some (Some (first_byte, last_byte, entity_length)) } } })"

end
