(* ===== verification/Wget_Http_Head_Props.thy ===== *)
theory Wget_Http_Head_Props
  imports Wget_Http_Head
begin

section \<open>Heads of requests and responses: properties\<close>

text \<open>
  The headers of a request behave as a map over names in any case, the text that is sent has
  the announced size, the lines of a response are found with their continuations joined, and
  the looked-up values are the ones that the server wrote.
\<close>

subsection \<open>Requests\<close>

datatype header_op = SetHeader string "string option" | RemoveHeader string

fun apply_header_op :: "header_op \<Rightarrow> request \<Rightarrow> request" where
  "apply_header_op (SetHeader n v) req = request_set_header req n v"
| "apply_header_op (RemoveHeader n) req = snd (request_remove_header req n)"

definition header_lookup :: "(string \<times> string) list \<Rightarrow> string \<Rightarrow> string option" where
  "header_lookup hs n = map_of (map (\<lambda>h. (lower (fst h), snd h)) hs) (lower n)"

fun spec_header_op :: "header_op \<Rightarrow> (string \<rightharpoonup> string) \<Rightarrow> (string \<rightharpoonup> string)" where
  "spec_header_op (SetHeader n None) m = m"
| "spec_header_op (SetHeader n (Some v)) m = m(lower n \<mapsto> v)"
| "spec_header_op (RemoveHeader n) m = m(lower n := None)"

lemma strcaseeq_iff: "strcaseeq a b \<longleftrightarrow> lower a = lower b"
  by (simp add: strcaseeq_def)

definition header_names :: "(string \<times> string) list \<Rightarrow> string list" where
  "header_names hs = map (\<lambda>h. lower (fst h)) hs"

lemma replace_header_names:
  "set (header_names (replace_header n v hs)) = insert (lower n) (set (header_names hs))"
  by (induction hs) (auto simp: header_names_def strcaseeq_iff)

lemma replace_header_distinct: "distinct (header_names hs) \<Longrightarrow> distinct (header_names (replace_header n v hs))"
proof (induction hs)
  case (Cons h hs)
  then show ?case using replace_header_names[of n v hs] by (auto simp: header_names_def strcaseeq_iff)
qed (simp add: header_names_def)

lemma lookup_replace: "header_lookup (replace_header n v hs) k = (if lower k = lower n then Some v else header_lookup hs k)"
  by (induction hs) (auto simp: header_lookup_def strcaseeq_iff)

lemma remove_header_filter:
  "distinct (header_names hs) \<Longrightarrow> snd (remove_header n hs) = filter (\<lambda>h. lower (fst h) \<noteq> lower n) hs"
proof (induction hs)
  case (Cons h hs)
  have "filter (\<lambda>k. lower (fst k) \<noteq> lower (fst h)) hs = hs"
    using Cons.prems by (auto simp: header_names_def filter_id_conv image_iff)
  then show ?case using Cons by (auto simp: strcaseeq_iff header_names_def split: prod.splits)
qed simp

lemma distinct_map_filter: "distinct (map f xs) \<Longrightarrow> distinct (map f (filter P xs))"
  by (induction xs) auto

lemma lookup_filter:
  "header_lookup (filter (\<lambda>h. lower (fst h) \<noteq> lower n) hs) k = (if lower k = lower n then None else header_lookup hs k)"
  by (induction hs) (auto simp: header_lookup_def)

lemma request_send_ok:
  "request_send req = Some (rq_method req @ '' '' @ rq_arg req @ '' '' @ ''HTTP/1.1'' @ [CR, LF]
     @ concat (map (\<lambda>h. fst h @ '': '' @ snd h @ [CR, LF]) (rq_headers req)) @ [CR, LF])"
  by (simp add: request_send_def Let_def length_concat comp_def)

lemma header_op_ok:
  assumes "distinct (header_names (rq_headers req))" "\<And>k. header_lookup (rq_headers req) k = m (lower k)"
  shows "distinct (header_names (rq_headers (apply_header_op oper req)))"
    "header_lookup (rq_headers (apply_header_op oper req)) k = spec_header_op oper m (lower k)"
proof -
  have r: "rq_headers (snd (request_remove_header req n)) = filter (\<lambda>h. lower (fst h) \<noteq> lower n) (rq_headers req)" for n
    using remove_header_filter[OF assms(1), of n] by (auto simp: request_remove_header_def split: prod.splits)
  show "distinct (header_names (rq_headers (apply_header_op oper req)))"
    using assms(1) replace_header_distinct r
    by (cases oper) (auto simp: request_set_header_def header_names_def distinct_map_filter split: option.splits)
  show "header_lookup (rq_headers (apply_header_op oper req)) k = spec_header_op oper m (lower k)"
    using assms(2) by (cases "(oper, m)" rule: spec_header_op.cases) (auto simp: request_set_header_def lookup_replace r lookup_filter)
qed

text \<open>
  C21. After any sequence of setting and removing headers of a new request, every name, in
  any case, is bound to what a map from names to values gives and occurs once; the text that
  is sent consists of the request line and one line per header, and its size is the one that
  was computed for the buffer.
\<close>

theorem request_headers_refine_map:
  "let req = fold apply_header_op ops (request_new method arg) in
     distinct (map (\<lambda>h. lower (fst h)) (rq_headers req)) \<and>
     (\<forall>n. header_lookup (rq_headers req) n = fold spec_header_op ops Map.empty (lower n)) \<and>
     request_send req = Some (method @ '' '' @ arg @ '' HTTP/1.1'' @ [CR, LF]
       @ concat (map (\<lambda>h. fst h @ '': '' @ snd h @ [CR, LF]) (rq_headers req)) @ [CR, LF])"
proof -
  have keep: "distinct (header_names (rq_headers (fold apply_header_op ops req))) \<and>
      (\<forall>n. header_lookup (rq_headers (fold apply_header_op ops req)) n = fold spec_header_op ops m (lower n)) \<and>
      rq_method (fold apply_header_op ops req) = rq_method req \<and> rq_arg (fold apply_header_op ops req) = rq_arg req"
    if "distinct (header_names (rq_headers req))" "\<And>n. header_lookup (rq_headers req) n = m (lower n)" for req m
    using that
  proof (induction ops arbitrary: req m)
    case (Cons oper ops)
    have "rq_method (apply_header_op oper req) = rq_method req \<and> rq_arg (apply_header_op oper req) = rq_arg req"
      by (cases oper) (auto simp: request_set_header_def request_remove_header_def split: option.splits prod.splits)
    then show ?case using Cons.IH[OF header_op_ok[OF Cons.prems]] by simp
  qed simp
  have "distinct (header_names (rq_headers (request_new method arg)))"
      "header_lookup (rq_headers (request_new method arg)) n = Map.empty (lower n)" for n
    by (simp_all add: request_new_def header_names_def header_lookup_def)
  from keep[OF this] show ?thesis
    by (auto simp: request_send_ok request_new_def header_names_def Let_def)
qed

subsection \<open>The end of the head\<close>

definition head_ends_at :: "string \<Rightarrow> nat \<Rightarrow> bool" where
  \<comment> \<open>the first \<open>k\<close> characters end in an empty line\<close>
  "head_ends_at s k \<longleftrightarrow>
     k \<le> length s \<and>
     (2 \<le> k \<and> s ! (k - 2) = LF \<and> s ! (k - 1) = LF \<or> 3 \<le> k \<and> s ! (k - 3) = LF \<and> s ! (k - 2) = CR \<and> s ! (k - 1) = LF)"

lemma head_ends_small [simp]: "\<not> head_ends_at s 0" "\<not> head_ends_at s (Suc 0)"
  by (simp_all add: head_ends_at_def)

lemma head_ends_shift:
  "head_ends_at (a # s) (Suc k) \<longleftrightarrow>
     head_ends_at s k \<or> a = LF \<and> (k = 1 \<and> s \<noteq> [] \<and> s ! 0 = LF \<or> k = 2 \<and> 2 \<le> length s \<and> s ! 0 = CR \<and> s ! 1 = LF)"
proof -
  consider "k = 0" | "k = 1" | "k = 2" | j where "k = j + 3" by (metis One_nat_def add.commute add_2_eq_Suc' le_add_diff_inverse less_2_cases not_less numeral_3_eq_3 plus_1_eq_Suc less_Suc_eq numeral_2_eq_2)
  then show ?thesis
  proof cases
    case (4 j)
    then show ?thesis by (simp add: head_ends_at_def numeral_3_eq_3 numeral_2_eq_2)
  qed (auto simp: head_ends_at_def neq_Nil_conv numeral_2_eq_2 numeral_3_eq_3 Suc_le_eq)
qed

text \<open>
  The search finds the shortest beginning that ends in an empty line, except that a bare
  \<open>LF LF\<close> at the very end is not seen when a single byte was peeked.
\<close>

definition first_head_end :: "string \<Rightarrow> nat \<Rightarrow> bool" where
  "first_head_end s k \<longleftrightarrow> head_ends_at s k \<and> (\<forall>j<k. \<not> head_ends_at s j)"

lemma first_head_end_shift:
  assumes "\<not> head_ends_at (a # s) 2" "\<not> head_ends_at (a # s) 3 \<or> head_ends_at s 2"
  shows "head_ends_at (a # s) (Suc k) \<longleftrightarrow> head_ends_at s k"
proof -
  have "\<not> (a = LF \<and> s \<noteq> [] \<and> s ! 0 = LF)" using assms(1) head_ends_shift[of a s 1] by (simp add: numeral_2_eq_2)
  moreover have "a = LF \<and> 2 \<le> length s \<and> s ! 0 = CR \<and> s ! 1 = LF \<longrightarrow> head_ends_at s 2"
    using assms(2) head_ends_shift[of a s 2] by (simp add: numeral_3_eq_3 numeral_2_eq_2)
  ultimately show ?thesis unfolding head_ends_shift by blast
qed

lemma find_terminator_spec:
  "(case find_terminator n s p of
      Some r \<Rightarrow> \<exists>k. r = p + k \<and> first_head_end s k
    | None \<Rightarrow> \<forall>k. head_ends_at s k \<longrightarrow> n < 2 \<and> k = length s)"
proof (induction n s p rule: find_terminator.induct)
  case (1 n a b c s p)
  let ?t = "a # b # c # s"
  have h2: "head_ends_at ?t 2 \<longleftrightarrow> a = LF \<and> b = LF" by (auto simp: head_ends_at_def)
  have h3: "head_ends_at ?t 3 \<longleftrightarrow> b = LF \<and> c = LF \<or> a = LF \<and> b = CR \<and> c = LF"
    by (auto simp: head_ends_at_def numeral_3_eq_3 numeral_2_eq_2)
  consider "a = LF \<and> b = CR \<and> c = LF" | "a = LF \<and> b = LF" | "\<not> (a = LF \<and> b = CR \<and> c = LF)" "\<not> (a = LF \<and> b = LF)" by blast
  then show ?case
  proof cases
    case 1
    then have "first_head_end ?t 3" using h2 h3 by (auto simp: first_head_end_def less_Suc_eq numeral_3_eq_3 numeral_2_eq_2)
    then show ?thesis using 1 by auto
  next
    case 2
    then have "first_head_end ?t 2" using h2 by (auto simp: first_head_end_def less_2_cases_iff)
    then show ?thesis using 2 by auto
  next
    case 3
    have "head_ends_at (b # c # s) 2 \<longleftrightarrow> b = LF \<and> c = LF" by (auto simp: head_ends_at_def)
    then have sh: "head_ends_at ?t (Suc k) \<longleftrightarrow> head_ends_at (b # c # s) k" for k
      using h2 h3 3 by (intro first_head_end_shift) auto
    have f: "first_head_end ?t (Suc k) \<longleftrightarrow> first_head_end (b # c # s) k" for k
      unfolding first_head_end_def sh by (auto simp: less_Suc_eq_0_disj sh)
    have IH: "case find_terminator n (b # c # s) (p + 1) of
        Some r \<Rightarrow> \<exists>k. r = (p + 1) + k \<and> first_head_end (b # c # s) k
      | None \<Rightarrow> \<forall>k. head_ends_at (b # c # s) k \<longrightarrow> n < 2 \<and> k = length (b # c # s)"
      using "1.IH" 3 by blast
    show ?thesis
    proof (cases "find_terminator n (b # c # s) (p + 1)")
      case None
      have "n < 2 \<and> k = length ?t" if "head_ends_at ?t k" for k
        using that IH None sh by (cases k) auto
      then show ?thesis using 3 None by auto
    next
      case (Some r)
      then obtain k where "r = (p + 1) + k" "first_head_end (b # c # s) k" using IH by auto
      then have "r = p + Suc k" "first_head_end ?t (Suc k)" using f by auto
      then show ?thesis using 3 Some by auto
    qed
  qed
next
  case (2 n a b p)
  have "head_ends_at [a, b] k \<longleftrightarrow> k = 2 \<and> a = LF \<and> b = LF" for k
    by (auto simp: head_ends_at_def nth_Cons' numeral_2_eq_2 numeral_3_eq_3 split: if_splits)
  then show ?case by (auto simp: first_head_end_def)
qed (auto simp: head_ends_at_def)

lemma head_ends_drop:
  "head_ends_at (drop d s) k \<longleftrightarrow> d + k \<le> length s \<and>
     (2 \<le> k \<and> s ! (d + k - 2) = LF \<and> s ! (d + k - 1) = LF \<or>
      3 \<le> k \<and> s ! (d + k - 3) = LF \<and> s ! (d + k - 2) = CR \<and> s ! (d + k - 1) = LF)"
proof -
  have "drop d s ! (k - i) = s ! (d + k - i)" if "i \<le> k" "d + k \<le> length s" for i using that by simp
  moreover have "2 \<le> k \<Longrightarrow> k \<le> length s - d \<longleftrightarrow> d + k \<le> length s" by linarith
  ultimately show ?thesis unfolding head_ends_at_def by (cases "d + k \<le> length s"; cases "k = 2") auto
qed

lemma head_ends_late:
  assumes "\<forall>j\<le>d + 2. \<not> head_ends_at s j"
  shows "head_ends_at s (d + k) \<longleftrightarrow> head_ends_at (drop d s) k"
proof (cases "3 \<le> k")
  case True
  then show ?thesis unfolding head_ends_drop by (auto simp: head_ends_at_def)
next
  case False
  then have "\<not> head_ends_at s (d + k)" using assms by simp
  then show ?thesis using False unfolding head_ends_drop by (auto simp: head_ends_at_def)
qed



subsection \<open>The lines of a response\<close>

definition crlf_lines :: "string list \<Rightarrow> string" where
  "crlf_lines ls = concat (map (\<lambda>l. l @ [CR, LF]) ls)"

definition starts_blank :: "string \<Rightarrow> bool" where
  "starts_blank s \<longleftrightarrow> deref s 0 = CHR '' '' \<or> deref s 0 = TAB"

fun take_continuations :: "string \<Rightarrow> string list \<Rightarrow> string \<times> string list" where
  "take_continuations l [] = (l, [])"
| "take_continuations l (c # ls) =
     (if starts_blank c then (l @ ''  '' @ fst (take_continuations c ls), snd (take_continuations c ls)) else (l, c # ls))"

lemma take_continuations_shorter: "length (snd (take_continuations l ls)) \<le> length ls"
  by (induction ls arbitrary: l) (auto simp: le_SucI)

function unfold_lines :: "string list \<Rightarrow> string list" where
  \<comment> \<open>joins a line with those after it that begin with a blank; the line break becomes two blanks\<close>
  "unfold_lines [] = []"
| "unfold_lines (l # ls) = fst (take_continuations l ls) # unfold_lines (snd (take_continuations l ls))"
  by pat_completeness auto
termination
  by (relation "measure length") (auto simp: less_Suc_eq_le take_continuations_shorter)

definition good_line :: "string \<Rightarrow> bool" where
  "good_line l \<longleftrightarrow> l \<noteq> [] \<and> LF \<notin> set l"

lemma strchr_stop: "c \<notin> set a \<Longrightarrow> strchr (a @ c # r) c = Some (c # r)"
  by (induction a) auto

lemma header_end_crlf:
  assumes "LF \<notin> set l"
  shows "header_end (l @ CR # LF # r) =
    (if starts_blank r then let (m, q) = header_end r in (l @ ''  '' @ m, q) else (l @ [CR, LF], r))"
proof -
  have s: "strchr (l @ CR # LF # r) LF = Some (LF # r)" using strchr_stop[of LF "l @ [CR]" r] assms by simp
  have d: "strdupdelim (l @ CR # LF # r) (LF # r) = l @ [CR]" using strdupdelim_append[of "l @ [CR]" "LF # r"] by simp
  show ?thesis by (subst header_end.simps) (simp add: s d Let_def starts_blank_def split: prod.splits)
qed

lemma header_end_lines:
  assumes "\<forall>l\<in>set (l # ls). good_line l" "\<not> starts_blank r"
  shows "header_end (crlf_lines (l # ls) @ r) =
    (fst (take_continuations l ls) @ [CR, LF], crlf_lines (snd (take_continuations l ls)) @ r)"
  using assms
proof (induction ls arbitrary: l)
  case Nil
  then show ?case using header_end_crlf[of l r] by (simp add: crlf_lines_def good_line_def)
next
  case (Cons c ls)
  let ?r = "crlf_lines (c # ls) @ r"
  have "c \<noteq> []" using Cons.prems by (simp add: good_line_def)
  then have b: "starts_blank ?r \<longleftrightarrow> starts_blank c" by (cases c) (auto simp: starts_blank_def crlf_lines_def)
  have "header_end ?r = (fst (take_continuations c ls) @ [CR, LF], crlf_lines (snd (take_continuations c ls)) @ r)"
    using Cons by simp
  moreover have "crlf_lines (l # c # ls) @ r = l @ CR # LF # ?r" by (simp add: crlf_lines_def)
  ultimately show ?case using header_end_crlf[of l ?r] Cons.prems b
    by (simp add: good_line_def split: prod.splits)
qed

lemma take_continuations_good:
  "\<forall>l\<in>set ls. good_line l \<Longrightarrow> \<forall>l\<in>set (snd (take_continuations m ls)). good_line l"
  by (induction ls arbitrary: m) auto

lemma resp_split_lines:
  assumes "\<forall>l\<in>set ls. good_line l"
  shows "resp_split (crlf_lines ls @ [CR, LF] @ body) = (map (\<lambda>m. m @ [CR, LF]) (unfold_lines ls), [CR, LF] @ body)"
  using assms
proof (induction ls rule: unfold_lines.induct)
  case 1
  then show ?case by (subst resp_split.simps) (simp add: crlf_lines_def)
next
  case (2 l ls)
  have l: "l \<noteq> []" "LF \<notin> set l" using 2 by (auto simp: good_line_def)
  let ?s = "crlf_lines (l # ls) @ [CR, LF] @ body"
  have "\<not> starts_blank ([CR, LF] @ body)" by (simp add: starts_blank_def)
  note H = header_end_lines[OF "2.prems" this]
  have "deref (l @ CR # x) 1 \<noteq> LF" for x using l by (cases l; cases "tl l") auto
  then have "\<not> (?s = [] \<or> deref ?s 0 = CR \<and> deref ?s 1 = LF \<or> deref ?s 0 = LF)"
    using l by (cases l) (auto simp: crlf_lines_def)
  moreover have "\<forall>m\<in>set (snd (take_continuations l ls)). good_line m" using take_continuations_good[of ls l] "2.prems" by simp
  ultimately show ?case using 2 H by (subst resp_split.simps) (simp add: Let_def)
qed

subsection \<open>Fields\<close>

definition trim :: "string \<Rightarrow> string" where
  "trim s = rtrim_space (skip_space s)"

definition field :: "string \<Rightarrow> (string \<times> string) option" where
  \<comment> \<open>name, in lower case, and value of a header line\<close>
  "field l = (if CHR '':'' \<in> set l
     then Some (lower (takeWhile (\<lambda>c. c \<noteq> CHR '':'') l), trim (tl (dropWhile (\<lambda>c. c \<noteq> CHR '':'') l))) else None)"

lemma trim_crlf: "trim (v @ [CR, LF]) = trim v"
proof -
  have sp: "c_isspace CR" "c_isspace LF" by code_simp+
  show ?thesis
  proof (cases "\<forall>c\<in>set v. c_isspace c")
    case True
    then have d: "dropWhile c_isspace (v @ [CR, LF]) = []" "dropWhile c_isspace v = []" using sp by auto
    show ?thesis unfolding trim_def skip_space_def d ..
  next
    case False
    then obtain x where x: "x \<in> set v" "\<not> c_isspace x" by blast
    have d: "dropWhile c_isspace (v @ [CR, LF]) = dropWhile c_isspace v @ [CR, LF]" using x by (rule dropWhile_append1)
    have "dropWhile c_isspace (rev (dropWhile c_isspace v @ [CR, LF])) = dropWhile c_isspace (rev (dropWhile c_isspace v))"
      using sp by simp
    then show ?thesis unfolding trim_def skip_space_def rtrim_space_def d by (rule arg_cong)
  qed
qed

lemma lower_colon: "CHR '':'' \<in> set (lower s) \<longleftrightarrow> CHR '':'' \<in> set s"
  using tolower_nonletter[of "CHR '':''"] by (auto simp: lower_def image_iff eq_commute)

lemma header_value_field:
  assumes "CHR '':'' \<notin> set nm"
  shows "header_value nm (m @ [CR, LF]) =
    (case field m of None \<Rightarrow> None | Some (n, v) \<Rightarrow> if n = lower nm then Some v else None)"
proof (cases "CHR '':'' \<in> set m")
  case True
  then obtain a b where m: "m = a @ CHR '':'' # b" "CHR '':'' \<notin> set a" by (meson split_list_first)
  have f: "field m = Some (lower a, trim b)"
  proof -
    have "takeWhile (\<lambda>c. c \<noteq> CHR '':'') m = a" unfolding m(1) by (rule takeWhile_until(1)[OF m(2)])
    moreover have "dropWhile (\<lambda>c. c \<noteq> CHR '':'') m = CHR '':'' # b" unfolding m(1) using m(2) by (subst dropWhile_append2) auto
    ultimately show ?thesis using True by (simp add: field_def)
  qed
  let ?l = "m @ [CR, LF]"
  have "length ?l > length nm \<and> ?l ! length nm = CHR '':'' \<and> lower (take (length nm) ?l) = lower nm \<longleftrightarrow> lower a = lower nm"
  proof
    assume H: "length ?l > length nm \<and> ?l ! length nm = CHR '':'' \<and> lower (take (length nm) ?l) = lower nm"
    then have nc: "CHR '':'' \<notin> set (take (length nm) ?l)" using assms lower_colon by metis
    have "length nm = length a"
    proof (rule ccontr)
      assume "length nm \<noteq> length a"
      then consider "length nm < length a" | "length a < length nm" by linarith
      then show False
      proof cases
        case 1
        then have "?l ! length nm = a ! length nm" unfolding m(1) by (simp add: nth_append)
        then show False using H m(2) 1 nth_mem by metis
      next
        case 2
        have "?l ! length a = CHR '':''" unfolding m(1) by (simp add: nth_append)
        moreover have "take (length nm) ?l ! length a = ?l ! length a" by (rule nth_take[OF 2])
        moreover have "length a < length (take (length nm) ?l)" unfolding length_take min_less_iff_conj using 2 H by linarith
        ultimately show False using nc nth_mem by metis
      qed
    qed
    then show "lower a = lower nm" using H unfolding m(1) by simp
  next
    assume "lower a = lower nm"
    moreover from this have "length nm = length a" using length_lower by metis
    ultimately show "length ?l > length nm \<and> ?l ! length nm = CHR '':'' \<and> lower (take (length nm) ?l) = lower nm"
      unfolding m(1) by (simp add: nth_append)
  qed
  moreover have "rtrim_space (skip_space (drop (length nm + 1) ?l)) = trim b" if "lower a = lower nm"
  proof -
    have "length nm = length a" using that length_lower by metis
    then show ?thesis unfolding m(1) using trim_crlf[of b] by (simp add: trim_def)
  qed
  ultimately show ?thesis unfolding header_value_def f by auto
next
  case False
  have "\<not> (length (m @ [CR, LF]) > length nm \<and> (m @ [CR, LF]) ! length nm = CHR '':'')"
  proof
    assume "length (m @ [CR, LF]) > length nm \<and> (m @ [CR, LF]) ! length nm = CHR '':''"
    then have "CHR '':'' \<in> set (m @ [CR, LF])" by (metis nth_mem)
    then show False using False by simp
  qed
  then show ?thesis using False by (auto simp: header_value_def field_def)
qed

lemma locate_loop_field:
  assumes "CHR '':'' \<notin> set nm"
  shows "map_option snd (locate_loop nm (map (\<lambda>m. m @ [CR, LF]) ls) i) = map_of (List.map_filter field ls) (lower nm)"
proof (induction ls arbitrary: i)
  case (Cons m ls)
  then show ?case using header_value_field[OF assms, of m]
    by (auto simp: map_filter_simps split: option.splits prod.splits)
qed (simp add: map_filter_simps)

text \<open>
  C19. Looking a header up in the head of a response, whose lines end in \<open>CR LF\<close> and may be
  continued on lines that begin with a blank, gives the trimmed value of the first field
  with the name, in any case, and nothing exactly when there is none; the status line is not
  searched.
\<close>

theorem resp_header_lookup:
  assumes "\<forall>l\<in>set (status # ls). good_line l" "CHR '':'' \<notin> set nm"
  shows "resp_header_strdup (resp_new (crlf_lines (status # ls) @ [CR, LF] @ body)) nm =
    Some (map_of (List.map_filter field (tl (unfold_lines (status # ls)))) (lower nm))"
proof -
  let ?h = "crlf_lines (status # ls) @ [CR, LF] @ body"
  have "?h \<noteq> []" by simp
  then have r: "resp_lines (resp_new ?h) = Some (map (\<lambda>m. m @ [CR, LF]) (unfold_lines (status # ls)))"
    using resp_split_lines[OF assms(1), of body] by (simp add: resp_new_def)
  have "drop 1 (map (\<lambda>m. m @ [CR, LF]) (unfold_lines (status # ls))) = map (\<lambda>m. m @ [CR, LF]) (tl (unfold_lines (status # ls)))"
    by (simp add: drop_Suc)
  then show ?thesis
    using r locate_loop_field[OF assms(2), of "tl (unfold_lines (status # ls))" 1]
    by (simp add: resp_header_strdup_def resp_header_get_def resp_header_locate_def Let_def)
qed

theorem resp_header_lookup_witness:
  "resp_header_strdup (resp_new (crlf_lines [''HTTP/1.1 200 OK'', ''Content-Type: text/html;'', '' charset=x'', ''A:b''] @ [CR, LF] @ ''body''))
     ''content-type'' = Some (Some ''text/html;   charset=x'')"
proof -
  let ?ls = "[''Content-Type: text/html;'', '' charset=x'', ''A:b'']"
  have g: "\<forall>l\<in>set (''HTTP/1.1 200 OK'' # ?ls). good_line l" by code_simp
  have n: "CHR '':'' \<notin> set ''content-type''" by code_simp
  have "map_of (List.map_filter field (tl (unfold_lines (''HTTP/1.1 200 OK'' # ?ls)))) (lower ''content-type'') = Some ''text/html;   charset=x''"
    by code_simp
  then show ?thesis using resp_header_lookup[OF g n, of "''body''"] by simp
qed

subsection \<open>Content-Range\<close>

lemma digit_value_range: "c_isdigit c \<Longrightarrow> 0 \<le> digit_value c \<and> digit_value c \<le> 9"
  by (auto simp: digit_value_def c_isdigit_def)

lemma scan_wgint_nonneg: "scan_wgint s n = Some (m, r) \<Longrightarrow> 0 \<le> n \<Longrightarrow> 0 \<le> m \<and> in_int64 m \<or> m = n"
proof (induction s n rule: scan_wgint.induct)
  case (2 c s n)
  show ?case
  proof (cases "c_isdigit c")
    case True
    then have "0 \<le> 10 * n + digit_value c" using 2 digit_value_range by auto
    then show ?thesis using 2 True by (auto simp: Let_def split: if_splits)
  qed (use 2 in simp)
qed simp

lemma digits_value_foldl: "foldl (\<lambda>a c. 10 * a + (int (byte c) - 48)) n ds = n * 10 ^ length ds + digits_value ds"
proof (induction ds rule: rev_induct)
  case (snoc c ds)
  then show ?case by (simp add: digits_value_append algebra_simps)
qed (simp add: digits_value_def)

lemma digits_value_nonneg: "\<forall>c\<in>set ds. c_isdigit c \<Longrightarrow> 0 \<le> digits_value ds"
  by (induction ds rule: rev_induct) (auto simp: digits_value_append c_isdigit_def digits_value_def[of "[]"])

lemma scan_wgint_digits:
  assumes "\<forall>c\<in>set ds. c_isdigit c" "r = [] \<or> \<not> c_isdigit (hd r)" "0 \<le> n" "n * 10 ^ length ds + digits_value ds < 2 ^ 63"
  shows "scan_wgint (ds @ r) n = Some (n * 10 ^ length ds + digits_value ds, r)"
  using assms
proof (induction ds arbitrary: n)
  case Nil
  then show ?case by (cases r) (auto simp: digits_value_def)
next
  case (Cons c ds)
  have v: "digits_value (c # ds) = digit_value c * 10 ^ length ds + digits_value ds"
    using digits_value_foldl[of "digit_value c" ds] by (simp add: digits_value_def digit_value_def)
  have dv: "0 \<le> digit_value c" using digit_value_range Cons.prems(1) by simp
  have e: "(10 * n + digit_value c) * 10 ^ length ds + digits_value ds = n * 10 ^ length (c # ds) + digits_value (c # ds)"
    unfolding v by (simp add: algebra_simps)
  have nn: "0 \<le> digits_value ds" using digits_value_nonneg Cons.prems(1) by simp
  have "10 * n + digit_value c \<le> (10 * n + digit_value c) * 10 ^ length ds"
    using Cons.prems(3) dv by (simp add: mult_le_cancel_left1)
  also have "\<dots> \<le> (10 * n + digit_value c) * 10 ^ length ds + digits_value ds" using nn by simp
  also have "\<dots> < 2 ^ 63" unfolding e by (rule Cons.prems(4))
  finally have "in_int64 (10 * n + digit_value c)" using Cons.prems(3) dv by (simp add: in_int64_def)
  moreover have "scan_wgint (ds @ r) (10 * n + digit_value c) = Some ((10 * n + digit_value c) * 10 ^ length ds + digits_value ds, r)"
    using Cons.prems Cons.IH[of "10 * n + digit_value c"] dv e by simp
  ultimately show ?case using Cons.prems(1) e by (simp add: Let_def)
qed

definition range_text :: "nat \<Rightarrow> nat \<Rightarrow> nat option \<Rightarrow> string" where
  "range_text a b n = ''bytes '' @ print_nat a @ ''-'' @ print_nat b @ ''/'' @ (case n of None \<Rightarrow> ''*'' | Some n \<Rightarrow> print_nat n)"

lemma scan_print_nat:
  assumes "n < 2 ^ 63" "r = [] \<or> \<not> c_isdigit (hd r)"
  shows "scan_wgint (print_nat n @ r) 0 = Some (int n, r)"
  using scan_wgint_digits[OF print_nat_digits assms(2), of 0 n] assms(1) by (simp flip: of_nat_less_iff)

lemma print_nat_Cons:
  obtains d ds where "print_nat n = d # ds" "c_isdigit d"
  using print_nat_digits[of n] by (cases "print_nat n") auto

lemma parse_content_range_sound:
  assumes "parse_content_range h = Some (Some (a, b, n))"
  shows "0 \<le> a \<and> a \<le> b \<and> (n = -1 \<or> b < n)"
proof -
  have nn: "0 \<le> m" if "scan_wgint s 0 = Some (m, r)" for s m r using scan_wgint_nonneg[OF that] by auto
  show ?thesis
    using assms nn unfolding parse_content_range_def
    by (auto simp: bind_eq_Some_conv split: option.splits if_splits dest!: nn)
qed

text \<open>
  A \<open>Content-Range\<close> header is read as it was written: a range printed with the unit, with
  or without a length, gives back its numbers when the range is not empty and lies within the
  length, and is refused otherwise; whatever is accepted is such a range.
\<close>

theorem content_range_roundtrip:
  assumes "a < 2 ^ 63" "b < 2 ^ 63" "case n of None \<Rightarrow> True | Some n \<Rightarrow> n < 2 ^ 63"
  shows "parse_content_range (range_text a b n) =
    Some (if a \<le> b \<and> (case n of None \<Rightarrow> True | Some n \<Rightarrow> b < n)
          then Some (int a, int b, case n of None \<Rightarrow> -1 | Some n \<Rightarrow> int n) else None) \<and>
    (\<forall>h f l e. parse_content_range h = Some (Some (f, l, e)) \<longrightarrow> 0 \<le> f \<and> f \<le> l \<and> (e = -1 \<or> l < e))"
proof
  let ?e = "case n of None \<Rightarrow> ''*'' | Some n \<Rightarrow> print_nat n"
  let ?h = "print_nat a @ CHR ''-'' # print_nat b @ CHR ''/'' # ?e"
  have nd: "\<not> c_isdigit (CHR ''-'')" "\<not> c_isdigit (CHR ''/'')" "\<not> c_isdigit (CHR ''*'')" by code_simp+
  obtain d ds where d: "print_nat a = d # ds" "c_isdigit d" by (rule print_nat_Cons)
  obtain d' ds' where d': "print_nat b = d' # ds'" "c_isdigit d'" by (rule print_nat_Cons)
  have "\<not> c_isspace d" using d(2) by (auto simp: c_isdigit_def c_isspace_def)
  then have "skip_space (CHR '' '' # ?h) = ?h" using d(1) by (simp add: skip_space_def c_isspace_def)
  moreover have "lower ''bytes'' = ''bytes''" by code_simp
  ultimately have u: "skip_bytes_unit (range_text a b n) = Some ?h"
    using d(1) by (simp add: skip_bytes_unit_def range_text_def)
  have s1: "scan_wgint ?h 0 = Some (int a, CHR ''-'' # print_nat b @ CHR ''/'' # ?e)"
    using scan_print_nat[OF assms(1)] nd by simp
  have s2: "scan_wgint (print_nat b @ CHR ''/'' # ?e) 0 = Some (int b, CHR ''/'' # ?e)"
    using scan_print_nat[OF assms(2)] nd by simp
  have dh: "c_isdigit (deref ?h 0)" "c_isdigit (deref (CHR ''-'' # print_nat b @ CHR ''/'' # ?e) 1)"
    using d d' by simp_all
  show "parse_content_range (range_text a b n) = Some (if a \<le> b \<and> (case n of None \<Rightarrow> True | Some n \<Rightarrow> b < n)
      then Some (int a, int b, case n of None \<Rightarrow> -1 | Some n \<Rightarrow> int n) else None)"
  proof (cases n)
    case None
    then show ?thesis using s1 s2 dh u nd unfolding parse_content_range_def by simp
  next
    case (Some k)
    obtain e es where e: "print_nat k = e # es" "c_isdigit e" by (rule print_nat_Cons)
    then have "e \<noteq> CHR ''*''" using nd by auto
    moreover have "scan_wgint (print_nat k) 0 = Some (int k, [])" using scan_print_nat[of k "[]"] assms(3) Some by simp
    ultimately show ?thesis using s1 s2 dh u e Some unfolding parse_content_range_def by simp
  qed
qed (use parse_content_range_sound in blast)

theorem content_range_roundtrip_witness:
  "parse_content_range (range_text 5 9 (Some 10)) = Some (Some (5, 9, 10)) \<and>
   parse_content_range (range_text 5 9 (Some 9)) = Some None"
  using content_range_roundtrip[of 5 9 "Some 10"] content_range_roundtrip[of 5 9 "Some 9"] by simp

text \<open>
  Numbers that do not fit into 64 bits overflow the signed arithmetic of the scanner.
\<close>

theorem content_range_overflows:
  "parse_content_range ''bytes 0-9223372036854775808/*'' = None"
  by code_simp

subsection \<open>The status line\<close>

text \<open>
  The status line is read as it was written: for a version of digits and a code of three
  digits the status is the number and the message the trimmed rest; no status outside of 0 to
  999 is ever reported.
\<close>

theorem resp_status_correct:
  assumes "\<forall>c\<in>set major. c_isdigit c" "\<forall>c\<in>set minor. c_isdigit c" "\<forall>c\<in>set [d1, d2, d3]. c_isdigit c"
    and "good_line (''HTTP/'' @ major @ ''.'' @ minor @ '' '' @ [d1, d2, d3] @ msg)" "\<forall>l\<in>set ls. good_line l"
    and "\<forall>l\<in>set ls. \<not> starts_blank l"
  shows "resp_status (resp_new (crlf_lines ((''HTTP/'' @ major @ ''.'' @ minor @ '' '' @ [d1, d2, d3] @ msg) # ls) @ [CR, LF] @ body)) =
    Some (100 * digit_value d1 + 10 * digit_value d2 + digit_value d3, trim msg) \<and>
    (\<forall>r st m. resp_status r = Some (st, m) \<longrightarrow> 0 \<le> st \<and> st \<le> 999)"
proof
  let ?s = "''HTTP/'' @ major @ ''.'' @ minor @ '' '' @ [d1, d2, d3] @ msg"
  let ?h = "crlf_lines (?s # ls) @ [CR, LF] @ body"
  have "take_continuations ?s ls = (?s, ls)" using assms(6) by (cases ls) auto
  then have "unfold_lines (?s # ls) = ?s # unfold_lines ls" by simp
  moreover have "\<forall>l\<in>set (?s # ls). good_line l" using assms(4,5) by simp
  moreover have "?h \<noteq> []" by simp
  ultimately have r: "resp_lines (resp_new ?h) = Some ((?s @ [CR, LF]) # map (\<lambda>m. m @ [CR, LF]) (unfold_lines ls))"
    using resp_split_lines[of "?s # ls" body] unfolding resp_new_def by simp
  have nd: "\<not> c_isdigit (CHR ''.'')" "\<not> c_isdigit (CHR '' '')" by code_simp+
  have dw: "dropWhile c_isdigit (x @ y) = y" if "\<forall>c\<in>set x. c_isdigit c" "y \<noteq> []" "\<not> c_isdigit (hd y)" for x y
    using that by (cases y) (auto simp: dropWhile_append2)
  have "skip_version (CHR ''/'' # major @ CHR ''.'' # minor @ CHR '' '' # d1 # d2 # d3 # msg @ [CR, LF]) = CHR '' '' # d1 # d2 # d3 # msg @ [CR, LF]"
    using dw[OF assms(1), of "CHR ''.'' # minor @ CHR '' '' # d1 # d2 # d3 # msg @ [CR, LF]"]
      dw[OF assms(2), of "CHR '' '' # d1 # d2 # d3 # msg @ [CR, LF]"] nd by (simp add: skip_version_def)
  moreover have "\<not> c_isspace d1" using assms(3) by (auto simp: c_isdigit_def c_isspace_def)
  ultimately have "skip_space (skip_version (drop 4 (?s @ [CR, LF]))) = d1 # d2 # d3 # msg @ [CR, LF]"
    by (simp add: skip_space_def c_isspace_def)
  then show "resp_status (resp_new ?h) = Some (100 * digit_value d1 + 10 * digit_value d2 + digit_value d3, trim msg)"
    using assms(3) trim_crlf[of msg] r by (simp add: resp_status_def Let_def trim_def numeral_3_eq_3 numeral_2_eq_2)
next
  have "100 * digit_value a + 10 * digit_value b + digit_value c \<in> {0..999}" if "c_isdigit a" "c_isdigit b" "c_isdigit c" for a b c
    using that[THEN digit_value_range] by auto
  then show "\<forall>r st m. resp_status r = Some (st, m) \<longrightarrow> 0 \<le> st \<and> st \<le> 999"
    by (auto simp: resp_status_def Let_def split: option.splits list.splits if_splits)
qed

theorem resp_status_correct_witness:
  "resp_status (resp_new (crlf_lines [''HTTP/1.1 404 Not Found'', ''A: b''] @ [CR, LF])) = Some (404, ''Not Found'')"
proof -
  have g: "good_line (''HTTP/'' @ ''1'' @ ''.'' @ ''1'' @ '' '' @ ''404'' @ '' Not Found'')" "\<forall>l\<in>set [''A: b'']. good_line l"
    "\<forall>l\<in>set [''A: b'']. \<not> starts_blank l" by code_simp+
  have d: "\<forall>c\<in>set ''1''. c_isdigit c" "\<forall>c\<in>set ''404''. c_isdigit c" by code_simp+
  have "trim '' Not Found'' = ''Not Found''" "100 * digit_value (CHR ''4'') + 10 * digit_value (CHR ''0'') + digit_value (CHR ''4'') = 404"
    by code_simp+
  then show ?thesis using resp_status_correct[OF d(1) d(1) d(2) g, of "[]"] by simp
qed

subsection \<open>Basic authentication\<close>

fun register_all :: "authed_hosts \<Rightarrow> string list \<Rightarrow> authed_hosts run" where
  "register_all st [] = Some st"
| "register_all st (h # hs) = do { st \<leftarrow> register_basic_auth_host st h; register_all st hs }"

definition authed_inv :: "authed_hosts \<Rightarrow> string set \<Rightarrow> bool" where
  "authed_inv st A \<longleftrightarrow>
     (case st of None \<Rightarrow> A = {}
      | Some ht \<Rightarrow> ht_inv hash_string_nocase string_cmp_nocase ht \<and> (\<forall>h. ht_find ht h \<noteq> None \<longleftrightarrow> lower h \<in> A))"

definition authed_count :: "authed_hosts \<Rightarrow> nat" where
  "authed_count st = (case st of None \<Rightarrow> 0 | Some ht \<Rightarrow> ht_count ht)"

lemma basic_register_ok:
  assumes "authed_inv st A" "authed_count st < 805306367"
  obtains st' where "register_basic_auth_host st h = Some st'" "authed_inv st' (insert (lower h) A)"
    "authed_count st' \<le> Suc (authed_count st)"
proof -
  obtain ht :: "(string, unit) hash_table" where ht:
      "(case st of None \<Rightarrow> make_nocase_string_hash_table 1 | Some ht \<Rightarrow> Some ht) = Some ht"
      "ht_inv hash_string_nocase string_cmp_nocase ht" "ht_count ht = authed_count st" "\<And>h. ht_find ht h \<noteq> None \<longleftrightarrow> lower h \<in> A"
  proof (cases st)
    case None
    obtain ht :: "(string, unit) hash_table" where n: "hash_table_new 1 hash_string_nocase string_cmp_nocase = Some ht"
      by (auto simp: hash_table_new_def prime_size_def primes_def)
    note N = nocase_keys.new_ok[OF n]
    have "ht_find ht k = None" for k using N(2) by (simp add: ht_find_def)
    then show thesis using None n N assms
      by (intro that[of ht]) (auto simp: make_nocase_string_hash_table_def authed_inv_def authed_count_def ht_inv_def)
  qed (use assms that in \<open>auto simp: authed_inv_def authed_count_def\<close>)
  have eq: "string_cmp_nocase a b \<longleftrightarrow> lower a = lower b" for a b by (simp add: string_cmp_nocase_def strcaseeq_def)
  show thesis
  proof (cases "ht_find ht h")
    case None
    obtain ht' where put: "hash_table_put ht h () = Some ht'" using nocase_keys.put_total[OF ht(2)] ht(3) assms(2) by auto
    note P = nocase_keys.put_ok[OF ht(2) put]
    show thesis
      by (rule that[of "Some ht'"])
        (use ht put None P in \<open>auto simp: register_basic_auth_host_def nocase_keys.contains_ok authed_inv_def authed_count_def eq\<close>)
  next
    case (Some kv)
    have "lower h \<in> A" using ht(4)[of h] Some by simp
    then show thesis
      by (intro that[of "Some ht"])
        (use ht Some in \<open>auto simp: register_basic_auth_host_def nocase_keys.contains_ok authed_inv_def authed_count_def insert_absorb\<close>)
  qed
qed

lemma register_all_ok:
  assumes "authed_inv st A" "authed_count st + length hs < 805306367"
  obtains st' where "register_all st hs = Some st'" "authed_inv st' (A \<union> lower ` set hs)"
  using assms
proof (induction hs arbitrary: st A thesis)
  case (Cons h hs)
  obtain st1 where s: "register_basic_auth_host st h = Some st1" "authed_inv st1 (insert (lower h) A)" "authed_count st1 \<le> Suc (authed_count st)"
    using basic_register_ok[OF Cons.prems(2)] Cons.prems(3) by (metis add_lessD1)
  show ?case
  proof (rule Cons.IH[OF _ s(2)])
    show "authed_count st1 + length hs < 805306367" using s(3) Cons.prems(3) by simp
    fix st' assume "register_all st1 hs = Some st'" "authed_inv st' (insert (lower h) A \<union> lower ` set hs)"
    then show thesis using Cons.prems(1)[of st'] s(1) by simp
  qed
qed auto

text \<open>
  C7. Credentials are sent to exactly the hosts that have issued a challenge, in any case of
  their names (or to all when the user asked for it): for any other host the request is left
  as it is, and for these the header carries a text that decodes to user name and password.
\<close>

theorem basic_credentials_confined:
  assumes "length hosts < 805306367"
  shows "\<exists>st. register_all None hosts = Some st \<and>
    (let send = (always \<or> lower h \<in> lower ` set hosts) in
     \<exists>req'. maybe_send_basic_creds always st h user passwd req = Some (send, req') \<and>
       (\<not> send \<longrightarrow> req' = req) \<and>
       (send \<longrightarrow> (\<exists>e. header_lookup (rq_headers req') ''Authorization'' = Some (''Basic '' @ e) \<and>
          wget_base64_decode e = Some (map byte (user @ '':'' @ passwd)))))"
proof -
  have "authed_inv None {}" "authed_count None + length hosts < 805306367" using assms by (simp_all add: authed_inv_def authed_count_def)
  then obtain st where st: "register_all None hosts = Some st" "authed_inv st ({} \<union> lower ` set hosts)"
    by (rule register_all_ok)
  have c: "(case st of None \<Rightarrow> Some False | Some ht \<Rightarrow> hash_table_contains ht h) = Some (lower h \<in> lower ` set hosts)"
    using st(2) by (cases st) (auto simp: authed_inv_def nocase_keys.contains_ok)
  have d: "wget_base64_decode (wget_base64_encode (map byte (user @ '':'' @ passwd))) = Some (map byte (user @ '':'' @ passwd))"
    by (rule base64_roundtrip_aux) auto
  show ?thesis
    using st(1) c d
    by (auto simp: maybe_send_basic_creds_def Let_def request_set_header_def lookup_replace basic_authentication_encode_def)
qed

theorem basic_credentials_confined_witness:
  "\<exists>st req. register_all None [''Host.example''] = Some st \<and>
     maybe_send_basic_creds False st ''HOST.example'' ''u'' ''p'' (request_new ''GET'' ''/'') = Some (True, req) \<and>
     maybe_send_basic_creds False st ''other.example'' ''u'' ''p'' (request_new ''GET'' ''/'') = Some (False, request_new ''GET'' ''/'')"
proof -
  have l: "lower ''HOST.example'' = lower ''Host.example''" "lower ''other.example'' \<noteq> lower ''Host.example''" by code_simp+
  have s: "length [''Host.example''] < 805306367" by simp
  show ?thesis
    using basic_credentials_confined[OF s, of False "''HOST.example''" "''u''" "''p''" "request_new ''GET'' ''/''"]
      basic_credentials_confined[OF s, of False "''other.example''" "''u''" "''p''" "request_new ''GET'' ''/''"] l
    by (auto simp: Let_def)
qed

end
