(* ===== verification/Wget_Url_Escape.thy ===== *)
theory Wget_Url_Escape
  imports C_Prelude
begin

section \<open>Escaping and unescaping of URLs (wget/src/url.c)\<close>

text \<open>
  The character table \<open>urlchr_table\<close>, the in-place decoder \<open>url_unescape_1\<close>, the encoder
  \<open>url_escape_1\<close> and the normaliser \<open>reencode_escapes\<close> of \<open>url.c\<close>, with the functions that
  call them. The encoders end in an \<open>assert\<close> on the length computed by their first pass;
  a failing assertion is \<^term>\<open>None\<close>. The theorems show that it never fails, that decoding
  undoes encoding, and that \<open>reencode_escapes\<close> is stable, as its comment promises.
\<close>

unbundle bit_operations_syntax

subsection \<open>The character table\<close>

definition urlchr_reserved :: nat where
  "urlchr_reserved = 1"

definition urlchr_unsafe :: nat where
  "urlchr_unsafe = 2"

definition urlchr_table :: "nat list" where
  "urlchr_table = (let R = urlchr_reserved; U = urlchr_unsafe; RU = R OR U in [
     U,  U,  U,  U,   U,  U,  U,  U,
     U,  U,  U,  U,   U,  U,  U,  U,
     U,  U,  U,  U,   U,  U,  U,  U,
     U,  U,  U,  U,   U,  U,  U,  U,
     U,  0,  U, RU,   R,  U,  R,  0,
     0,  0,  0,  R,   R,  0,  0,  R,
     0,  0,  0,  0,   0,  0,  0,  0,
     0,  0, RU,  R,   U,  R,  U,  R,
    RU,  0,  0,  0,   0,  0,  0,  0,
     0,  0,  0,  0,   0,  0,  0,  0,
     0,  0,  0,  0,   0,  0,  0,  0,
     0,  0,  0, RU,   U, RU,  U,  0,
     U,  0,  0,  0,   0,  0,  0,  0,
     0,  0,  0,  0,   0,  0,  0,  0,
     0,  0,  0,  0,   0,  0,  0,  0,
     0,  0,  0,  U,   U,  U,  0,  U] @ replicate 128 U)"

definition urlchr_test :: "char \<Rightarrow> nat \<Rightarrow> bool" where
  "urlchr_test c msk \<longleftrightarrow> urlchr_table ! byte c AND msk \<noteq> 0"

definition URL_RESERVED_CHAR :: "char \<Rightarrow> bool" where
  "URL_RESERVED_CHAR c \<longleftrightarrow> urlchr_test c urlchr_reserved"

definition URL_UNSAFE_CHAR :: "char \<Rightarrow> bool" where
  "URL_UNSAFE_CHAR c \<longleftrightarrow> urlchr_test c urlchr_unsafe"

subsection \<open>Decoding\<close>

fun url_unescape_1 :: "string \<Rightarrow> nat \<Rightarrow> string" where
  \<comment> \<open>the hare reads the argument, the result is what the tortoise leaves behind\<close>
  "url_unescape_1 [] msk = []"
| "url_unescape_1 (h # hs) msk =
     (if h \<noteq> CHR ''%'' then h # url_unescape_1 hs msk
      else if deref hs 0 = NUL \<or> deref hs 1 = NUL \<or> \<not> (c_isxdigit (deref hs 0) \<and> c_isxdigit (deref hs 1))
        then h # url_unescape_1 hs msk
      else let c = char_of (X2DIGITS_TO_NUM (deref hs 0) (deref hs 1)) in
        if urlchr_test c msk then h # url_unescape_1 hs msk
        else if c = NUL then h # url_unescape_1 hs msk
        else c # url_unescape_1 (drop 2 hs) msk)"

definition url_unescape :: "string \<Rightarrow> string" where
  "url_unescape s = url_unescape_1 s 0"

definition url_unescape_except_reserved :: "string \<Rightarrow> string" where
  "url_unescape_except_reserved s = url_unescape_1 s urlchr_reserved"

subsection \<open>Encoding\<close>

definition percent_encode :: "char \<Rightarrow> string" where
  \<comment> \<open>the three stores \<open>'%'\<close>, \<open>XNUM_TO_DIGIT (c >> 4)\<close>, \<open>XNUM_TO_DIGIT (c & 0xf)\<close>\<close>
  "percent_encode c = [CHR ''%'', XNUM_TO_DIGIT (byte c div 16), XNUM_TO_DIGIT (byte c mod 16)]"

fun url_escape_loop :: "string \<Rightarrow> nat \<Rightarrow> string" where
  "url_escape_loop [] msk = []"
| "url_escape_loop (c # p1) msk =
     (if urlchr_test c msk then percent_encode c @ url_escape_loop p1 msk
      else c # url_escape_loop p1 msk)"

definition url_escape_1 :: "string \<Rightarrow> nat \<Rightarrow> string run" where
  \<comment> \<open>the result is the same string whether or not it may be passed through\<close>
  "url_escape_1 s msk =
     (let addition = 2 * length (filter (\<lambda>c. urlchr_test c msk) s) in
      if addition = 0 then Some s
      else let newlen = length s + addition; newstr = url_escape_loop s msk in
        if length newstr = newlen then Some newstr else None)"

definition url_escape :: "string \<Rightarrow> string run" where
  "url_escape s = url_escape_1 s urlchr_unsafe"

definition url_escape_unsafe_and_reserved :: "string \<Rightarrow> string run" where
  "url_escape_unsafe_and_reserved s = url_escape_1 s (urlchr_unsafe OR urlchr_reserved)"

definition url_escape_allow_passthrough :: "string \<Rightarrow> string run" where
  "url_escape_allow_passthrough s = url_escape_1 s urlchr_unsafe"

subsection \<open>Normalising an escaped string\<close>

definition char_needs_escaping :: "string \<Rightarrow> bool" where
  "char_needs_escaping p \<longleftrightarrow>
     (if deref p 0 = CHR ''%''
      then \<not> (c_isxdigit (deref p 1) \<and> c_isxdigit (deref p 2))
      else URL_UNSAFE_CHAR (deref p 0) \<and> \<not> URL_RESERVED_CHAR (deref p 0))"

fun encode_count :: "string \<Rightarrow> nat" where
  "encode_count [] = 0"
| "encode_count (c # p1) = (if char_needs_escaping (c # p1) then 1 else 0) + encode_count p1"

fun reencode_loop :: "string \<Rightarrow> string" where
  "reencode_loop [] = []"
| "reencode_loop (c # p1) =
     (if char_needs_escaping (c # p1) then percent_encode c @ reencode_loop p1
      else c # reencode_loop p1)"

definition reencode_escapes :: "string \<Rightarrow> string run" where
  "reencode_escapes s =
     (if encode_count s = 0 then Some s
      else let newlen = length s + 2 * encode_count s; newstr = reencode_loop s in
        if length newstr = newlen then Some newstr else None)"

subsection \<open>Escaping for FTP paths\<close>

fun unescape_single_char :: "string \<Rightarrow> char \<Rightarrow> string" where
  "unescape_single_char [] chr = []"
| "unescape_single_char (h # hs) chr =
     (if h = CHR ''%'' \<and> deref hs 0 = XNUM_TO_DIGIT (byte chr div 16)
         \<and> deref hs 1 = XNUM_TO_DIGIT (byte chr mod 16)
      then chr # unescape_single_char (drop 2 hs) chr
      else h # unescape_single_char hs chr)"

definition url_escape_dir :: "string \<Rightarrow> string run" where
  "url_escape_dir dir = do {
     newdir \<leftarrow> url_escape_1 dir (urlchr_unsafe OR urlchr_reserved);
     Some (if \<not> list_ex (\<lambda>c. urlchr_test c (urlchr_unsafe OR urlchr_reserved)) dir then dir
           else unescape_single_char newdir (CHR ''/'')) }"

subsection \<open>Facts about the table\<close>


lemma reserved_row:
  "map (\<lambda>x. x AND 1 \<noteq> 0) urlchr_table =
   map (\<lambda>n. n \<in> set [35, 36, 38, 43, 44, 47, 58, 59, 61, 63, 64, 91, 93]) [0..<256]"
  by code_simp

lemma unsafe_row:
  "map (\<lambda>x. x AND 2 \<noteq> 0) urlchr_table =
   map (\<lambda>n. n \<le> 32 \<or> 127 \<le> n \<or>
     n \<in> set [34, 35, 37, 58, 60, 62, 64, 91, 92, 93, 94, 96, 123, 124, 125]) [0..<256]"
  by code_simp

lemma both_row:
  "map (\<lambda>x. x AND 3 \<noteq> 0) urlchr_table = map (\<lambda>x. x AND 1 \<noteq> 0 \<or> x AND 2 \<noteq> 0) urlchr_table"
  by code_simp

lemma length_urlchr_table [simp]: "length urlchr_table = 256"
  by (simp add: urlchr_table_def Let_def)

lemma row_nth:
  assumes "map f urlchr_table = map g [0..<256]"
  shows "f (urlchr_table ! byte c) = g (byte c)"
proof -
  have "map f urlchr_table ! byte c = map g [0..<256] ! byte c" using assms by simp
  then show ?thesis using byte_less_256[of c] by simp
qed

lemma URL_RESERVED_CHAR_iff:
  "URL_RESERVED_CHAR c \<longleftrightarrow> byte c \<in> {35, 36, 38, 43, 44, 47, 58, 59, 61, 63, 64, 91, 93}"
  using row_nth[OF reserved_row, of c]
  by (simp add: URL_RESERVED_CHAR_def urlchr_test_def urlchr_reserved_def)

lemma URL_UNSAFE_CHAR_iff:
  "URL_UNSAFE_CHAR c \<longleftrightarrow> byte c \<le> 32 \<or> 127 \<le> byte c \<or>
     byte c \<in> {34, 35, 37, 58, 60, 62, 64, 91, 92, 93, 94, 96, 123, 124, 125}"
  using row_nth[OF unsafe_row, of c]
  by (simp add: URL_UNSAFE_CHAR_def urlchr_test_def urlchr_unsafe_def)

lemma urlchr_test_0 [simp]: "\<not> urlchr_test c 0"
  by (simp add: urlchr_test_def)

lemma urlchr_test_both: "urlchr_test c 3 \<longleftrightarrow> URL_RESERVED_CHAR c \<or> URL_UNSAFE_CHAR c"
proof -
  have "map (\<lambda>x. x AND 3 \<noteq> 0) urlchr_table ! byte c =
      map (\<lambda>x. x AND 1 \<noteq> 0 \<or> x AND 2 \<noteq> 0) urlchr_table ! byte c" by (simp only: both_row)
  then show ?thesis using byte_less_256[of c]
    by (simp add: urlchr_test_def URL_RESERVED_CHAR_def URL_UNSAFE_CHAR_def
        urlchr_reserved_def urlchr_unsafe_def)
qed

lemma mask_both [simp]: "urlchr_unsafe OR urlchr_reserved = 3"
  by (simp add: urlchr_unsafe_def urlchr_reserved_def)

lemma percent_test:
  "URL_UNSAFE_CHAR (CHR ''%'')" "\<not> URL_RESERVED_CHAR (CHR ''%'')" "urlchr_test (CHR ''%'') 3"
  by (simp_all add: urlchr_test_both URL_UNSAFE_CHAR_iff URL_RESERVED_CHAR_iff)

lemma xdigit_safe: "c_isxdigit c \<Longrightarrow> \<not> URL_UNSAFE_CHAR c \<and> \<not> URL_RESERVED_CHAR c \<and> c \<noteq> NUL \<and> c \<noteq> CHR ''%''"
  by (auto simp: URL_UNSAFE_CHAR_iff URL_RESERVED_CHAR_iff c_isxdigit_def c_isdigit_def)

subsection \<open>Hexadecimal digits\<close>

lemma hex_row:
  "list_all (\<lambda>x. c_isxdigit (XNUM_TO_DIGIT x) \<and> unhex (XNUM_TO_DIGIT x) = x) [0..<16]"
  by code_simp

lemma hex_digit:
  assumes "x < 16"
  shows "c_isxdigit (XNUM_TO_DIGIT x)" "unhex (XNUM_TO_DIGIT x) = x"
  using hex_row assms by (auto simp: list_all_iff)

lemma hex_byte:
  "c_isxdigit (XNUM_TO_DIGIT (byte c div 16))" "c_isxdigit (XNUM_TO_DIGIT (byte c mod 16))"
  "X2DIGITS_TO_NUM (XNUM_TO_DIGIT (byte c div 16)) (XNUM_TO_DIGIT (byte c mod 16)) = byte c"
proof -
  have "byte c div 16 < 16" by (rule less_mult_imp_div_less) (simp add: nat_of_char_less_256)
  then show "c_isxdigit (XNUM_TO_DIGIT (byte c div 16))"
    "X2DIGITS_TO_NUM (XNUM_TO_DIGIT (byte c div 16)) (XNUM_TO_DIGIT (byte c mod 16)) = byte c"
    using hex_digit[of "byte c div 16"] hex_digit[of "byte c mod 16"]
    by (simp_all add: X2DIGITS_TO_NUM_def)
  show "c_isxdigit (XNUM_TO_DIGIT (byte c mod 16))" by (rule hex_digit(1)) simp
qed

lemma hex_byte_not_NUL:
  "XNUM_TO_DIGIT (byte c div 16) \<noteq> NUL" "XNUM_TO_DIGIT (byte c mod 16) \<noteq> NUL"
  using hex_byte(1,2)[of c] xdigit_safe by blast+

lemma length_percent_encode [simp]: "length (percent_encode c) = 3"
  by (simp add: percent_encode_def)

lemma cstring_percent_encode [simp]: "cstring (percent_encode c)"
  by (simp add: percent_encode_def hex_byte_not_NUL)

lemma unescape_percent_encode:
  "\<not> urlchr_test c msk \<Longrightarrow> c \<noteq> NUL \<Longrightarrow> url_unescape_1 (percent_encode c @ s) msk = c # url_unescape_1 s msk"
  by (simp add: percent_encode_def hex_byte hex_byte_not_NUL)

declare url_unescape_1.simps(2) [simp del]

lemma unescape_plain [simp]: "h \<noteq> CHR ''%'' \<Longrightarrow> url_unescape_1 (h # hs) msk = h # url_unescape_1 hs msk"
  by (simp add: url_unescape_1.simps)

lemma unescape_garbled:
  "\<not> (c_isxdigit (deref hs 0) \<and> c_isxdigit (deref hs 1)) \<Longrightarrow>
     url_unescape_1 (CHR ''%'' # hs) msk = CHR ''%'' # url_unescape_1 hs msk"
  by (auto simp: url_unescape_1.simps)

subsection \<open>Encoding and decoding\<close>

lemma url_escape_loop_length:
  "length (url_escape_loop s msk) = length s + 2 * length (filter (\<lambda>c. urlchr_test c msk) s)"
  by (induction s) simp_all

lemma url_escape_loop_id: "filter (\<lambda>c. urlchr_test c msk) s = [] \<Longrightarrow> url_escape_loop s msk = s"
  by (induction s) (auto split: if_splits)

lemma url_escape_1_eq [simp]: "url_escape_1 s msk = Some (url_escape_loop s msk)"
  by (simp add: url_escape_1_def Let_def url_escape_loop_length url_escape_loop_id)

lemma unescape_escape_loop:
  "cstring s \<Longrightarrow> urlchr_test (CHR ''%'') msk \<Longrightarrow> url_unescape_1 (url_escape_loop s msk) 0 = s"
proof (induction s)
  case (Cons c s)
  then show ?case by (cases "c = CHR ''%''") (auto simp: unescape_percent_encode)
qed simp

lemma cstring_unescape: "cstring s \<Longrightarrow> cstring (url_unescape_1 s msk)"
  by (induction s msk rule: url_unescape_1.induct)
    (auto simp: url_unescape_1.simps Let_def cstring_drop)

lemma length_unescape: "length (url_unescape_1 s msk) \<le> length s"
proof (induction s msk rule: url_unescape_1.induct)
  case (2 h hs msk)
  show ?case
    using 2 by (auto simp: url_unescape_1.simps(2) Let_def le_SucI intro: order_trans[OF _ diff_le_self])
qed simp

lemma escape_loop_set:
  "c \<in> set (url_escape_loop s msk) \<Longrightarrow> c = CHR ''%'' \<or> c_isxdigit c \<or> c \<in> set s \<and> \<not> urlchr_test c msk"
  by (induction s) (auto simp: percent_encode_def hex_byte split: if_splits)

subsection \<open>Normalising\<close>

lemma encode_count_0: "encode_count s = 0 \<Longrightarrow> reencode_loop s = s"
  by (induction s) (auto split: if_splits)

lemma reencode_loop_length: "length (reencode_loop s) = length s + 2 * encode_count s"
  by (induction s) simp_all

lemma reencode_escapes_eq [simp]: "reencode_escapes s = Some (reencode_loop s)"
  by (simp add: reencode_escapes_def Let_def reencode_loop_length encode_count_0)

lemma needs_escaping_xdigit: "c_isxdigit c \<Longrightarrow> \<not> char_needs_escaping (c # s)"
  using xdigit_safe by (simp add: char_needs_escaping_def)

lemma reencode_keeps_xdigits:
  assumes "c_isxdigit (deref s 0)" "c_isxdigit (deref s 1)"
  shows "reencode_loop s = [deref s 0, deref s 1] @ reencode_loop (drop 2 s)"
proof -
  have "\<not> c_isxdigit NUL" by (simp add: c_isxdigit_def c_isdigit_def)
  then obtain a b t where "s = a # b # t" using assms
    by (cases s; cases "tl s") auto
  then show ?thesis using assms needs_escaping_xdigit by simp
qed

lemma needs_escaping_cong:
  assumes "\<not> char_needs_escaping (c # s)" "c = CHR ''%'' \<Longrightarrow> deref t 0 = deref s 0 \<and> deref t 1 = deref s 1"
  shows "\<not> char_needs_escaping (c # t)"
  using assms by (auto simp: char_needs_escaping_def numeral_2_eq_2)

lemma reencode_loop_clean: "encode_count (reencode_loop s) = 0"
proof (induction s)
  case (Cons c s)
  show ?case
  proof (cases "char_needs_escaping (c # s)")
    case True
    have "\<not> char_needs_escaping (CHR ''%'' # a # b # t)" if "c_isxdigit a" "c_isxdigit b" for a b t
      using that by (simp add: char_needs_escaping_def numeral_2_eq_2)
    with True Cons show ?thesis
      by (simp add: percent_encode_def hex_byte needs_escaping_xdigit)
  next
    case False
    have "\<not> char_needs_escaping (c # reencode_loop s)"
    proof (rule needs_escaping_cong[OF False])
      assume "c = CHR ''%''"
      then show "deref (reencode_loop s) 0 = deref s 0 \<and> deref (reencode_loop s) 1 = deref s 1"
        using False reencode_keeps_xdigits[of s] by (simp add: char_needs_escaping_def numeral_2_eq_2)
    qed
    with False Cons show ?thesis by simp
  qed
qed simp

lemma unescape_reencode:
  "cstring s \<Longrightarrow> url_unescape_1 (reencode_loop s) 0 = url_unescape_1 s 0"
proof (induction s "0::nat" rule: url_unescape_1.induct)
  case (2 h hs)
  show ?case
  proof (cases "char_needs_escaping (h # hs)")
    case True
    have "url_unescape_1 (h # hs) 0 = h # url_unescape_1 hs 0"
      using True by (cases "h = CHR ''%''")
        (simp_all add: unescape_garbled char_needs_escaping_def numeral_2_eq_2)
    with True 2 show ?thesis
      by (cases "h = CHR ''%''") (auto simp: unescape_percent_encode char_needs_escaping_def numeral_2_eq_2)
  next
    case keep: False
    show ?thesis
    proof (cases "h = CHR ''%''")
      case False
      with keep 2 show ?thesis by simp
    next
      case True
      then have x: "c_isxdigit (deref hs 0)" "c_isxdigit (deref hs 1)"
        using keep by (auto simp: char_needs_escaping_def numeral_2_eq_2)
      have nz: "deref hs 0 \<noteq> NUL" "deref hs 1 \<noteq> NUL" using x xdigit_safe by blast+
      show ?thesis
        using keep True x nz 2 reencode_keeps_xdigits[OF x]
        by (auto simp: url_unescape_1.simps(2) Let_def cstring_drop)
    qed
  qed
qed simp

subsection \<open>Directories\<close>

lemma unescape_single_percent_encode:
  "unescape_single_char (percent_encode c @ s) chr =
     (if c = chr then [c] else percent_encode c) @ unescape_single_char s chr"
proof -
  let ?hi = "\<lambda>c. XNUM_TO_DIGIT (byte c div 16)" and ?lo = "\<lambda>c. XNUM_TO_DIGIT (byte c mod 16)"
  have eq: "?hi c = ?hi chr \<and> ?lo c = ?lo chr \<longleftrightarrow> c = chr"
    using hex_byte(3)[of c] hex_byte(3)[of chr] by (metis of_char_eq_iff)
  have "?hi c \<noteq> CHR ''%''" "?lo c \<noteq> CHR ''%''"
    using hex_byte(1,2)[of c] xdigit_safe by blast+
  then show ?thesis using eq by (cases "c = chr") (simp_all add: percent_encode_def)
qed

lemma unescape_single_escape_loop:
  "unescape_single_char (url_escape_loop s 3) chr =
     concat (map (\<lambda>c. if urlchr_test c 3 \<and> c \<noteq> chr then percent_encode c else [c]) s)"
proof (induction s)
  case (Cons c s)
  then show ?case using percent_test(3)
    by (cases "c = CHR ''%''") (auto simp: unescape_single_percent_encode)
qed simp

lemma url_escape_dir_eq:
  "url_escape_dir dir = Some (concat (map (\<lambda>c. if urlchr_test c 3 \<and> c \<noteq> CHR ''/'' then percent_encode c else [c]) dir))"
proof (cases "list_ex (\<lambda>c. urlchr_test c 3) dir")
  case False
  then have "concat (map (\<lambda>c. if urlchr_test c 3 \<and> c \<noteq> CHR ''/'' then percent_encode c else [c]) dir) = dir"
    by (induction dir) auto
  with False show ?thesis by (simp add: url_escape_dir_def)
qed (simp add: url_escape_dir_def unescape_single_escape_loop)

subsection \<open>Properties\<close>

text \<open>
  C23. Escaping a string with the unsafe characters, or with the unsafe and reserved ones,
  always returns (the length assertion holds), the result contains no character of the mask
  other than the percent signs of its escapes, and unescaping it gives the string back.
\<close>

theorem url_escape_roundtrip:
  assumes "cstring s" and "msk \<in> {urlchr_unsafe, urlchr_unsafe OR urlchr_reserved}"
  shows "\<exists>r. url_escape_1 s msk = Some r \<and> url_unescape r = s \<and>
    (\<forall>c\<in>set r. urlchr_test c msk \<longrightarrow> c = CHR ''%'')"
proof -
  have m: "urlchr_test (CHR ''%'') msk" and x: "\<not> urlchr_test c msk" if "c_isxdigit c" for c
    using assms(2) percent_test xdigit_safe[OF that] 
    by (auto simp: urlchr_test_both simp flip: URL_UNSAFE_CHAR_def)
  have d: "c_isxdigit (CHR ''0'')" by code_simp
  show ?thesis
    using escape_loop_set x unescape_escape_loop[OF assms(1) m[OF d]] by (auto simp: url_unescape_def)
qed

theorem url_escape_roundtrip_witness:
  "cstring ''a b/%'' \<and> (\<exists>r. url_escape_1 ''a b/%'' urlchr_unsafe = Some r \<and> url_unescape r = ''a b/%'')
   \<and> url_escape_1 ''a b/%'' urlchr_unsafe = Some ''a%20b/%25''"
proof (intro conjI)
  show c: "cstring ''a b/%''" by simp
  show "\<exists>r. url_escape_1 ''a b/%'' urlchr_unsafe = Some r \<and> url_unescape r = ''a b/%''"
    using url_escape_roundtrip[OF c, of urlchr_unsafe] by blast
  show "url_escape_1 ''a b/%'' urlchr_unsafe = Some ''a%20b/%25''" by code_simp
qed

text \<open>
  C22. \<open>reencode_escapes\<close> always returns (its length assertion holds), its result leaves
  nothing to encode, so running it again changes nothing, and the result decodes to what the
  original string decodes to.
\<close>

theorem reencode_escapes_stable:
  assumes "cstring s"
  shows "\<exists>r. reencode_escapes s = Some r \<and> reencode_escapes r = Some r \<and>
    (\<forall>p. suffix p r \<and> p \<noteq> [] \<longrightarrow> \<not> char_needs_escaping p) \<and> url_unescape r = url_unescape s"
proof -
  have "\<not> char_needs_escaping p" if "suffix p r" "p \<noteq> []" "encode_count r = 0" for p r
    using that by (induction r) (auto simp: suffix_Cons split: if_splits)
  then show ?thesis
    using reencode_loop_clean[of s] encode_count_0[OF reencode_loop_clean] unescape_reencode[OF assms]
    by (auto simp: url_unescape_def)
qed

theorem reencode_escapes_stable_witness:
  "cstring ''foo%2%20 bar'' \<and> (\<exists>r. reencode_escapes ''foo%2%20 bar'' = Some r \<and> reencode_escapes r = Some r)
   \<and> reencode_escapes ''foo%2%20 bar'' = Some ''foo%252%20%20bar''"
proof (intro conjI)
  show c: "cstring ''foo%2%20 bar''" by simp
  show "\<exists>r. reencode_escapes ''foo%2%20 bar'' = Some r \<and> reencode_escapes r = Some r"
    using reencode_escapes_stable[OF c] by blast
  show "reencode_escapes ''foo%2%20 bar'' = Some ''foo%252%20%20bar''" by code_simp
qed

text \<open>
  \<open>url_escape_dir\<close> escapes every unsafe or reserved character of a directory but its
  slashes: the result decodes to the directory, and has exactly the slashes the directory has.
\<close>

theorem url_escape_dir_keeps_slashes:
  assumes "cstring dir"
  shows "\<exists>r. url_escape_dir dir = Some r \<and> url_unescape r = dir \<and>
    length (filter (\<lambda>c. c = CHR ''/'') r) = length (filter (\<lambda>c. c = CHR ''/'') dir)"
proof -
  let ?r = "concat (map (\<lambda>c. if urlchr_test c 3 \<and> c \<noteq> CHR ''/'' then percent_encode c else [c]) dir)"
  have "url_unescape_1 ?r 0 = dir" using assms
  proof (induction dir)
    case (Cons c s)
    then show ?case using percent_test(3)
      by (cases "c = CHR ''%''") (auto simp: unescape_percent_encode)
  qed simp
  moreover have "CHR ''/'' \<notin> set (percent_encode c)" for c
    using hex_byte(1,2)[of c] xdigit_safe URL_RESERVED_CHAR_iff[of "CHR ''/''"]
    by (auto simp: percent_encode_def)
  then have "filter (\<lambda>c. c = CHR ''/'') (percent_encode c) = []" for c
    by (auto simp: filter_empty_conv)
  then have "length (filter (\<lambda>c. c = CHR ''/'') ?r) = length (filter (\<lambda>c. c = CHR ''/'') dir)"
    by (induction dir) auto
  ultimately show ?thesis by (simp add: url_escape_dir_eq url_unescape_def)
qed

theorem url_escape_dir_keeps_slashes_witness:
  "cstring ''a/b?c'' \<and> (\<exists>r. url_escape_dir ''a/b?c'' = Some r \<and> url_unescape r = ''a/b?c'')
   \<and> url_escape_dir ''a/b?c'' = Some ''a/b%3Fc''"
proof (intro conjI)
  show c: "cstring ''a/b?c''" by simp
  show "\<exists>r. url_escape_dir ''a/b?c'' = Some r \<and> url_unescape r = ''a/b?c''"
    using url_escape_dir_keeps_slashes[OF c] by blast
  show "url_escape_dir ''a/b?c'' = Some ''a/b%3Fc''" by code_simp
qed

end
