(* ===== verification/Wget_Params.thy ===== *)
theory Wget_Params
  imports Wget_Url_Escape
begin

section \<open>Header parameters (wget/src/http.c)\<close>

text \<open>
  The tokenizer \<open>extract_param\<close> that wget uses on \<open>Set-Cookie\<close>, \<open>Content-Disposition\<close> and
  \<open>Strict-Transport-Security\<close> headers, the RFC 2231 adjustments of names and values, and the
  two parsers of \<open>http.c\<close> that are loops over it.

  A \<open>param_token\<close> is its two pointers, each the suffix of the header that starts there; a
  zeroed token (no value) is \<^term>\<open>None\<close>. The result of \<open>extract_param\<close> is \<open>Inl source\<close> when
  the C function returns false, with the value it leaves in \<open>*source\<close>, and
  \<open>Inr (source, name, value, is_url_encoded)\<close> when it returns true.
\<close>

subsection \<open>Tokens\<close>

record param_token =
  tok_b :: string
  tok_e :: string

definition token_text :: "param_token \<Rightarrow> string" where
  "token_text t = strdupdelim (tok_b t) (tok_e t)"

datatype rfc2231 = NOT_RFC2231 | RFC2231_NOENCODING | RFC2231_ENCODING

definition modify_param_name :: "param_token \<Rightarrow> rfc2231 \<times> param_token" where
  "modify_param_name name =
     (let region = token_text name;
          len = length region;
          delim1 = length (takeWhile (\<lambda>c. c \<noteq> CHR ''*'') region);
          delim2 = strrchr_pos region (CHR ''*'');
          stripped = name\<lparr>tok_e := drop delim1 (tok_b name)\<rparr>
      in if delim2 = None then (NOT_RFC2231, name)
         else if Some delim1 = delim2 then
           (if len - 1 = delim1 then RFC2231_ENCODING else RFC2231_NOENCODING, stripped)
         else (RFC2231_ENCODING, stripped))"

definition modify_param_value :: "param_token \<Rightarrow> rfc2231 \<Rightarrow> param_token" where
  "modify_param_value value encoding_type =
     (if encoding_type = RFC2231_ENCODING then
        case strrchr_pos (token_text value) (CHR 0x27) of
          None \<Rightarrow> value
        | Some delim \<Rightarrow> value\<lparr>tok_b := drop (delim + 1) (tok_b value)\<rparr>
      else value)"

subsection \<open>Extracting one parameter\<close>

type_synonym extracted = "string + string \<times> param_token \<times> param_token option \<times> bool"

definition skip_sep :: "char \<Rightarrow> string \<Rightarrow> string" where
  \<comment> \<open>\<open>if (*p == separator) ++p\<close>\<close>
  "skip_sep sep p = (if p \<noteq> [] \<and> hd p = sep then tl p else p)"

definition extract_value :: "char \<Rightarrow> string \<Rightarrow> (string \<times> param_token) option" where
  \<comment> \<open>from after the \<open>=\<close>: the new \<open>p\<close> and the value, or \<^term>\<open>None\<close> for a syntax error\<close>
  "extract_value sep p0 =
     (let p = skip_space p0 in
      if deref p 0 = CHR 0x22 then
        let b = tl p; e = dropWhile (\<lambda>c. c \<noteq> CHR 0x22) b in
        if e = [] then None
        else let q = dropWhile (\<lambda>c. c \<noteq> sep) (skip_space (tl e)) in
          if q \<noteq> [] \<and> hd q = sep then Some (tl q, \<lparr>tok_b = b, tok_e = e\<rparr>)
          else if q \<noteq> [] then None
          else Some (q, \<lparr>tok_b = b, tok_e = e\<rparr>)
      else
        let e = dropWhile (\<lambda>c. c \<noteq> sep) p;
            val = rtrim_space (strdupdelim p e)
        in Some (skip_sep sep e, \<lparr>tok_b = p, tok_e = drop (length val) p\<rparr>))"

definition extract_param :: "string \<Rightarrow> char \<Rightarrow> extracted" where
  "extract_param source sep =
     (let p = skip_space source in
      if p = [] then Inl p
      else
        let name_b = p;
            name_e = dropWhile (\<lambda>c. \<not> c_isspace c \<and> c \<noteq> CHR ''='' \<and> c \<noteq> sep) p;
            name = \<lparr>tok_b = name_b, tok_e = name_e\<rparr>
        in if name_b = name_e then Inl source
        else
          let p = skip_space name_e in
          if p = [] \<or> hd p = sep then Inr (skip_sep sep p, name, None, False)
          else if hd p \<noteq> CHR ''='' then Inl source
          else
            case extract_value sep (tl p) of
              None \<Rightarrow> Inl source
            | Some (q, value) \<Rightarrow>
                let (param_type, name) = modify_param_name name in
                if param_type \<noteq> NOT_RFC2231
                then Inr (q, name, Some (modify_param_value value param_type), param_type = RFC2231_ENCODING)
                else Inr (q, name, Some value, False))"

subsection \<open>Every call consumes input\<close>

lemma length_dropWhile_le' [cstr]: "length (dropWhile P xs) \<le> length xs"
  by (rule length_dropWhile_le)

lemma length_skip_space [cstr]: "length (skip_space p) \<le> length p"
  by (simp add: skip_space_def length_dropWhile_le)

lemma length_skip_sep [cstr]: "length (skip_sep sep p) \<le> length p"
  by (simp add: skip_sep_def)

lemma length_dropWhile_less: "dropWhile P xs \<noteq> xs \<Longrightarrow> length (dropWhile P xs) < length xs"
proof (induction xs)
  case (Cons x xs)
  then show ?case by (auto simp: less_Suc_eq_le length_dropWhile_le split: if_splits)
qed simp

lemma extract_value_length:
  assumes "extract_value sep p0 = Some (q, v)" shows "length q \<le> length p0"
proof -
  have le: "length (dropWhile (\<lambda>c. c \<noteq> sep) (skip_space (tl e))) \<le> length p0"
    if "e = dropWhile (\<lambda>c. c \<noteq> CHR 0x22) (tl (skip_space p0))" for e
  proof -
    have "length (tl e) \<le> length (skip_space p0)"
      using that length_dropWhile_le[of "\<lambda>c. c \<noteq> CHR 0x22" "tl (skip_space p0)"] by simp
    then show ?thesis
      by (meson length_dropWhile_le length_skip_space order_trans)
  qed
  show ?thesis
  proof (cases "deref (skip_space p0) 0 = CHR 0x22")
    case True
    then show ?thesis using assms le[OF refl]
      by (auto simp: extract_value_def Let_def split: if_splits)
  next
    case False
    then have "q = skip_sep sep (dropWhile (\<lambda>c. c \<noteq> sep) (skip_space p0))"
      using assms by (auto simp: extract_value_def Let_def)
    then show ?thesis by (meson length_dropWhile_le length_skip_sep length_skip_space order_trans)
  qed
qed

lemma extract_param_length:
  assumes "extract_param source sep = Inr (q, name, value, enc)"
  shows "length q < length source"
proof -
  let ?P = "\<lambda>c. \<not> c_isspace c \<and> c \<noteq> CHR ''='' \<and> c \<noteq> sep"
  let ?p = "skip_space source" and ?e = "dropWhile ?P (skip_space source)"
  have e: "length ?e < length source" if "?e \<noteq> ?p"
    using length_dropWhile_less[OF that] length_skip_space[of source] by simp
  have q: "length q \<le> length ?e"
  proof (cases "skip_space ?e = [] \<or> hd (skip_space ?e) = sep")
    case True
    then show ?thesis using assms length_skip_sep[of sep "skip_space ?e"] length_skip_space[of ?e]
      by (auto simp: extract_param_def Let_def split: if_splits)
  next
    case False
    then obtain v where "extract_value sep (tl (skip_space ?e)) = Some (q, v)"
      using assms by (auto simp: extract_param_def Let_def split: if_splits option.splits prod.splits)
    from extract_value_length[OF this] show ?thesis using length_skip_space[of ?e] by simp
  qed
  moreover have "?e \<noteq> ?p"
    using assms by (auto simp: extract_param_def Let_def split: if_splits)
  ultimately show ?thesis using e by simp
qed

subsection \<open>Content-Disposition\<close>

definition strip_directories :: "param_token \<Rightarrow> param_token" where
  \<comment> \<open>make the file name begin at the last slash or backslash\<close>
  "strip_directories value =
     (let last_slash = strrchr_pos (token_text value) (CHR ''/'');
          last_bs = strrchr_pos (token_text value) (CHR 0x5C);
          skip = (case (last_slash, last_bs) of
              (Some s, Some b) \<Rightarrow> 1 + max s b
            | (Some s, None) \<Rightarrow> 1 + s
            | (None, Some b) \<Rightarrow> 1 + b
            | (None, None) \<Rightarrow> 0)
      in value\<lparr>tok_b := drop skip (tok_b value)\<rparr>)"

definition append_value_to_filename :: "string \<Rightarrow> param_token \<Rightarrow> bool \<Rightarrow> string" where
  "append_value_to_filename filename value is_url_encoded =
     filename @ (if is_url_encoded then url_unescape (token_text value) else token_text value)"

definition add_filename :: "string option \<Rightarrow> param_token \<Rightarrow> bool \<Rightarrow> string option" where
  "add_filename outFilename value is_url_encoded =
     (case outFilename of
        Some f \<Rightarrow> Some (append_value_to_filename f value is_url_encoded)
      | None \<Rightarrow> Some (if is_url_encoded then url_unescape (token_text value) else token_text value))"

definition filename_param ::
  "param_token \<Rightarrow> param_token option \<Rightarrow> bool \<Rightarrow> string option \<times> string option \<Rightarrow> string option \<times> string option" where
  \<comment> \<open>the body of the loop, on \<open>(encodedFilename, unencodedFilename)\<close>\<close>
  "filename_param name value is_url_encoded names =
     (case value of
        None \<Rightarrow> names
      | Some val \<Rightarrow>
          if \<not> BOUNDED_EQUAL_NO_CASE (token_text name) ''filename'' then names
          else let val = strip_directories val in
            if token_text val = [] then names
            else if deref (tok_e name) 0 = CHR ''*'' \<and> \<not> c_isdigit (deref (tok_e name) 1)
            then (add_filename (fst names) val is_url_encoded, snd names)
            else (fst names, add_filename (snd names) val is_url_encoded))"

function content_disposition_loop ::
  "string \<Rightarrow> string option \<times> string option \<Rightarrow> string option \<times> string option" where
  "content_disposition_loop hdr names =
     (case extract_param hdr (CHR '';'') of
        Inl hdr \<Rightarrow> names
      | Inr (hdr, name, val, enc) \<Rightarrow> content_disposition_loop hdr (filename_param name val enc names))"
  by pat_completeness auto
termination
  by (relation "measure (\<lambda>(hdr, _). length hdr)") (auto dest: extract_param_length)

definition parse_content_disposition :: "string \<Rightarrow> string option" where
  "parse_content_disposition hdr =
     (let (encodedFilename, unencodedFilename) = content_disposition_loop hdr (None, None)
      in if encodedFilename \<noteq> None then encodedFilename else unencodedFilename)"

subsection \<open>Strict-Transport-Security\<close>

definition LLONG_MAX :: int where
  "LLONG_MAX = 9223372036854775807"

definition LLONG_MIN :: int where
  "LLONG_MIN = -9223372036854775808"

definition strtoll :: "string \<Rightarrow> int" where
  \<comment> \<open>the C library's \<open>strtoll (s, NULL, 10)\<close>: out of range values saturate\<close>
  "strtoll s =
     (let p = skip_space s;
          neg = (deref p 0 = CHR ''-'');
          ds = takeWhile c_isdigit (if deref p 0 = CHR ''-'' \<or> deref p 0 = CHR ''+'' then tl p else p);
          v = (if neg then - digits_value ds else digits_value ds)
      in if v > LLONG_MAX then LLONG_MAX else if v < LLONG_MIN then LLONG_MIN else v)"

function sts_loop :: "string \<Rightarrow> string option \<times> bool \<Rightarrow> string option \<times> bool" where
  \<comment> \<open>on \<open>(c_max_age, is)\<close>; \<open>strdupdelim\<close> of a zeroed token is the empty string\<close>
  "sts_loop header (c_max_age, isd) =
     (case extract_param header (CHR '';'') of
        Inl header \<Rightarrow> (c_max_age, isd)
      | Inr (header, name, val, enc) \<Rightarrow>
          if BOUNDED_EQUAL_NO_CASE (token_text name) ''max-age''
          then sts_loop header (Some (case val of None \<Rightarrow> [] | Some v \<Rightarrow> token_text v), isd)
          else if BOUNDED_EQUAL_NO_CASE (token_text name) ''includeSubDomains''
          then sts_loop header (c_max_age, True)
          else sts_loop header (c_max_age, isd))"
  by pat_completeness auto
termination
  by (relation "measure (\<lambda>(header, _). length header)") (auto dest: extract_param_length)

definition parse_strict_transport_security :: "string option \<Rightarrow> (int \<times> bool) option" where
  \<comment> \<open>\<open>(max_age, include_subdomains)\<close> when the C function returns true\<close>
  "parse_strict_transport_security header =
     (case header of
        None \<Rightarrow> None
      | Some h \<Rightarrow>
          (case sts_loop h (None, False) of
             (Some c_max_age, isd) \<Rightarrow> Some (strtoll c_max_age, isd)
           | (None, isd) \<Rightarrow> None))"

declare content_disposition_loop.simps [simp del] sts_loop.simps [simp del]

subsection \<open>All parameters of a header\<close>

text \<open>
  The specification side: \<open>extract_params\<close> lists what successive calls return, and
  \<open>print_params\<close> writes a list of parameters with quoted values.
\<close>

function extract_params :: "char \<Rightarrow> string \<Rightarrow> (param_token \<times> param_token option \<times> bool) list" where
  "extract_params sep source =
     (case extract_param source sep of
        Inl source \<Rightarrow> []
      | Inr (source, param) \<Rightarrow> param # extract_params sep source)"
  by pat_completeness auto
termination
  by (relation "measure (\<lambda>(sep, source). length source)") (auto dest: extract_param_length)

declare extract_params.simps [simp del]

definition print_param :: "string \<times> string \<Rightarrow> string" where
  "print_param nv = fst nv @ [CHR ''='', CHR 0x22] @ snd nv @ [CHR 0x22]"

fun print_params :: "(string \<times> string) list \<Rightarrow> string" where
  "print_params [] = []"
| "print_params [p] = print_param p"
| "print_params (p # ps) = print_param p @ ''; '' @ print_params ps"

definition plain_name :: "string \<Rightarrow> bool" where
  "plain_name n \<longleftrightarrow> n \<noteq> [] \<and> (\<forall>c\<in>set n. \<not> c_isspace c \<and> c \<noteq> CHR ''='' \<and> c \<noteq> CHR '';'' \<and> c \<noteq> CHR ''*'')"

definition quotable :: "string \<Rightarrow> bool" where
  "quotable v \<longleftrightarrow> CHR 0x22 \<notin> set v"

lemma token_text_append [simp]: "token_text \<lparr>tok_b = s @ t, tok_e = t\<rparr> = s"
  by (simp add: token_text_def)

lemma skip_space_nonspace [simp]: "\<not> c_isspace (deref p 0) \<Longrightarrow> skip_space p = p"
  by (cases p) (simp_all add: skip_space_def)

lemma skip_space_space [simp]: "c_isspace c \<Longrightarrow> skip_space (c # p) = skip_space p"
  by (simp add: skip_space_def)

lemma dropWhile_append_stop:
  "\<forall>c\<in>set s. P c \<Longrightarrow> t = [] \<or> \<not> P (hd t) \<Longrightarrow> dropWhile P (s @ t) = t"
  by (cases t) (auto simp: dropWhile_append2)

lemma nonspace_chars [simp]:
  "\<not> c_isspace (CHR ''='')" "\<not> c_isspace (CHR 0x22)" "\<not> c_isspace (CHR '';'')" "\<not> c_isspace NUL"
  "c_isspace (CHR '' '')"
  by code_simp+

lemma extract_value_quoted:
  assumes "quotable v" "t = [] \<or> hd t = CHR '';''"
  shows "extract_value (CHR '';'') (CHR 0x22 # v @ CHR 0x22 # t) =
    Some (tl t, \<lparr>tok_b = v @ CHR 0x22 # t, tok_e = CHR 0x22 # t\<rparr>)"
proof -
  have "dropWhile (\<lambda>c. c \<noteq> CHR 0x22) (v @ CHR 0x22 # t) = CHR 0x22 # t"
    using assms(1) by (intro dropWhile_append_stop) (auto simp: quotable_def)
  moreover have "skip_space t = t" "dropWhile (\<lambda>c. c \<noteq> CHR '';'') t = t"
    using assms(2) by (cases t; simp)+
  ultimately show ?thesis using assms(2) by (auto simp: extract_value_def Let_def)
qed

lemma modify_param_name_plain:
  "CHR ''*'' \<notin> set (token_text name) \<Longrightarrow> modify_param_name name = (NOT_RFC2231, name)"
  by (simp add: modify_param_name_def strrchr_pos_def)

lemma extract_param_print:
  assumes "plain_name n" "quotable v" "t = [] \<or> hd t = CHR '';''"
  shows "\<exists>nt vt. extract_param (print_param (n, v) @ t) (CHR '';'') = Inr (tl t, nt, Some vt, False)
    \<and> token_text nt = n \<and> token_text vt = v"
proof -
  let ?rest = "CHR ''='' # CHR 0x22 # v @ CHR 0x22 # t"
  let ?n = "\<lparr>tok_b = n @ ?rest, tok_e = ?rest\<rparr>"
  have pos: "n \<noteq> []" and nsp: "\<not> c_isspace (hd n)" using assms(1) by (auto simp: plain_name_def)
  then have sk: "skip_space (n @ ?rest) = n @ ?rest" by (cases n) simp_all
  have dw: "dropWhile (\<lambda>c. \<not> c_isspace c \<and> c \<noteq> CHR ''='' \<and> c \<noteq> CHR '';'') (n @ ?rest) = ?rest"
    using assms(1) by (intro dropWhile_append_stop) (auto simp: plain_name_def)
  have mp: "modify_param_name ?n = (NOT_RFC2231, ?n)"
    using assms(1) by (intro modify_param_name_plain) (auto simp: plain_name_def)
  have "extract_param (n @ ?rest) (CHR '';'') =
    Inr (tl t, ?n, Some \<lparr>tok_b = v @ CHR 0x22 # t, tok_e = CHR 0x22 # t\<rparr>, False)"
    using pos sk dw mp extract_value_quoted[OF assms(2,3)]
    by (simp add: extract_param_def Let_def)
  then show ?thesis by (simp add: print_param_def)
qed

lemma extract_params_skip_space: "c_isspace c \<Longrightarrow> extract_params sep (c # s) = extract_params sep s"
proof -
  assume "c_isspace c"
  then have "extract_param (c # s) sep = (case extract_param s sep of Inl src \<Rightarrow>
      Inl (if skip_space s = [] then src else c # s) | Inr r \<Rightarrow> Inr r)"
    by (simp add: extract_param_def Let_def split: option.splits prod.splits)
  then show ?thesis
    by (subst (1 2) extract_params.simps) (simp split: sum.splits)
qed

lemma print_params_hd: "ps \<noteq> [] \<Longrightarrow> \<exists>t. print_params ps = print_param (hd ps) @ t \<and> (t = [] \<or> hd t = CHR '';'')
    \<and> (if tl ps = [] then t = [] else tl t = CHR '' '' # print_params (tl ps))"
  by (cases ps rule: print_params.cases) auto

subsection \<open>Facts about positions and stripping\<close>

lemma token_text_drop: "token_text (v\<lparr>tok_b := drop k (tok_b v)\<rparr>) = drop k (token_text v)"
  by (simp add: token_text_def strdupdelim_def drop_take add.commute)

lemma strip_directories_text:
  "\<exists>k. token_text (strip_directories v) = drop k (token_text v)
     \<and> CHR ''/'' \<notin> set (drop k (token_text v)) \<and> CHR 0x5C \<notin> set (drop k (token_text v))"
proof -
  let ?t = "token_text v"
  have none: "c \<notin> set (drop k ?t)" if "strrchr_pos ?t c = None" for c k
    using that by (auto simp: strrchr_pos_def split: if_splits dest: in_set_dropD)
  have some: "c \<notin> set (drop k ?t)" if "strrchr_pos ?t c = Some p" "p < k" for c k p
    using strrchr_pos_Some(2)[OF that(1)] set_drop_subset_set_drop[of "p + 1" k ?t] that(2) by auto
  let ?k = "case (strrchr_pos ?t (CHR ''/''), strrchr_pos ?t (CHR 0x5C)) of
      (Some s, Some b) \<Rightarrow> 1 + max s b | (Some s, None) \<Rightarrow> 1 + s | (None, Some b) \<Rightarrow> 1 + b | (None, None) \<Rightarrow> 0"
  have "token_text (strip_directories v) = drop ?k ?t"
    by (simp only: strip_directories_def Let_def token_text_drop)
  moreover have "c \<notin> set (drop ?k ?t)" if "c = CHR ''/'' \<or> c = CHR 0x5C" for c
  proof (cases "strrchr_pos ?t c")
    case (Some p)
    have "p < ?k" using Some that by (auto split: option.splits)
    with Some show ?thesis by (rule some)
  qed (rule none)
  ultimately show ?thesis by blast
qed

lemma set_token_text: "set (token_text v) \<subseteq> set (tok_b v)"
  by (auto simp: token_text_def strdupdelim_def dest: in_set_takeD)

lemma set_skip_space: "set (skip_space p) \<subseteq> set p"
  by (auto simp: skip_space_def dest: set_dropWhileD)

lemma set_skip_sep: "set (skip_sep sep p) \<subseteq> set p"
  by (cases p) (auto simp: skip_sep_def)

lemma set_dropWhile_subset: "set (dropWhile P p) \<subseteq> set p"
  by (auto dest: set_dropWhileD)

lemma set_tl_subset: "set (tl p) \<subseteq> set p"
  by (cases p) auto

lemmas subset_steps = set_skip_space set_skip_sep set_dropWhile_subset set_tl_subset


lemma extract_value_sets:
  assumes "extract_value sep p = Some (q, v)"
  shows "set q \<subseteq> set p" "set (tok_b v) \<subseteq> set p"
proof -
  have "set q \<subseteq> set p \<and> set (tok_b v) \<subseteq> set p"
  proof (cases "deref (skip_space p) 0 = CHR 0x22")
    case True
    let ?e = "dropWhile (\<lambda>c. c \<noteq> CHR 0x22) (tl (skip_space p))"
    let ?q = "dropWhile (\<lambda>c. c \<noteq> sep) (skip_space (tl ?e))"
    have q: "q = tl ?q \<or> q = ?q" and v: "tok_b v = tl (skip_space p)"
      using True assms by (auto simp: extract_value_def Let_def split: if_splits)
    have "set ?q \<subseteq> set p" by (meson subset_steps order_trans)
    then have "set q \<subseteq> set p" using q set_tl_subset[of ?q] by auto
    moreover have "set (tok_b v) \<subseteq> set p" unfolding v by (meson subset_steps order_trans)
    ultimately show ?thesis by simp
  next
    case False
    then have "q = skip_sep sep (dropWhile (\<lambda>c. c \<noteq> sep) (skip_space p))" "tok_b v = skip_space p"
      using assms by (auto simp: extract_value_def Let_def)
    then show ?thesis by (metis subset_steps(1-3) order_trans)
  qed
  then show "set q \<subseteq> set p" "set (tok_b v) \<subseteq> set p" by auto
qed

lemma modify_param_value_set: "set (tok_b (modify_param_value v ty)) \<subseteq> set (tok_b v)"
  by (auto simp: modify_param_value_def split: option.splits dest: in_set_dropD)

lemma extract_param_sets:
  assumes "extract_param source sep = Inr (q, name, val, enc)"
  shows "set q \<subseteq> set source" "val = Some v \<Longrightarrow> set (token_text v) \<subseteq> set source"
proof -
  let ?p = "skip_space (dropWhile (\<lambda>c. \<not> c_isspace c \<and> c \<noteq> CHR ''='' \<and> c \<noteq> sep) (skip_space source))"
  have p: "set ?p \<subseteq> set source" by (meson subset_steps order_trans)
  have "set q \<subseteq> set source \<and> (\<forall>v. val = Some v \<longrightarrow> set (token_text v) \<subseteq> set source)"
  proof (cases "?p = [] \<or> hd ?p = sep")
    case True
    then have "q = skip_sep sep ?p" "val = None"
      using assms by (auto simp: extract_param_def Let_def split: if_splits)
    then show ?thesis using p set_skip_sep[of sep ?p] by auto
  next
    case False
    then obtain v ty where ev: "extract_value sep (tl ?p) = Some (q, v)"
      and val: "val = Some v \<or> val = Some (modify_param_value v ty)"
      using assms by (auto simp: extract_param_def Let_def split: if_splits option.splits prod.splits)
    have "set (tl ?p) \<subseteq> set source" using p set_tl_subset[of ?p] by blast
    then have q: "set q \<subseteq> set source" and v: "set (tok_b v) \<subseteq> set source"
      using extract_value_sets[OF ev] by blast+
    have "set (token_text w) \<subseteq> set source" if "val = Some w" for w
      using val that v modify_param_value_set[of v ty] set_token_text[of w] by auto
    then show ?thesis using q by blast
  qed
  then show "set q \<subseteq> set source" "val = Some v \<Longrightarrow> set (token_text v) \<subseteq> set source" by auto
qed

lemma unescape_no_percent: "CHR ''%'' \<notin> set s \<Longrightarrow> url_unescape s = s"
  unfolding url_unescape_def by (induction s) auto

definition base_name :: "string \<Rightarrow> bool" where
  "base_name f \<longleftrightarrow> f \<noteq> [] \<and> CHR ''/'' \<notin> set f \<and> CHR 0x5C \<notin> set f"

lemma base_name_append: "base_name a \<Longrightarrow> base_name b \<Longrightarrow> base_name (a @ b)"
  by (auto simp: base_name_def)

lemma filename_param_base:
  assumes "\<And>v. val = Some v \<Longrightarrow> CHR ''%'' \<notin> set (token_text v)"
    and "pred_option base_name (fst names)" "pred_option base_name (snd names)"
  shows "pred_option base_name (fst (filename_param name val enc names))"
    "pred_option base_name (snd (filename_param name val enc names))"
proof -
  have "base_name (if enc then url_unescape (token_text (strip_directories v)) else token_text (strip_directories v))"
    if "val = Some v" "token_text (strip_directories v) \<noteq> []" for v
  proof -
    obtain k where k: "token_text (strip_directories v) = drop k (token_text v)"
      "CHR ''/'' \<notin> set (drop k (token_text v))" "CHR 0x5C \<notin> set (drop k (token_text v))"
      using strip_directories_text by blast
    moreover have "CHR ''%'' \<notin> set (drop k (token_text v))" using assms(1)[OF that(1)] by (auto dest: in_set_dropD)
    ultimately show ?thesis using that(2) by (simp add: unescape_no_percent base_name_def)
  qed
  then have add: "pred_option base_name (add_filename out (strip_directories v) enc)"
    if "val = Some v" "token_text (strip_directories v) \<noteq> []" "pred_option base_name out" for out v
    using that by (auto simp: add_filename_def append_value_to_filename_def pred_option_def base_name_append
        split: option.splits if_splits)
  show "pred_option base_name (fst (filename_param name val enc names))"
    "pred_option base_name (snd (filename_param name val enc names))"
    using assms(2,3) add by (auto simp: filename_param_def Let_def split: option.splits)
qed

lemma content_disposition_loop_base:
  "CHR ''%'' \<notin> set hdr \<Longrightarrow> pred_option base_name (fst names) \<Longrightarrow> pred_option base_name (snd names) \<Longrightarrow>
   pred_option base_name (fst (content_disposition_loop hdr names)) \<and>
   pred_option base_name (snd (content_disposition_loop hdr names))"
proof (induction hdr names rule: content_disposition_loop.induct)
  case (1 hdr names)
  show ?case
  proof (cases "extract_param hdr (CHR '';'')")
    case Inl
    then show ?thesis using 1 by (simp add: content_disposition_loop.simps)
  next
    case (Inr r)
    obtain hdr' name val enc where r: "r = (hdr', name, val, enc)" by (cases r)
    note E = extract_param_sets[OF Inr[unfolded r]]
    have "CHR ''%'' \<notin> set hdr'" and v: "\<And>v. val = Some v \<Longrightarrow> CHR ''%'' \<notin> set (token_text v)"
      using E 1(2) by blast+
    with 1(1)[OF Inr r[symmetric] refl refl] filename_param_base[OF v 1(3,4)] show ?thesis
      by (simp add: content_disposition_loop.simps[of hdr] Inr r)
  qed
qed

definition param_named :: "string \<Rightarrow> param_token \<times> param_token option \<times> bool \<Rightarrow> bool" where
  "param_named lit p \<longleftrightarrow> BOUNDED_EQUAL_NO_CASE (token_text (fst p)) lit"

lemma param_named_pair [simp]: "param_named lit (n, ve) \<longleftrightarrow> BOUNDED_EQUAL_NO_CASE (token_text n) lit"
  by (simp add: param_named_def)

lemma sts_loop_spec:
  "sts_loop h (a, i) =
     (let ps = extract_params (CHR '';'') h;
          ages = filter (param_named ''max-age'') ps
      in (if ages = [] then a
          else Some (case fst (snd (last ages)) of None \<Rightarrow> [] | Some v \<Rightarrow> token_text v),
          i \<or> (\<exists>p\<in>set ps. param_named ''includeSubDomains'' p)))"
proof (induction h arbitrary: a i rule: length_induct)
  case (1 h)
  have ne: "\<not> (BOUNDED_EQUAL_NO_CASE n ''max-age'' \<and> BOUNDED_EQUAL_NO_CASE n ''includeSubDomains'')" for n
    by (auto simp: BOUNDED_EQUAL_NO_CASE_def)
  show ?case
  proof (cases "extract_param h (CHR '';'')")
    case Inl
    then show ?thesis by (simp add: sts_loop.simps extract_params.simps[of _ h])
  next
    case (Inr r)
    obtain h' n v e where r: "r = (h', n, v, e)" by (cases r)
    have IH: "sts_loop h' (a', i') = (let ps = extract_params (CHR '';'') h';
          ages = filter (param_named ''max-age'') ps
      in (if ages = [] then a'
          else Some (case fst (snd (last ages)) of None \<Rightarrow> [] | Some v \<Rightarrow> token_text v),
          i' \<or> (\<exists>p\<in>set ps. param_named ''includeSubDomains'' p)))" for a' i'
      using 1 extract_param_length[OF Inr[unfolded r]] by blast
    have ps: "extract_params (CHR '';'') h = (n, v, e) # extract_params (CHR '';'') h'"
      by (simp add: extract_params.simps[of _ h] Inr r)
    have loop: "sts_loop h (a, i) = sts_loop h'
      (if BOUNDED_EQUAL_NO_CASE (token_text n) ''max-age'' then Some (case v of None \<Rightarrow> [] | Some v \<Rightarrow> token_text v) else a,
       i \<or> BOUNDED_EQUAL_NO_CASE (token_text n) ''includeSubDomains'')"
      using ne[of "token_text n"] by (simp add: sts_loop.simps[of h] Inr r)
    show ?thesis unfolding loop IH ps by (simp add: Let_def)
  qed
qed

subsection \<open>Properties\<close>

text \<open>
  Print and parse: the parameters of a header made of plain names with quoted values,
  separated by semicolons and spaces, are extracted exactly as they were written, in order,
  none lost and none marked as URL-encoded.
\<close>

theorem extract_params_roundtrip:
  assumes "\<forall>(n, v)\<in>set ps. plain_name n \<and> quotable v"
  shows "map (\<lambda>(nt, vt, enc). (token_text nt, map_option token_text vt, enc)) (extract_params (CHR '';'') (print_params ps)) =
    map (\<lambda>(n, v). (n, Some v, False)) ps"
  using assms
proof (induction ps)
  case Nil
  have "extract_param [] (CHR '';'') = Inl []" by (simp add: extract_param_def)
  then show ?case by (simp add: extract_params.simps)
next
  case (Cons p ps)
  obtain n v where p: "p = (n, v)" by (cases p)
  obtain t where t: "print_params (p # ps) = print_param (n, v) @ t" "t = [] \<or> hd t = CHR '';''"
    "if ps = [] then t = [] else tl t = CHR '' '' # print_params ps"
    using print_params_hd[of "p # ps"] p by (simp only: list.sel) blast
  obtain nt vt where e: "extract_param (print_param (n, v) @ t) (CHR '';'') = Inr (tl t, nt, Some vt, False)"
    "token_text nt = n" "token_text vt = v"
    using extract_param_print[OF _ _ t(2), of n v] Cons.prems p by auto
  have "extract_params (CHR '';'') (tl t) = extract_params (CHR '';'') (print_params ps)"
    using t(3) by (cases "ps = []") (simp_all add: extract_params_skip_space)
  then show ?case
    using e Cons unfolding t(1) by (simp add: p extract_params.simps[of _ "print_param (n, v) @ t"])
qed

theorem extract_params_roundtrip_witness:
  "map (\<lambda>(nt, vt, enc). (token_text nt, map_option token_text vt, enc))
     (extract_params (CHR '';'') (print_params [(''a'', ''1; 2''), (''path'', ''/x'')])) =
   [(''a'', Some ''1; 2'', False), (''path'', Some ''/x'', False)]"
proof -
  have "\<forall>(n, v)\<in>set [(''a'', ''1; 2''), (''path'', ''/x'')]. plain_name n \<and> quotable v" by code_simp
  from extract_params_roundtrip[OF this] show ?thesis by simp
qed

text \<open>
  C25. A file name taken from a \<open>Content-Disposition\<close> header that has no percent sign is not
  empty and has no slash and no backslash, however many pieces the header gives it in.
\<close>

theorem content_disposition_base_name:
  assumes "CHR ''%'' \<notin> set hdr" and "parse_content_disposition hdr = Some f"
  shows "f \<noteq> [] \<and> CHR ''/'' \<notin> set f \<and> CHR 0x5C \<notin> set f"
  using content_disposition_loop_base[OF assms(1), of "(None, None)"] assms(2)
  by (auto simp: parse_content_disposition_def base_name_def split: prod.splits if_splits)

theorem content_disposition_base_name_witness:
  "parse_content_disposition ''attachment; filename=/etc/flora.jpg'' = Some ''flora.jpg'' \<and>
   CHR ''/'' \<notin> set ''flora.jpg''"
proof -
  have "parse_content_disposition ''attachment; filename=/etc/flora.jpg'' = Some ''flora.jpg''"
    by code_simp
  with content_disposition_base_name[OF _ this] show ?thesis by simp
qed

text \<open>
  The directory components are stripped before the value is URL-decoded, so a
  \<open>filename*\<close> parameter with an encoded slash does give a name with directory components,
  which the comment above \<open>parse_content_disposition\<close> excludes.
\<close>

theorem content_disposition_encoded_slash:
  "parse_content_disposition (''attachment; filename*=UTF-8'' @ [CHR 0x27, CHR 0x27] @ ''..%2Fx'') = Some ''../x''"
  by code_simp

text \<open>
  C24. \<open>parse_strict_transport_security\<close> succeeds exactly when the header has a \<open>max-age\<close>
  directive; the age is the saturated number of the last one (0 when it has no value or no
  digits) and always fits in 64 bits, and \<open>includeSubDomains\<close> is found wherever it stands.
\<close>

theorem parse_sts_spec:
  "parse_strict_transport_security (Some h) =
     (let ps = extract_params (CHR '';'') h;
          ages = filter (param_named ''max-age'') ps
      in if ages = [] then None
         else Some (strtoll (case fst (snd (last ages)) of None \<Rightarrow> [] | Some v \<Rightarrow> token_text v),
                \<exists>p\<in>set ps. param_named ''includeSubDomains'' p)) \<and>
   LLONG_MIN \<le> strtoll s \<and> strtoll s \<le> LLONG_MAX"
  by (simp add: parse_strict_transport_security_def sts_loop_spec Let_def strtoll_def LLONG_MIN_def LLONG_MAX_def)

end
