(* ===== verification/Wget_Cookies.thy ===== *)
theory Wget_Cookies
  imports Complex_Main Wget_Params Wget_Utils Wget_Hash_Map "HOL-Library.Code_Target_Nat"
begin

section \<open>Cookies (wget/src/cookies.c)\<close>

text \<open>
  The cookie jar of \<open>cookies.c\<close>: the structures, storing and discarding, parsing of
  \<open>Set-Cookie\<close>, the domain and path checks, the selection of the cookies for a request, and
  the cookie file. The public suffix library is not compiled in (the repository's Makefile
  configures wget \<open>--without-libpsl\<close>), so \<open>check_domain_match\<close> is its fallback.

  A chain of cookies is a list; the hash table maps a domain to a chain, and unlinking a
  cookie in the middle of a chain, which the C code does in place, is an update of the value
  of the table's cell (\<open>relink\<close>). \<open>time (NULL)\<close> is the argument \<open>now\<close>. The functions of the C
  library that parse and print dates and floating-point numbers are the fields of a record
  \<open>libc\<close>; a double is a rational number. \<open>qsort\<close> is a parameter too, because the order it
  leaves equal elements in is not specified.
\<close>

subsection \<open>Structures\<close>

record cookie =
  c_domain :: string
  c_port :: int
  c_path :: string
  discard_requested :: bool
  secure :: bool
  domain_exact :: bool
  permanent :: bool
  expiry_time :: int
  c_attr :: string
  c_value :: string

record cookie_jar =
  chains :: "(string, cookie list) hash_table"
  cookie_count :: int

definition PORT_ANY :: int where
  "PORT_ANY = -1"

definition cookie_jar_new :: "cookie_jar run" where
  "cookie_jar_new = do {
     chains \<leftarrow> make_nocase_string_hash_table 0;
     Some \<lparr>chains = chains, cookie_count = 0\<rparr> }"

definition cookie_expired_p :: "int \<Rightarrow> cookie \<Rightarrow> bool" where
  "cookie_expired_p now c \<longleftrightarrow> expiry_time c \<noteq> 0 \<and> expiry_time c < now"

subsection \<open>Storing and discarding\<close>

definition same_cookie :: "cookie \<Rightarrow> cookie \<Rightarrow> bool" where
  \<comment> \<open>the test of the loop of \<open>find_matching_cookie\<close>\<close>
  "same_cookie c d \<longleftrightarrow> c_path c = c_path d \<and> c_attr c = c_attr d \<and> c_port c = c_port d"

fun find_in_chain :: "cookie \<Rightarrow> cookie list \<Rightarrow> cookie list \<Rightarrow> (cookie list \<times> cookie \<times> cookie list) option" where
  \<comment> \<open>the cookies before the match, the match, and the cookies after it\<close>
  "find_in_chain cookie before [] = None"
| "find_in_chain cookie before (c # chain) =
     (if same_cookie cookie c then Some (before, c, chain) else find_in_chain cookie (before @ [c]) chain)"

definition find_matching_cookie ::
  "cookie_jar \<Rightarrow> cookie \<Rightarrow> (cookie list \<times> cookie \<times> cookie list) option run" where
  \<comment> \<open>\<open>*prevptr\<close> is NULL when the list of the cookies before is empty\<close>
  "find_matching_cookie jar cookie = do {
     chain \<leftarrow> hash_table_get (chains jar) (c_domain cookie);
     Some (case chain of None \<Rightarrow> None | Some chain \<Rightarrow> find_in_chain cookie [] chain) }"

definition store_cookie :: "cookie_jar \<Rightarrow> cookie \<Rightarrow> cookie_jar run" where
  "store_cookie jar cookie = do {
     pair \<leftarrow> hash_table_get_pair (chains jar) (c_domain cookie);
     (chain_key, chain, count) \<leftarrow>
       (case pair of
          Some (chain_key, chain_head) \<Rightarrow> do {
            found \<leftarrow> find_matching_cookie jar cookie;
            Some (case found of
                    Some (before, victim, after) \<Rightarrow> (chain_key, cookie # before @ after, cookie_count jar - 1)
                  | None \<Rightarrow> (chain_key, cookie # chain_head, cookie_count jar)) }
        | None \<Rightarrow> Some (c_domain cookie, [cookie], cookie_count jar));
     ht \<leftarrow> hash_table_put (chains jar) chain_key chain;
     Some \<lparr>chains = ht, cookie_count = count + 1\<rparr> }"

definition discard_matching_cookie :: "cookie_jar \<Rightarrow> cookie \<Rightarrow> cookie_jar run" where
  "discard_matching_cookie jar cookie =
     (if hash_table_count (chains jar) = 0 then Some jar
      else do {
        found \<leftarrow> find_matching_cookie jar cookie;
        (case found of
           None \<Rightarrow> Some jar
         | Some (before, victim, after) \<Rightarrow>
             if before \<noteq> [] then do {
               ht \<leftarrow> relink (chains jar) (c_domain cookie) (before @ after);
               Some (jar\<lparr>chains := ht\<rparr>) }
             else do {
               pair \<leftarrow> hash_table_get_pair (chains jar) (c_domain victim);
               if after = [] then do {
                 (removed, ht) \<leftarrow> hash_table_remove (chains jar) (c_domain victim);
                 Some (jar\<lparr>chains := ht\<rparr>) }
               else (case pair of
                   None \<Rightarrow> None \<comment> \<open>\<open>chain_key\<close> is still NULL\<close>
                 | Some (chain_key, _) \<Rightarrow> do {
                     ht \<leftarrow> hash_table_put (chains jar) chain_key after;
                     Some (jar\<lparr>chains := ht\<rparr>) }) }) })"

subsection \<open>Dates\<close>

record 'tm libc =
  strptime :: "string \<Rightarrow> string \<Rightarrow> (string \<times> 'tm) option" \<comment> \<open>where it stopped, and the broken-down time\<close>
  timegm :: "'tm \<Rightarrow> int"
  sscanf_lf :: "string \<Rightarrow> rat option" \<comment> \<open>\<^term>\<open>None\<close> when nothing is converted\<close>
  print_f0 :: "rat \<Rightarrow> string" \<comment> \<open>the conversion \<open>%.0f\<close>\<close>

definition check_end :: "string option \<Rightarrow> bool" where
  "check_end p0 =
     (case p0 of
        None \<Rightarrow> False
      | Some p0 \<Rightarrow>
          let p = skip_space p0 in
          p = [] \<or> deref p 0 = CHR ''G'' \<and> deref p 1 = CHR ''M'' \<and> deref p 2 = CHR ''T''
          \<or> (deref p 0 = CHR ''+'' \<or> deref p 0 = CHR ''-'') \<and> c_isdigit (deref p 1))"

definition time_formats :: "string list" where
  "time_formats =
     [''%a, %d %b %Y %T'', ''%A, %d-%b-%y %T'', ''%a %b %d %T %Y'', ''%a, %d-%b-%Y %T'']"

fun try_formats :: "'tm libc \<Rightarrow> string \<Rightarrow> string list \<Rightarrow> int" where
  "try_formats lib time_string [] = -1"
| "try_formats lib time_string (f # fs) =
     (case strptime lib time_string f of
        Some (rest, t) \<Rightarrow> if check_end (Some rest) then timegm lib t else try_formats lib time_string fs
      | None \<Rightarrow> if check_end None then -1 else try_formats lib time_string fs)"

definition http_atotm :: "'tm libc \<Rightarrow> string \<Rightarrow> int" where
  "http_atotm lib time_string = try_formats lib time_string time_formats"

definition INT64_MAX :: int where
  "INT64_MAX = 9223372036854775807"

definition INT64_MIN :: int where
  "INT64_MIN = -9223372036854775808"

definition time_t :: "int \<Rightarrow> int run" where
  \<comment> \<open>a \<open>time_t\<close> result; signed overflow is undefined\<close>
  "time_t t = (if INT64_MIN \<le> t \<and> t \<le> INT64_MAX then Some t else None)"

definition trunc :: "rat \<Rightarrow> int" where
  "trunc x = (if 0 \<le> x then \<lfloor>x\<rfloor> else - \<lfloor>- x\<rfloor>)"

subsection \<open>Parsing Set-Cookie\<close>

text \<open>
  \<open>struct cookie\<close> as \<open>parse_set_cookie\<close> leaves it: the domain and the path may still be NULL,
  the port is \<open>PORT_ANY\<close> and \<open>domain_exact\<close> is 0.
\<close>

record parsed_cookie =
  p_attr :: string
  p_value :: string
  p_domain :: "string option"
  p_path :: "string option"
  p_discard :: bool
  p_secure :: bool
  p_permanent :: bool
  p_expiry :: int

definition TOKEN_IS :: "param_token \<Rightarrow> string \<Rightarrow> bool" where
  "TOKEN_IS token lit = BOUNDED_EQUAL_NO_CASE (token_text token) lit"

definition TOKEN_NON_EMPTY :: "param_token option \<Rightarrow> bool" where
  "TOKEN_NON_EMPTY token = (case token of None \<Rightarrow> False | Some t \<Rightarrow> token_text t \<noteq> [])"

definition opt_text :: "param_token option \<Rightarrow> string" where
  "opt_text token = (case token of None \<Rightarrow> [] | Some t \<Rightarrow> token_text t)"

definition cookie_attribute ::
  "'tm libc \<Rightarrow> int \<Rightarrow> param_token \<Rightarrow> param_token option \<Rightarrow> parsed_cookie \<Rightarrow> parsed_cookie option run" where
  \<comment> \<open>one round of the loop of \<open>parse_set_cookie\<close>; an inner \<^term>\<open>None\<close> is \<open>goto error\<close>\<close>
  "cookie_attribute lib now name val cookie =
     (if TOKEN_IS name ''domain'' then
        if \<not> TOKEN_NON_EMPTY val then Some None
        else let v = opt_text val in
          Some (Some (cookie\<lparr>p_domain := Some (if deref v 0 = CHR ''.'' then tl v else v)\<rparr>))
      else if TOKEN_IS name ''path'' then
        if \<not> TOKEN_NON_EMPTY val then Some None
        else Some (Some (cookie\<lparr>p_path := Some (opt_text val)\<rparr>))
      else if TOKEN_IS name ''expires'' then
        if \<not> TOKEN_NON_EMPTY val \<or> length (opt_text val) \<ge> 128 then Some None
        else let expires = http_atotm lib (opt_text val) in
          Some (Some (if expires \<noteq> -1
            then cookie\<lparr>p_permanent := True, p_expiry := expires, p_discard := p_discard cookie \<or> expires < now\<rparr>
            else cookie))
      else if TOKEN_IS name ''max-age'' then
        if \<not> TOKEN_NON_EMPTY val \<or> length (opt_text val) \<ge> 32 then Some None
        else let maxage = (case sscanf_lf lib (opt_text val) of None \<Rightarrow> -1 | Some x \<Rightarrow> x) in
          if maxage = -1 then Some None
          else do {
            delta \<leftarrow> time_t (trunc maxage);
            expiry \<leftarrow> time_t (now + delta);
            Some (Some (cookie\<lparr>p_permanent := True, p_expiry := expiry, p_discard := p_discard cookie \<or> maxage = 0\<rparr>)) }
      else if TOKEN_IS name ''secure'' then Some (Some (cookie\<lparr>p_secure := True\<rparr>))
      else Some (Some cookie))"

function cookie_attributes ::
  "'tm libc \<Rightarrow> int \<Rightarrow> string \<Rightarrow> parsed_cookie \<Rightarrow> parsed_cookie option run" where
  "cookie_attributes lib now ptr cookie =
     (case extract_param ptr (CHR '';'') of
        Inl ptr \<Rightarrow> Some (if ptr \<noteq> [] then None else Some cookie)
      | Inr (ptr, name, val, enc) \<Rightarrow> do {
          r \<leftarrow> cookie_attribute lib now name val cookie;
          (case r of None \<Rightarrow> Some None | Some cookie \<Rightarrow> cookie_attributes lib now ptr cookie) })"
  by pat_completeness auto
termination
  by (relation "measure (\<lambda>(lib, now, ptr, cookie). length ptr)") (auto dest: extract_param_length)

definition before_pointer :: "string \<Rightarrow> string \<Rightarrow> string" where
  \<comment> \<open>the pointer one byte before \<open>p\<close>, in the string \<open>base\<close>\<close>
  "before_pointer base p = drop (length base - length p - 1) base"

definition parse_set_cookie :: "'tm libc \<Rightarrow> int \<Rightarrow> string \<Rightarrow> parsed_cookie option run" where
  "parse_set_cookie lib now set_cookie =
     (case extract_param set_cookie (CHR '';'') of
        Inl _ \<Rightarrow> Some None
      | Inr (ptr, name, None, enc) \<Rightarrow> Some None
      | Inr (ptr, name, Some val, enc) \<Rightarrow>
          let b = (if deref (before_pointer set_cookie (tok_b val)) 0 = CHR 0x22
                   then before_pointer set_cookie (tok_b val) else tok_b val);
              e = (if deref (tok_e val) 0 = CHR 0x22 then tl (tok_e val) else tok_e val)
          in cookie_attributes lib now ptr
               \<lparr>p_attr = token_text name, p_value = strdupdelim b e, p_domain = None, p_path = None,
                p_discard = False, p_secure = False, p_permanent = False, p_expiry = 0\<rparr>)"

subsection \<open>Sanity checks\<close>

definition REQUIRE_DIGITS :: "string \<Rightarrow> string option" where
  "REQUIRE_DIGITS p = (if c_isdigit (deref p 0) then Some (dropWhile c_isdigit (tl p)) else None)"

definition REQUIRE_DOT :: "string \<Rightarrow> string option" where
  "REQUIRE_DOT p = (if deref p 0 = CHR ''.'' then Some (tl p) else None)"

definition numeric_address_p :: "string \<Rightarrow> bool" where
  "numeric_address_p addr =
     ((do { p \<leftarrow> REQUIRE_DIGITS addr; p \<leftarrow> REQUIRE_DOT p;
            p \<leftarrow> REQUIRE_DIGITS p; p \<leftarrow> REQUIRE_DOT p;
            p \<leftarrow> REQUIRE_DIGITS p; p \<leftarrow> REQUIRE_DOT p;
            p \<leftarrow> REQUIRE_DIGITS p;
            if p \<noteq> [] then None else Some () }) \<noteq> None)"

fun scan_components :: "string \<Rightarrow> nat \<Rightarrow> nat \<Rightarrow> nat \<Rightarrow> (nat \<times> nat \<times> nat) option" where
  \<comment> \<open>\<open>(dccount, ldcl, nldcl)\<close> at the end of the loop; \<^term>\<open>None\<close> for an empty component\<close>
  "scan_components [] dccount ldcl nldcl = Some (dccount, ldcl, nldcl)"
| "scan_components (c # p) dccount ldcl nldcl =
     (if c = CHR ''.'' then
        if ldcl = 0 then None
        else if p = [] then Some (dccount, ldcl, nldcl)
        else scan_components p (dccount + 1) 0 ldcl
      else scan_components p dccount (ldcl + 1) nldcl)"

definition known_toplevel_domains :: "string list" where
  "known_toplevel_domains = [''.com'', ''.edu'', ''.net'', ''.org'', ''.gov'', ''.mil'', ''.int'']"

definition check_domain_match :: "string \<Rightarrow> string \<Rightarrow> bool" where
  "check_domain_match cookie_domain host =
     (if strcaseeq cookie_domain host then True
      else if \<not> match_tail host cookie_domain True then False
      else
        let p = (if deref cookie_domain 0 = CHR ''.'' then tl cookie_domain else cookie_domain) in
        case scan_components p 1 0 0 of
          None \<Rightarrow> False
        | Some (dccount, ldcl, nldcl) \<Rightarrow>
            if dccount < 2 then False
            else if dccount = 2 \<and> \<not> list_ex (\<lambda>tld. match_tail cookie_domain tld True) known_toplevel_domains
              \<and> nldcl \<le> 3 then False
            else if deref cookie_domain 0 \<noteq> CHR ''.'' then
              let dlen = length cookie_domain; hlen = length host in
              if hlen > dlen \<and> host ! (hlen - dlen - 1) \<noteq> CHR ''.'' then False else True
            else True)"

definition path_matches :: "string \<Rightarrow> string \<Rightarrow> nat" where
  "path_matches full_path pre = (if \<not> prefix pre full_path then 0 else length pre + 1)"

definition check_path_match :: "string \<Rightarrow> string \<Rightarrow> bool" where
  "check_path_match cookie_path path = (path_matches path cookie_path \<noteq> 0)"

subsection \<open>Processing Set-Cookie\<close>

definition complete_domain :: "string \<Rightarrow> int \<Rightarrow> parsed_cookie \<Rightarrow> string \<times> bool \<times> int \<times> bool" where
  \<comment> \<open>domain, \<open>domain_exact\<close>, port and \<open>discard_requested\<close> after the first check\<close>
  "complete_domain host port cookie =
     (case p_domain cookie of
        None \<Rightarrow> (host, True, if port \<noteq> 80 \<and> port \<noteq> 443 then port else PORT_ANY, p_discard cookie)
      | Some d \<Rightarrow> (d, False, PORT_ANY, p_discard cookie \<or> \<not> check_domain_match d host))"

definition complete_path :: "string \<Rightarrow> parsed_cookie \<Rightarrow> string option" where
  \<comment> \<open>\<^term>\<open>None\<close> when the cookie's own path is not legal\<close>
  "complete_path path cookie =
     (case p_path cookie of
        None \<Rightarrow>
          (case strrchr_pos path (CHR ''/'') of
             Some trailing_slash \<Rightarrow> Some (take (trailing_slash + 1) path)
           | None \<Rightarrow> Some path)
      | Some cp \<Rightarrow> if check_path_match cp path then Some cp else None)"

definition cookie_handle_set_cookie ::
  "'tm libc \<Rightarrow> int \<Rightarrow> cookie_jar \<Rightarrow> string \<Rightarrow> int \<Rightarrow> string \<Rightarrow> string \<Rightarrow> cookie_jar run" where
  "cookie_handle_set_cookie lib now jar host port path0 set_cookie = do {
     let path = CHR ''/'' # path0;
     parsed \<leftarrow> parse_set_cookie lib now set_cookie;
     (case parsed of
        None \<Rightarrow> Some jar
      | Some p \<Rightarrow>
          let (domain, exact, prt, discard) = complete_domain host port p in
          (case complete_path path p of
             None \<Rightarrow> Some jar
           | Some cpath \<Rightarrow>
               let cookie = \<lparr>c_domain = domain, c_port = prt, c_path = cpath, discard_requested = discard,
                     secure = p_secure p, domain_exact = exact, permanent = p_permanent p,
                     expiry_time = p_expiry p, c_attr = p_attr p, c_value = p_value p\<rparr>
               in if discard then discard_matching_cookie jar cookie else store_cookie jar cookie)) }"

subsection \<open>Sending cookies\<close>

definition count_char :: "string \<Rightarrow> char \<Rightarrow> nat" where
  "count_char str chr = length (filter (\<lambda>c. c = chr) str)"

fun find_chains_loop ::
  "(string, cookie list) hash_table \<Rightarrow> nat \<Rightarrow> string \<Rightarrow> cookie list list run" where
  \<comment> \<open>the passes that are left after this one; \<^term>\<open>None\<close> also for \<open>strchr (host, '.')\<close> being NULL\<close>
  "find_chains_loop ht left host = do {
     chain \<leftarrow> hash_table_get ht host;
     let here = (case chain of None \<Rightarrow> [] | Some c \<Rightarrow> [c]);
     (case left of
        0 \<Rightarrow> Some here
      | Suc n \<Rightarrow>
          (case strchr host (CHR ''.'') of
             None \<Rightarrow> None
           | Some dot \<Rightarrow> do {
               rest \<leftarrow> find_chains_loop ht n (tl dot);
               Some (here @ rest) })) }"

definition find_chains_of_host :: "cookie_jar \<Rightarrow> string \<Rightarrow> cookie list list run" where
  "find_chains_of_host jar host =
     (if hash_table_count (chains jar) = 0 then Some []
      else let passes = (if numeric_address_p host then 1 else count_char host (CHR ''.'')) in
        find_chains_loop (chains jar) (passes - 1) host)"

definition cookie_matches_url ::
  "int \<Rightarrow> cookie \<Rightarrow> string \<Rightarrow> int \<Rightarrow> string \<Rightarrow> bool \<Rightarrow> nat option" where
  \<comment> \<open>the path goodness when the C function returns true\<close>
  "cookie_matches_url now cookie host port path secflag =
     (if cookie_expired_p now cookie then None
      else if secure cookie \<and> \<not> secflag then None
      else if c_port cookie \<noteq> PORT_ANY \<and> c_port cookie \<noteq> port then None
      else if domain_exact cookie \<and> \<not> strcaseeq host (c_domain cookie) then None
      else let pg = path_matches path (c_path cookie) in
        if pg = 0 then None else Some pg)"

record weighed_cookie =
  wc_cookie :: cookie
  domain_goodness :: int
  path_goodness :: int

fun strcmp :: "string \<Rightarrow> string \<Rightarrow> int" where
  \<comment> \<open>the C library's function; only the sign of the result is specified\<close>
  "strcmp [] [] = 0"
| "strcmp [] (y # ys) = -1"
| "strcmp (x # xs) [] = 1"
| "strcmp (x # xs) (y # ys) = (if x = y then strcmp xs ys else if byte x < byte y then -1 else 1)"

definition equality_comparator :: "weighed_cookie \<Rightarrow> weighed_cookie \<Rightarrow> int" where
  "equality_comparator wc1 wc2 =
     (let namecmp = strcmp (c_attr (wc_cookie wc1)) (c_attr (wc_cookie wc2));
          valuecmp = strcmp (c_value (wc_cookie wc1)) (c_value (wc_cookie wc2))
      in if namecmp \<noteq> 0 then namecmp else valuecmp)"

type_synonym qsort = "(weighed_cookie \<Rightarrow> weighed_cookie \<Rightarrow> int) \<Rightarrow> weighed_cookie list \<Rightarrow> weighed_cookie list"

fun skip_dups :: "weighed_cookie list \<Rightarrow> weighed_cookie list" where
  "skip_dups (h0 # h1 # hs) =
     (if c_attr (wc_cookie h0) = c_attr (wc_cookie h1) \<and> c_value (wc_cookie h0) = c_value (wc_cookie h1)
      then skip_dups (h1 # hs) else h0 # skip_dups (h1 # hs))"
| "skip_dups hs = hs"

definition eliminate_dups :: "qsort \<Rightarrow> weighed_cookie list \<Rightarrow> weighed_cookie list" where
  "eliminate_dups qs outgoing = skip_dups (qs equality_comparator outgoing)"

definition goodness_comparator :: "weighed_cookie \<Rightarrow> weighed_cookie \<Rightarrow> int" where
  "goodness_comparator wc1 wc2 =
     (let dgdiff = domain_goodness wc2 - domain_goodness wc1;
          pgdiff = path_goodness wc2 - path_goodness wc1
      in if dgdiff \<noteq> 0 then dgdiff else pgdiff)"

definition weigh :: "int \<Rightarrow> string \<Rightarrow> int \<Rightarrow> string \<Rightarrow> bool \<Rightarrow> cookie list \<Rightarrow> weighed_cookie list" where
  \<comment> \<open>the loop that fills \<open>outgoing\<close>\<close>
  "weigh now host port path secflag cs =
     List.map_filter (\<lambda>c. map_option
       (\<lambda>pg. \<lparr>wc_cookie = c, domain_goodness = int (length (c_domain c)), path_goodness = int pg\<rparr>)
       (cookie_matches_url now c host port path secflag)) cs"

fun print_pairs :: "weighed_cookie list \<Rightarrow> string" where
  \<comment> \<open>the loop that fills \<open>result\<close>\<close>
  "print_pairs [] = []"
| "print_pairs [w] = c_attr (wc_cookie w) @ ''='' @ c_value (wc_cookie w)"
| "print_pairs (w # ws) = c_attr (wc_cookie w) @ ''='' @ c_value (wc_cookie w) @ ''; '' @ print_pairs ws"

definition cookie_header ::
  "qsort \<Rightarrow> int \<Rightarrow> cookie_jar \<Rightarrow> string \<Rightarrow> int \<Rightarrow> string \<Rightarrow> bool \<Rightarrow> string option run" where
  \<comment> \<open>\<open>Some None\<close> is NULL; a failing \<open>assert (pos == result_size)\<close> is \<^term>\<open>None\<close>\<close>
  "cookie_header qs now jar host port path0 secflag =
     (if 1 + count_char host (CHR ''.'') > 32 then Some None
      else do {
        chns \<leftarrow> find_chains_of_host jar host;
        if chns = [] then Some None
        else do {
          let path = CHR ''/'' # path0;
          let outgoing = weigh now host port path secflag (concat chns);
          if outgoing = [] then Some None
          else do {
            let outgoing = eliminate_dups qs outgoing;
            let outgoing = qs goodness_comparator outgoing;
            let sz = sum_list (map (\<lambda>w. length (c_attr (wc_cookie w)) + 1 + length (c_value (wc_cookie w))) outgoing);
            let result = print_pairs outgoing;
            if length result + 1 = sz + (length outgoing - 1) * 2 + 1 then Some (Some result) else None } } })"

subsection \<open>The cookie file\<close>

fun port_digits :: "string \<Rightarrow> int \<Rightarrow> (int \<times> string) run" where
  "port_digits [] port = Some (port, [])"
| "port_digits (c # p) port =
     (if c_isdigit c then
        let port' = 10 * port + (int (byte c) - 48) in
        if port' > 2147483647 then None else port_digits p port'
      else Some (port, c # p))"

definition domain_port :: "string \<Rightarrow> (int \<times> string) run" where
  \<comment> \<open>the port and the region of the domain that is left\<close>
  "domain_port region =
     (case strchr region (CHR '':'') of
        None \<Rightarrow> Some (0, region)
      | Some colon \<Rightarrow> do {
          (port, p) \<leftarrow> port_digits (tl colon) 0;
          Some (if p \<noteq> [] then (0, region) else (port, strdupdelim region colon)) })"

definition GET_WORD :: "string \<Rightarrow> (string \<times> string) option" where
  \<comment> \<open>the word and the pointer after the TAB; \<^term>\<open>None\<close> is \<open>goto next\<close>\<close>
  "GET_WORD p =
     (let b = takeWhile (\<lambda>c. c \<noteq> TAB) p; e = dropWhile (\<lambda>c. c \<noteq> TAB) p in
      if b = [] \<or> e = [] then None else Some (b, tl e))"

definition load_fields :: "string \<Rightarrow> (string \<times> string \<times> string \<times> string \<times> string \<times> string \<times> string) option" where
  \<comment> \<open>domain, domain flag, path, secure flag, expiry, name and value of a line\<close>
  "load_fields line =
     (let p = skip_space line in
      if p = [] \<or> deref p 0 = CHR ''#'' then None
      else do {
        (domain, p) \<leftarrow> GET_WORD p;
        (domflag, p) \<leftarrow> GET_WORD p;
        (path, p) \<leftarrow> GET_WORD p;
        (sec, p) \<leftarrow> GET_WORD p;
        (expires, p) \<leftarrow> GET_WORD p;
        (name, p) \<leftarrow> GET_WORD p;
        let v = p;
        let v = (if v \<noteq> [] \<and> last v = LF then butlast v else v);
        let v = (if v \<noteq> [] \<and> last v = CR then butlast v else v);
        Some (domain, domflag, path, sec, expires, name, v) })"

definition load_line :: "'tm libc \<Rightarrow> int \<Rightarrow> string \<Rightarrow> cookie option run" where
  "load_line lib now line =
     (case load_fields line of
        None \<Rightarrow> Some None
      | Some (domain, domflag, path, sec, expires, name, v) \<Rightarrow> do {
          (port, domain) \<leftarrow> domain_port domain;
          let domain = (if deref domain 0 = CHR ''.'' then tl domain else domain);
          let expiry = (case sscanf_lf lib expires of None \<Rightarrow> of_int now - 1 | Some x \<Rightarrow> x);
          let cookie = \<lparr>c_domain = domain, c_port = (if port \<noteq> 0 then port else PORT_ANY), c_path = path,
                discard_requested = False, secure = BOUNDED_EQUAL sec ''TRUE'',
                domain_exact = (\<not> BOUNDED_EQUAL domflag ''TRUE''), permanent = False, expiry_time = 0,
                c_attr = name, c_value = v\<rparr>;
          if expiry = 0 then Some (Some cookie)
          else if expiry < of_int now then Some None
          else do {
            t \<leftarrow> time_t (trunc expiry);
            Some (Some (cookie\<lparr>expiry_time := t, permanent := True\<rparr>)) } })"

fun cookie_jar_load :: "'tm libc \<Rightarrow> int \<Rightarrow> cookie_jar \<Rightarrow> string list \<Rightarrow> cookie_jar run" where
  \<comment> \<open>on the lines that \<open>getline\<close> returns for the file\<close>
  "cookie_jar_load lib now jar [] = Some jar"
| "cookie_jar_load lib now jar (line # file) = do {
     c \<leftarrow> load_line lib now line;
     jar \<leftarrow> (case c of None \<Rightarrow> Some jar | Some cookie \<Rightarrow> store_cookie jar cookie);
     cookie_jar_load lib now jar file }"

definition save_line :: "'tm libc \<Rightarrow> string \<Rightarrow> cookie \<Rightarrow> string" where
  "save_line lib domain cookie =
     (if domain_exact cookie then [] else ''.'') @ domain
     @ (if c_port cookie \<noteq> PORT_ANY then CHR '':'' # print_int (c_port cookie) else [])
     @ [TAB] @ (if domain_exact cookie then ''FALSE'' else ''TRUE'')
     @ [TAB] @ c_path cookie
     @ [TAB] @ (if secure cookie then ''TRUE'' else ''FALSE'')
     @ [TAB] @ print_f0 lib (of_int (expiry_time cookie))
     @ [TAB] @ c_attr cookie
     @ [TAB] @ c_value cookie @ [LF]"

definition cookie_jar_save :: "'tm libc \<Rightarrow> int \<Rightarrow> bool \<Rightarrow> cookie_jar \<Rightarrow> string list" where
  \<comment> \<open>the cookie lines of the file, after its three comment lines; no write fails\<close>
  "cookie_jar_save lib now keep_session_cookies jar =
     concat (map (\<lambda>(domain, chain).
         map (save_line lib domain)
           (filter (\<lambda>c. (permanent c \<or> keep_session_cookies) \<and> \<not> cookie_expired_p now c) chain))
       (hash_table_drain (chains jar)))"

declare cookie_attributes.simps [simp del] find_chains_loop.simps [simp del]

end
