(* ===== verification/Wget_Cookies_Jar.thy ===== *)
theory Wget_Cookies_Jar
  imports Wget_Cookies
begin

section \<open>The cookie jar as a store of cookies\<close>

text \<open>
  The invariant of the jar (\<open>jar_inv\<close>), its lookup by domain, port, path and name
  (\<open>jar_lookup\<close>), and the proof that storing and discarding implement the insertion and the
  deletion of a map with that key. The contract is the locale \<open>cookie_store\<close>, interpreted on
  the jar's operations.
\<close>

subsection \<open>Chains\<close>

definition same_id :: "cookie \<Rightarrow> cookie \<Rightarrow> bool" where
  "same_id c d \<longleftrightarrow> lower (c_domain c) = lower (c_domain d) \<and> same_cookie c d"

definition chain_ok :: "string \<Rightarrow> cookie list \<Rightarrow> bool" where
  "chain_ok key chain \<longleftrightarrow> chain \<noteq> [] \<and> (\<forall>c\<in>set chain. lower (c_domain c) = lower key) \<and>
     sorted_wrt (\<lambda>a b. \<not> same_cookie a b) chain"

definition jar_inv :: "cookie_jar \<Rightarrow> bool" where
  "jar_inv jar \<longleftrightarrow> ht_inv hash_string_nocase string_cmp_nocase (chains jar) \<and>
     (\<forall>k key chain. ht_find (chains jar) k = Some (key, chain) \<longrightarrow> chain_ok key chain)"

definition chain_of :: "cookie_jar \<Rightarrow> string \<Rightarrow> cookie list" where
  "chain_of jar domain = (case ht_find (chains jar) domain of None \<Rightarrow> [] | Some (key, chain) \<Rightarrow> chain)"

definition jar_lookup :: "cookie_jar \<Rightarrow> cookie \<Rightarrow> cookie option" where
  \<comment> \<open>the stored cookie with the domain, port, path and name of the given one\<close>
  "jar_lookup jar c = find (same_cookie c) (chain_of jar (c_domain c))"

lemma same_cookie_refl [simp]: "same_cookie c c"
  by (simp add: same_cookie_def)

lemma same_cookie_sym: "same_cookie c d \<longleftrightarrow> same_cookie d c"
  by (auto simp: same_cookie_def)

lemma same_cookie_trans: "same_cookie c d \<Longrightarrow> same_cookie d e \<Longrightarrow> same_cookie c e"
  by (simp add: same_cookie_def)

lemma find_in_chain_Some:
  "find_in_chain c pre chain = Some (before, victim, after) \<longleftrightarrow>
     (\<exists>mid. before = pre @ mid \<and> chain = mid @ victim # after \<and> same_cookie c victim \<and> (\<forall>x\<in>set mid. \<not> same_cookie c x))"
proof (induction chain arbitrary: pre)
  case (Cons x chain)
  show ?case
  proof (cases "same_cookie c x")
    case True
    have "mid = []" if "x # chain = mid @ victim # after" "\<forall>y\<in>set mid. \<not> same_cookie c y" for mid
      using that True by (cases mid) auto
    then show ?thesis using True by (auto intro: exI[of _ "[]"])
  next
    case False
    have "(\<exists>mid. before = (pre @ [x]) @ mid \<and> chain = mid @ victim # after \<and> same_cookie c victim \<and> (\<forall>y\<in>set mid. \<not> same_cookie c y))
      \<longleftrightarrow> (\<exists>mid. before = pre @ mid \<and> x # chain = mid @ victim # after \<and> same_cookie c victim \<and> (\<forall>y\<in>set mid. \<not> same_cookie c y))"
      (is "?L \<longleftrightarrow> ?R")
    proof
      assume ?L
      then obtain mid where "before = (pre @ [x]) @ mid" "chain = mid @ victim # after" "same_cookie c victim" "\<forall>y\<in>set mid. \<not> same_cookie c y" by blast
      then show ?R using False by (intro exI[of _ "x # mid"]) simp
    next
      assume ?R
      then obtain mid where m: "before = pre @ mid" "x # chain = mid @ victim # after" "same_cookie c victim" "\<forall>y\<in>set mid. \<not> same_cookie c y" by blast
      then obtain mid' where "mid = x # mid'" using False by (cases mid) auto
      then show ?L using m by (intro exI[of _ mid']) simp
    qed
    then show ?thesis using Cons False by simp
  qed
qed simp

lemma find_in_chain_None: "find_in_chain c pre chain = None \<longleftrightarrow> (\<forall>x\<in>set chain. \<not> same_cookie c x)"
  by (induction chain arbitrary: pre) auto

lemma string_cmp_nocase_iff: "string_cmp_nocase a b \<longleftrightarrow> lower a = lower b"
  by (simp add: string_cmp_nocase_def strcaseeq_def)

lemma jar_invD:
  assumes "jar_inv jar"
  shows "ht_inv hash_string_nocase string_cmp_nocase (chains jar)"
    "ht_find (chains jar) k = Some (key, chain) \<Longrightarrow> chain_ok key chain \<and> lower key = lower k"
  using assms nocase_keys.ht_find_iff[of "chains jar" k "(key, chain)"]
  by (auto simp: jar_inv_def string_cmp_nocase_iff)

lemma jar_invI:
  assumes "ht_inv hash_string_nocase string_cmp_nocase (chains jar)"
    "\<And>k key chain. ht_find (chains jar) k = Some (key, chain) \<Longrightarrow> chain_ok key chain"
  shows "jar_inv jar"
  using assms by (auto simp: jar_inv_def)

lemma find_matching_ok:
  "jar_inv jar \<Longrightarrow> find_matching_cookie jar c = Some (find_in_chain c [] (chain_of jar (c_domain c)))"
  by (auto simp: find_matching_cookie_def chain_of_def jar_invD(1) nocase_keys.get_ok split: option.splits)

lemma jar_lookup_None: "jar_lookup jar c = None \<longleftrightarrow> (\<forall>x\<in>set (chain_of jar (c_domain c)). \<not> same_cookie c x)"
  by (auto simp: jar_lookup_def find_None_iff)

lemma jar_lookup_same: "same_id c d \<Longrightarrow> jar_inv jar \<Longrightarrow> jar_lookup jar c = jar_lookup jar d"
proof -
  assume id: "same_id c d" and inv: "jar_inv jar"
  have "ht_find (chains jar) (c_domain c) = ht_find (chains jar) (c_domain d)"
    using id jar_invD(1)[OF inv] unfolding same_id_def
    by (intro nocase_keys.ht_find_eqI) (auto simp: nocase_keys.ht_find_iff string_cmp_nocase_iff)
  moreover have "same_cookie c = same_cookie d"
    using id by (auto simp: same_id_def same_cookie_def)
  ultimately show ?thesis by (simp add: jar_lookup_def chain_of_def)
qed

subsection \<open>Replacing a chain\<close>

lemma find_after_put:
  assumes "jar_inv jar" "hash_table_put (chains jar) key chain = Some ht"
  shows "ht_inv hash_string_nocase string_cmp_nocase ht"
    "ht_find ht k = (if lower key = lower k then Some (key, chain) else ht_find (chains jar) k)"
  using nocase_keys.put_ok[OF jar_invD(1)[OF assms(1)] assms(2)] by (simp_all add: string_cmp_nocase_iff)

lemma jar_inv_put [inv_intros]:
  assumes "jar_inv jar" "hash_table_put (chains jar) key chain = Some ht" "chain_ok key chain"
  shows "jar_inv (jar\<lparr>chains := ht, cookie_count := n\<rparr>)" "jar_inv (jar\<lparr>chains := ht\<rparr>)" "jar_inv \<lparr>chains = ht, cookie_count = n\<rparr>"
  using find_after_put[OF assms(1,2)] assms(1,3)
  by (auto intro!: jar_invI simp: jar_inv_def split: if_splits)

lemma chain_of_put:
  assumes "jar_inv jar" "hash_table_put (chains jar) key chain = Some ht"
  shows "chain_of \<lparr>chains = ht, cookie_count = n\<rparr> d = (if lower key = lower d then chain else chain_of jar d)"
    "chain_of (jar\<lparr>chains := ht\<rparr>) d = (if lower key = lower d then chain else chain_of jar d)"
  using find_after_put(2)[OF assms] by (simp_all add: chain_of_def)

lemma relink_eq_put:
  assumes "jar_inv jar" "ht_find (chains jar) k = Some (key, old)"
  shows "relink (chains jar) k chain = hash_table_put (chains jar) key chain"
  by (rule nocase_keys.relink_put[OF jar_invD(1)[OF assms(1)] assms(2)])

subsection \<open>Storing\<close>

lemma chain_ok_remove:
  "chain_ok key (before @ victim # after) \<Longrightarrow> before @ after \<noteq> [] \<Longrightarrow> chain_ok key (before @ after)"
  by (auto simp: chain_ok_def sorted_wrt_append)

lemma chain_ok_replace:
  assumes "chain_ok key (before @ victim # after)" "same_cookie c victim" "lower (c_domain c) = lower key"
  shows "chain_ok key (c # before @ after)"
proof -
  have "\<not> same_cookie c x" if "x \<in> set before \<union> set after" for x
  proof
    assume "same_cookie c x"
    then have "same_cookie victim x" "same_cookie x victim"
      using assms(2) by (auto simp: same_cookie_def)
    then show False using assms(1) that by (auto simp: chain_ok_def sorted_wrt_append)
  qed
  then show ?thesis using assms(1,3) by (auto simp: chain_ok_def sorted_wrt_append)
qed

lemma chain_ok_push:
  assumes "chain_ok key chain" "\<forall>x\<in>set chain. \<not> same_cookie c x" "lower (c_domain c) = lower key"
  shows "chain_ok key (c # chain)"
  using assms by (auto simp: chain_ok_def)

lemma find_remove:
  assumes "sorted_wrt (\<lambda>a b. \<not> same_cookie a b) (before @ victim # after)"
  shows "find (same_cookie d) (before @ after) =
    (if same_cookie d victim then None else find (same_cookie d) (before @ victim # after))"
proof -
  have "\<not> same_cookie d x" if "same_cookie d victim" "x \<in> set before \<union> set after" for x
  proof
    assume "same_cookie d x"
    then have "same_cookie victim x" "same_cookie x victim" using that(1) by (auto simp: same_cookie_def)
    then show False using assms that(2) by (auto simp: sorted_wrt_append)
  qed
  then show ?thesis by (induction before) (auto simp: find_None_iff)
qed

lemma store_chain:
  \<comment> \<open>the chain and the key that \<open>store_cookie\<close> puts\<close>
  assumes "jar_inv jar"
  obtains key chain where
    "store_cookie jar c = do { ht \<leftarrow> hash_table_put (chains jar) key chain;
       Some \<lparr>chains = ht, cookie_count = cookie_count jar + (if jar_lookup jar c = None then 1 else 0)\<rparr> }"
    "lower key = lower (c_domain c)" "chain_ok key chain"
    "\<And>d. find (same_cookie d) chain = (if same_cookie c d then Some c else find (same_cookie d) (chain_of jar (c_domain c)))"
proof (cases "ht_find (chains jar) (c_domain c)")
  case None
  have ch: "chain_of jar (c_domain c) = []" using None by (simp add: chain_of_def)
  show ?thesis
  proof (rule that)
    show "store_cookie jar c = do { ht \<leftarrow> hash_table_put (chains jar) (c_domain c) [c];
       Some \<lparr>chains = ht, cookie_count = cookie_count jar + (if jar_lookup jar c = None then 1 else 0)\<rparr> }"
      using None ch by (simp add: store_cookie_def jar_lookup_def nocase_keys.get_pair_ok[OF jar_invD(1)[OF assms]])
  qed (auto simp: chain_ok_def ch same_cookie_sym)
next
  case (Some p)
  obtain key old where p: "p = (key, old)" by (cases p)
  have old: "chain_ok key old" "lower key = lower (c_domain c)" and ch: "chain_of jar (c_domain c) = old"
    using jar_invD(2)[OF assms Some[unfolded p]] Some p by (simp_all add: chain_of_def)
  note found = find_matching_ok[OF assms, of c, unfolded ch]
  have sc: "store_cookie jar c = do { ht \<leftarrow> hash_table_put (chains jar) key
        (case find_in_chain c [] old of Some (b, v, a) \<Rightarrow> c # b @ a | None \<Rightarrow> c # old);
       Some \<lparr>chains = ht, cookie_count = cookie_count jar + (if jar_lookup jar c = None then 1 else 0)\<rparr> }"
    using Some p ch found find_in_chain_None[of c "[]" old]
    by (cases "find_in_chain c [] old")
      (auto simp: store_cookie_def jar_lookup_None nocase_keys.get_pair_ok[OF jar_invD(1)[OF assms]])
  show ?thesis
  proof (cases "find_in_chain c [] old")
    case None
    then have new: "\<forall>x\<in>set old. \<not> same_cookie c x" by (simp add: find_in_chain_None)
    show ?thesis
      by (rule that[OF sc[unfolded None option.case]])
        (use old new ch in \<open>auto simp: chain_ok_push same_cookie_sym\<close>)
  next
    case (Some r)
    obtain b v a where r: "r = (b, v, a)" by (cases r)
    then have b: "old = b @ v # a" "same_cookie c v" using Some find_in_chain_Some by auto
    have srt: "sorted_wrt (\<lambda>a b. \<not> same_cookie a b) (b @ v # a)" using old(1) b(1) by (simp add: chain_ok_def)
    have "find (same_cookie d) (c # b @ a) = (if same_cookie c d then Some c else find (same_cookie d) old)" for d
      using find_remove[OF srt, of d] b same_cookie_trans[of c v d] same_cookie_trans[of d v c] same_cookie_sym
      by auto
    with that[OF sc[unfolded Some r option.case prod.case]] show ?thesis
      using chain_ok_replace[OF old(1)[unfolded b(1)] b(2)] old(2) ch by simp
  qed
qed

lemma store_ok:
  assumes inv: "jar_inv jar" and st: "store_cookie jar c = Some jar'"
  shows "jar_inv jar'" "jar_lookup jar' d = (if same_id c d then Some c else jar_lookup jar d)"
    "cookie_count jar' = cookie_count jar + (if jar_lookup jar c = None then 1 else 0)"
    "hash_table_count (chains jar') \<le> Suc (hash_table_count (chains jar))"
proof -
  obtain key chain where k: "store_cookie jar c = do { ht \<leftarrow> hash_table_put (chains jar) key chain;
       Some \<lparr>chains = ht, cookie_count = cookie_count jar + (if jar_lookup jar c = None then 1 else 0)\<rparr> }"
    "lower key = lower (c_domain c)" "chain_ok key chain"
    "\<And>d. find (same_cookie d) chain = (if same_cookie c d then Some c else find (same_cookie d) (chain_of jar (c_domain c)))"
    using store_chain[OF inv, of c] by blast
  from st k(1) obtain ht where put: "hash_table_put (chains jar) key chain = Some ht"
    and jar': "jar' = \<lparr>chains = ht, cookie_count = cookie_count jar + (if jar_lookup jar c = None then 1 else 0)\<rparr>"
    by (auto split: bind_splits)
  show "jar_inv jar'" unfolding jar' by (rule jar_inv_put(3)[OF inv put k(3)])
  show "cookie_count jar' = cookie_count jar + (if jar_lookup jar c = None then 1 else 0)" by (simp add: jar')
  show "hash_table_count (chains jar') \<le> Suc (hash_table_count (chains jar))"
    using nocase_keys.put_ok(3)[OF jar_invD(1)[OF inv] put] by (simp add: jar' hash_table_count_def)
  have eq: "chain_of jar (c_domain d) = chain_of jar (c_domain c)" if "lower (c_domain c) = lower (c_domain d)"
  proof -
    have "ht_find (chains jar) (c_domain d) = ht_find (chains jar) (c_domain c)"
      using that jar_invD(1)[OF inv]
      by (intro nocase_keys.ht_find_eqI) (auto simp: nocase_keys.ht_find_iff string_cmp_nocase_iff)
    then show ?thesis by (simp add: chain_of_def)
  qed
  show "jar_lookup jar' d = (if same_id c d then Some c else jar_lookup jar d)"
    using chain_of_put(1)[OF inv put] k(2,4) eq by (simp add: jar_lookup_def jar' same_id_def)
qed

lemma store_total:
  assumes "jar_inv jar" "hash_table_count (chains jar) < 805306367"
  shows "\<exists>jar'. store_cookie jar c = Some jar'"
proof -
  obtain key chain where "store_cookie jar c = do { ht \<leftarrow> hash_table_put (chains jar) key chain;
       Some \<lparr>chains = ht, cookie_count = cookie_count jar + (if jar_lookup jar c = None then 1 else 0)\<rparr> }"
    using store_chain[OF assms(1), of c] by blast
  moreover have "\<exists>ht. hash_table_put (chains jar) key chain = Some ht"
    using nocase_keys.put_total[OF jar_invD(1)[OF assms(1)]] assms(2) by (simp add: hash_table_count_def)
  ultimately show ?thesis by auto
qed

subsection \<open>Discarding\<close>

lemma lookup_after_chain:
  assumes inv: "jar_inv jar" and ch: "\<And>d. chain_of jar' d = (if lower key = lower d then chain else chain_of jar d)"
    and key: "lower key = lower (c_domain c)"
    and old: "chain_of jar (c_domain c) = before @ victim # after" "chain = before @ after" "same_cookie c victim"
    and srt: "sorted_wrt (\<lambda>a b. \<not> same_cookie a b) (before @ victim # after)"
  shows "jar_lookup jar' d = (if same_id c d then None else jar_lookup jar d)"
proof (cases "lower (c_domain c) = lower (c_domain d)")
  case True
  then have "ht_find (chains jar) (c_domain d) = ht_find (chains jar) (c_domain c)"
    using jar_invD(1)[OF inv]
    by (intro nocase_keys.ht_find_eqI) (auto simp: nocase_keys.ht_find_iff string_cmp_nocase_iff)
  then have "chain_of jar (c_domain d) = before @ victim # after" using old(1) by (simp add: chain_of_def)
  moreover have "same_cookie d victim \<longleftrightarrow> same_cookie c d" using old(3) by (auto simp: same_cookie_def)
  ultimately show ?thesis
    using find_remove[OF srt, of d] True ch[of "c_domain d"] key old(2) by (simp add: jar_lookup_def same_id_def)
next
  case False
  then show ?thesis using ch[of "c_domain d"] key by (simp add: jar_lookup_def same_id_def)
qed

lemma discard_found:
  assumes inv: "jar_inv jar" and found: "find_in_chain c [] (chain_of jar (c_domain c)) = Some (before, victim, after)"
  obtains jar' key where "discard_matching_cookie jar c = Some jar'" "lower key = lower (c_domain c)"
    "jar_inv jar'" "cookie_count jar' = cookie_count jar"
    "hash_table_count (chains jar') \<le> hash_table_count (chains jar)"
    "\<And>d. chain_of jar' d = (if lower key = lower d then before @ after else chain_of jar d)"
proof -
  note I = jar_invD(1)[OF inv]
  have b: "chain_of jar (c_domain c) = before @ victim # after"
    using found[unfolded find_in_chain_Some] by auto
  then obtain key old where h: "ht_find (chains jar) (c_domain c) = Some (key, old)" "old = before @ victim # after"
    by (auto simp: chain_of_def split: option.splits)
  have ok: "chain_ok key (before @ victim # after)" and key: "lower key = lower (c_domain c)"
    using jar_invD(2)[OF inv h(1)] h(2) by auto
  have vd: "lower (c_domain victim) = lower (c_domain c)" using ok key by (simp add: chain_ok_def)
  then have hv: "ht_find (chains jar) (c_domain victim) = Some (key, old)"
    using h(1) I by (simp add: nocase_keys.ht_find_iff string_cmp_nocase_iff)
  have cnt: "ht_count (chains jar) \<noteq> 0"
    using h(1) I ht_invD(4)[OF I] by (auto simp: nocase_keys.ht_find_iff)
  note start = find_matching_ok[OF inv, of c, unfolded found]
  show thesis
  proof (cases "before @ after = []")
    case True
    obtain ht where ht: "hash_table_remove (chains jar) (c_domain victim) = Some (ht_find (chains jar) (c_domain victim) \<noteq> None, ht)"
      "ht_inv hash_string_nocase string_cmp_nocase ht"
      "\<And>k'. ht_find ht k' = (if string_cmp_nocase (c_domain victim) k' then None else ht_find (chains jar) k')"
      "ht_count ht = (if ht_find (chains jar) (c_domain victim) = None then ht_count (chains jar) else ht_count (chains jar) - 1)"
      using nocase_keys.remove_ok[OF I, of "c_domain victim"] by blast
    show thesis
    proof (rule that[of "jar\<lparr>chains := ht\<rparr>" key])
      show "discard_matching_cookie jar c = Some (jar\<lparr>chains := ht\<rparr>)"
        using start ht(1) True cnt by (simp add: discard_matching_cookie_def hash_table_count_def nocase_keys.get_pair_ok[OF I])
      show "jar_inv (jar\<lparr>chains := ht\<rparr>)"
        using ht(2,3) inv by (auto intro!: jar_invI simp: jar_inv_def split: if_splits)
      show "chain_of (jar\<lparr>chains := ht\<rparr>) d = (if lower key = lower d then before @ after else chain_of jar d)" for d
        using ht(3) True key vd by (auto simp: chain_of_def string_cmp_nocase_iff)
    qed (use ht(4) key in \<open>auto simp: hash_table_count_def\<close>)
  next
    case False
    have "string_cmp_nocase key (c_domain c)" using key by (simp add: string_cmp_nocase_iff)
    obtain c0 where c0: "find_cell (chains jar) key = Some c0" "cells (chains jar) ! c0 = ht_find (chains jar) key"
      using nocase_keys.find_cell_ok[OF I, of key] by blast
    have hk: "ht_find (chains jar) key = Some (key, old)"
      using h(1) key I by (simp add: nocase_keys.ht_find_iff string_cmp_nocase_iff)
    obtain ht where put: "hash_table_put (chains jar) key (before @ after) = Some ht"
      using c0 hk by (simp add: hash_table_put_def)
    have d: "discard_matching_cookie jar c = Some (jar\<lparr>chains := ht\<rparr>)"
      using start put False cnt hv relink_eq_put[OF inv h(1)]
      by (cases "before = []") (simp_all add: discard_matching_cookie_def hash_table_count_def nocase_keys.get_pair_ok[OF I])
    show thesis
    proof (rule that[OF d key])
      show "jar_inv (jar\<lparr>chains := ht\<rparr>)" by (rule jar_inv_put(2)[OF inv put chain_ok_remove[OF ok False]])
      show "hash_table_count (chains (jar\<lparr>chains := ht\<rparr>)) \<le> hash_table_count (chains jar)"
        using nocase_keys.put_ok(3)[OF I put] hk by (simp add: hash_table_count_def)
    qed (simp_all add: chain_of_put(2)[OF inv put])
  qed
qed

lemma discard_ok:
  assumes inv: "jar_inv jar"
  obtains jar' where "discard_matching_cookie jar c = Some jar'" "jar_inv jar'" "cookie_count jar' = cookie_count jar"
    "hash_table_count (chains jar') \<le> hash_table_count (chains jar)"
    "\<And>d. jar_lookup jar' d = (if same_id c d then None else jar_lookup jar d)"
proof (cases "find_in_chain c [] (chain_of jar (c_domain c))")
  case None
  then have "jar_lookup jar c = None" by (simp add: find_in_chain_None jar_lookup_None)
  then have "jar_lookup jar d = (if same_id c d then None else jar_lookup jar d)" for d
    using jar_lookup_same[OF _ inv, of c d] by auto
  then show thesis using that[of jar] find_matching_ok[OF inv, of c] None inv
    by (simp add: discard_matching_cookie_def)
next
  case (Some r)
  obtain before victim after where r: "r = (before, victim, after)" by (cases r)
  have b: "chain_of jar (c_domain c) = before @ victim # after" "same_cookie c victim"
    using Some[unfolded r find_in_chain_Some] by auto
  have srt: "sorted_wrt (\<lambda>a b. \<not> same_cookie a b) (before @ victim # after)"
    using b(1) inv by (auto simp: chain_of_def jar_inv_def chain_ok_def split: option.splits)
  obtain jar' key where j: "discard_matching_cookie jar c = Some jar'" "lower key = lower (c_domain c)"
    "jar_inv jar'" "cookie_count jar' = cookie_count jar"
    "hash_table_count (chains jar') \<le> hash_table_count (chains jar)"
    "\<And>d. chain_of jar' d = (if lower key = lower d then before @ after else chain_of jar d)"
    using discard_found[OF inv Some[unfolded r]] by blast
  show thesis
    by (rule that[OF j(1,3,4,5)]) (rule lookup_after_chain[OF inv j(6,2) b(1) refl b(2) srt])
qed

subsection \<open>The contract of a cookie store\<close>

datatype jar_op = Store cookie | Discard cookie

fun run_jar_ops :: "('j \<Rightarrow> cookie \<Rightarrow> 'j run) \<Rightarrow> ('j \<Rightarrow> cookie \<Rightarrow> 'j run) \<Rightarrow> jar_op list \<Rightarrow> 'j \<Rightarrow> 'j run" where
  "run_jar_ops sto dis [] j = Some j"
| "run_jar_ops sto dis (Store c # ops) j = do { j \<leftarrow> sto j c; run_jar_ops sto dis ops j }"
| "run_jar_ops sto dis (Discard c # ops) j = do { j \<leftarrow> dis j c; run_jar_ops sto dis ops j }"

fun cookie_map :: "jar_op list \<Rightarrow> (cookie \<Rightarrow> cookie option) \<Rightarrow> cookie \<Rightarrow> cookie option" where
  "cookie_map [] m = m"
| "cookie_map (Store c # ops) m = cookie_map ops (\<lambda>d. if same_id c d then Some c else m d)"
| "cookie_map (Discard c # ops) m = cookie_map ops (\<lambda>d. if same_id c d then None else m d)"

locale cookie_store =
  fixes invar :: "'j \<Rightarrow> bool" and look :: "'j \<Rightarrow> cookie \<Rightarrow> cookie option" and load :: "'j \<Rightarrow> nat" and room :: nat
    and sto :: "'j \<Rightarrow> cookie \<Rightarrow> 'j run" and dis :: "'j \<Rightarrow> cookie \<Rightarrow> 'j run"
  assumes sto_law: "invar j \<Longrightarrow> load j < room \<Longrightarrow> \<exists>j'. sto j c = Some j' \<and> invar j' \<and> load j' \<le> Suc (load j) \<and>
      look j' = (\<lambda>d. if same_id c d then Some c else look j d)"
    and dis_law: "invar j \<Longrightarrow> \<exists>j'. dis j c = Some j' \<and> invar j' \<and> load j' \<le> load j \<and>
      look j' = (\<lambda>d. if same_id c d then None else look j d)"
begin

lemma run_jar_refines:
  "invar j \<Longrightarrow> load j + length ops \<le> room \<Longrightarrow>
     \<exists>j'. run_jar_ops sto dis ops j = Some j' \<and> invar j' \<and> look j' = cookie_map ops (look j)"
proof (induction ops arbitrary: j)
  case (Cons op ops)
  show ?case
  proof (cases op)
    case (Store c)
    from sto_law[OF Cons.prems(1), of c] Cons.prems(2) obtain j' where
      "sto j c = Some j'" "invar j'" "load j' \<le> Suc (load j)" "look j' = (\<lambda>d. if same_id c d then Some c else look j d)" by auto
    with Cons.IH[of j'] Cons.prems(2) Store show ?thesis by simp
  next
    case (Discard c)
    from dis_law[OF Cons.prems(1), of c] obtain j' where
      "dis j c = Some j'" "invar j'" "load j' \<le> load j" "look j' = (\<lambda>d. if same_id c d then None else look j d)" by auto
    with Cons.IH[of j'] Cons.prems(2) Discard show ?thesis by simp
  qed
qed simp

end

interpretation jar: cookie_store jar_inv jar_lookup "\<lambda>jar. hash_table_count (chains jar)" 805306367 store_cookie discard_matching_cookie
proof
  fix j :: cookie_jar and c
  assume j: "jar_inv j"
  show "\<exists>j'. store_cookie j c = Some j' \<and> jar_inv j' \<and> hash_table_count (chains j') \<le> Suc (hash_table_count (chains j)) \<and>
      jar_lookup j' = (\<lambda>d. if same_id c d then Some c else jar_lookup j d)" if "hash_table_count (chains j) < 805306367"
    using store_total[OF j that, of c] store_ok[OF j] by (metis (lifting))
  show "\<exists>j'. discard_matching_cookie j c = Some j' \<and> jar_inv j' \<and> hash_table_count (chains j') \<le> hash_table_count (chains j) \<and>
      jar_lookup j' = (\<lambda>d. if same_id c d then None else jar_lookup j d)"
    using discard_ok[OF j, of c] by (metis (lifting) ext)
qed

lemma jar_new_ok:
  obtains jar where "cookie_jar_new = Some jar" "jar_inv jar" "jar_lookup jar = (\<lambda>d. None)"
    "hash_table_count (chains jar) = 0" "ht_entries (chains jar) = []" "cookie_count jar = 0"
proof -
  obtain ht :: "(string, cookie list) hash_table" where new: "hash_table_new 0 hash_string_nocase string_cmp_nocase = Some ht"
    using hash_table_new_0 by blast
  note N = nocase_keys.new_ok[OF new]
  have f: "ht_find ht = (\<lambda>k. None)" using N(2) by (auto simp: ht_find_def)
  show thesis
  proof (rule that)
    show "cookie_jar_new = Some \<lparr>chains = ht, cookie_count = 0\<rparr>"
      by (simp add: cookie_jar_new_def make_nocase_string_hash_table_def new)
    show "jar_inv \<lparr>chains = ht, cookie_count = 0\<rparr>" using N(1) f by (simp add: jar_inv_def)
    show "jar_lookup \<lparr>chains = ht, cookie_count = 0\<rparr> = (\<lambda>d. None)" using f by (auto simp: jar_lookup_def chain_of_def)
    show "hash_table_count (chains \<lparr>chains = ht, cookie_count = 0\<rparr>) = 0"
      using ht_invD(4)[OF N(1)] N(2) by (simp add: hash_table_count_def)
  qed (simp_all add: N(2))
qed

subsection \<open>Properties\<close>

text \<open>
  C5. Any sequence of at most 805306367 stores and discards on a new jar runs to completion,
  and afterwards the jar holds, for every domain (compared without case), port, path and name,
  exactly the cookie that a map with that key would hold.
\<close>

theorem cookie_jar_refines_map:
  assumes "length ops \<le> 805306367"
  shows "\<exists>jar0 jar. cookie_jar_new = Some jar0 \<and>
    run_jar_ops store_cookie discard_matching_cookie ops jar0 = Some jar \<and> jar_inv jar \<and>
    jar_lookup jar = cookie_map ops (\<lambda>_. None)"
proof -
  obtain jar0 where j: "cookie_jar_new = Some jar0" "jar_inv jar0" "jar_lookup jar0 = (\<lambda>d. None)"
    "hash_table_count (chains jar0) = 0" by (rule jar_new_ok)
  from jar.run_jar_refines[OF j(2), of ops] j assms have "\<exists>jar. run_jar_ops store_cookie discard_matching_cookie ops jar0 = Some jar \<and>
    jar_inv jar \<and> jar_lookup jar = cookie_map ops (\<lambda>_. None)" by simp
  then show ?thesis using j(1) by blast
qed

definition test_cookie :: "string \<Rightarrow> string \<Rightarrow> cookie" where
  "test_cookie domain val = \<lparr>c_domain = domain, c_port = PORT_ANY, c_path = ''/'', discard_requested = False,
     secure = False, domain_exact = False, permanent = False, expiry_time = 0, c_attr = ''id'', c_value = val\<rparr>"

lemma test_jar:
  obtains jar where "jar_inv jar" "\<And>d. jar_lookup jar d = (if same_id (test_cookie domain val) d then Some (test_cookie domain val) else None)"
    "cookie_count jar = 1" "hash_table_count (chains jar) \<le> 1"
proof -
  let ?c = "test_cookie domain val"
  obtain jar0 where j: "cookie_jar_new = Some jar0" "jar_inv jar0" "jar_lookup jar0 = (\<lambda>d. None)"
    "hash_table_count (chains jar0) = 0" "cookie_count jar0 = 0" using jar_new_ok by blast
  obtain jar where st: "store_cookie jar0 ?c = Some jar" using store_total[OF j(2), of ?c] j(4) by auto
  from store_ok[OF j(2) st] j(3,4,5) show thesis by (intro that[of jar]) simp_all
qed

theorem cookie_jar_refines_map_witness:
  "\<exists>jar0 jar. cookie_jar_new = Some jar0 \<and>
    run_jar_ops store_cookie discard_matching_cookie
      [Store (test_cookie ''A.org'' ''1''), Store (test_cookie ''b.org'' ''2''), Discard (test_cookie ''B.org'' ''3'')] jar0 = Some jar \<and>
    jar_lookup jar (test_cookie ''a.ORG'' ''4'') = Some (test_cookie ''A.org'' ''1'') \<and>
    jar_lookup jar (test_cookie ''b.org'' ''4'') = None"
proof -
  have l: "length [Store (test_cookie ''A.org'' ''1''), Store (test_cookie ''b.org'' ''2''), Discard (test_cookie ''B.org'' ''3'')] \<le> 805306367"
    by simp
  have m: "cookie_map [Store (test_cookie ''A.org'' ''1''), Store (test_cookie ''b.org'' ''2''), Discard (test_cookie ''B.org'' ''3'')]
      (\<lambda>_. None) (test_cookie ''a.ORG'' ''4'') = Some (test_cookie ''A.org'' ''1'')"
    "cookie_map [Store (test_cookie ''A.org'' ''1''), Store (test_cookie ''b.org'' ''2''), Discard (test_cookie ''B.org'' ''3'')]
      (\<lambda>_. None) (test_cookie ''b.org'' ''4'') = None"
    by (code_simp, code_simp)
  from cookie_jar_refines_map[OF l] m show ?thesis by metis
qed

text \<open>
  Discarding a cookie that is in the jar removes it and leaves \<open>cookie_count\<close> as it was,
  although the structure documents that field as the number of cookies in the jar;
  \<open>store_cookie\<close> does decrement it for the cookie it replaces.
\<close>

theorem discard_leaves_count:
  assumes "jar_inv jar" and "jar_lookup jar c = Some v"
  shows "\<exists>jar'. discard_matching_cookie jar c = Some jar' \<and> jar_lookup jar' c = None \<and>
    cookie_count jar' = cookie_count jar"
proof -
  obtain jar' where "discard_matching_cookie jar c = Some jar'" "cookie_count jar' = cookie_count jar"
    "\<And>d. jar_lookup jar' d = (if same_id c d then None else jar_lookup jar d)"
    using discard_ok[OF assms(1), of c] by blast
  then show ?thesis by (simp add: same_id_def)
qed

theorem discard_leaves_count_witness:
  "\<exists>jar jar'. jar_inv jar \<and> jar_lookup jar (test_cookie ''a.org'' ''1'') = Some (test_cookie ''a.org'' ''1'') \<and>
    discard_matching_cookie jar (test_cookie ''a.org'' ''1'') = Some jar' \<and>
    jar_lookup jar' (test_cookie ''a.org'' ''1'') = None \<and> cookie_count jar' = 1"
proof -
  let ?c = "test_cookie ''a.org'' ''1''"
  obtain jar where j: "jar_inv jar" "\<And>d. jar_lookup jar d = (if same_id ?c d then Some ?c else None)" "cookie_count jar = 1"
    using test_jar[of "''a.org''" "''1''"] by blast
  have l: "jar_lookup jar ?c = Some ?c" using j(2) by (simp add: same_id_def)
  from discard_leaves_count[OF j(1) l] j(1,3) l show ?thesis by metis
qed

end
