(* ===== verification/Wget_Cookies_Send.thy ===== *)
theory Wget_Cookies_Send
  imports Wget_Cookies_Jar
begin

section \<open>Which cookies are sent\<close>

text \<open>
  \<open>find_chains_of_host\<close> visits the host and its parent domains, \<open>cookie_header\<close> selects the
  cookies of those chains that match the request, removes the duplicates and sorts the rest.
  The specification is the list \<open>eligible\<close>; \<open>qsort\<close> is any function that satisfies
  \<open>qsort_spec\<close>, of which \<open>stable_sort\<close> is an instance.
\<close>

subsection \<open>Comparison functions\<close>

definition qsort_spec :: "qsort \<Rightarrow> bool" where
  "qsort_spec qs \<longleftrightarrow> (\<forall>cmp xs. comparator cmp \<longrightarrow>
     mset (qs cmp xs) = mset xs \<and> sorted_wrt (\<lambda>a b. cmp a b \<le> 0) (qs cmp xs))"

lemma qsort_spec_stable_sort: "qsort_spec stable_sort"
  using stable_sort_ok by (auto simp: qsort_spec_def stable_sorted_def)

lemma strcmp_0: "strcmp a b = 0 \<longleftrightarrow> a = b"
  by (induction a b rule: strcmp.induct) auto

lemma strcmp_flip: "strcmp b a = - strcmp a b"
proof (induction a b rule: strcmp.induct)
  case (4 x xs y ys)
  have "byte x \<noteq> byte y" if "x \<noteq> y" using that by simp
  then show ?case using 4 by auto
qed auto

lemma strcmp_trans: "strcmp a b \<le> 0 \<Longrightarrow> strcmp b c \<le> 0 \<Longrightarrow> strcmp a c \<le> 0"
proof (induction a b arbitrary: c rule: strcmp.induct)
  case (4 x xs y ys)
  show ?case
  proof (cases c)
    case (Cons z zs)
    have xy: "x = y \<and> strcmp xs ys \<le> 0 \<or> byte x < byte y" using 4(2) by (auto split: if_splits)
    have yz: "y = z \<and> strcmp ys zs \<le> 0 \<or> byte y < byte z" using 4(3) Cons by (auto split: if_splits)
    from xy yz have "x = z \<and> strcmp xs zs \<le> 0 \<or> byte x < byte z" using 4(1) by auto
    then show ?thesis using Cons by auto
  qed (use 4 in auto)
next
  case (1 ) then show ?case by simp
next
  case (2 y ys) then show ?case by (cases c) auto
next
  case (3 x xs) then show ?case by auto
qed

definition pair_of :: "weighed_cookie \<Rightarrow> string \<times> string" where
  "pair_of w = (c_attr (wc_cookie w), c_value (wc_cookie w))"

lemma equality_comparator_0: "equality_comparator a b = 0 \<longleftrightarrow> pair_of a = pair_of b"
  by (auto simp: equality_comparator_def pair_of_def Let_def strcmp_0)

lemma equality_comparator_flip: "equality_comparator b a = - equality_comparator a b"
  unfolding equality_comparator_def Let_def
  by (simp add: strcmp_flip[of "c_attr (wc_cookie b)"] strcmp_flip[of "c_value (wc_cookie b)"])

lemma strcmp_less_trans: "strcmp a b \<le> 0 \<Longrightarrow> strcmp b c \<le> 0 \<Longrightarrow> strcmp a b \<noteq> 0 \<or> strcmp b c \<noteq> 0 \<Longrightarrow> strcmp a c < 0"
proof -
  assume h: "strcmp a b \<le> 0" "strcmp b c \<le> 0" "strcmp a b \<noteq> 0 \<or> strcmp b c \<noteq> 0"
  have "strcmp a c \<noteq> 0"
  proof
    assume "strcmp a c = 0"
    then have "a = c" by (simp add: strcmp_0)
    then show False using h strcmp_flip[of c b] by auto
  qed
  then show ?thesis using strcmp_trans[OF h(1,2)] by simp
qed

lemma comparator_equality: "comparator equality_comparator"
proof -
  have tot: "equality_comparator x y \<le> 0 \<or> equality_comparator y x \<le> 0" for x y
    using equality_comparator_flip[of x y] by linarith
  have "equality_comparator x z \<le> 0" if h: "equality_comparator x y \<le> 0" "equality_comparator y z \<le> 0" for x y z
  proof -
    let ?n = "\<lambda>a b. strcmp (c_attr (wc_cookie a)) (c_attr (wc_cookie b))"
      and ?v = "\<lambda>a b. strcmp (c_value (wc_cookie a)) (c_value (wc_cookie b))"
    have n: "?n x y \<le> 0" "?n y z \<le> 0" and v: "?n x y = 0 \<Longrightarrow> ?v x y \<le> 0" "?n y z = 0 \<Longrightarrow> ?v y z \<le> 0"
      using h by (auto simp: equality_comparator_def Let_def split: if_splits)
    show ?thesis
    proof (cases "?n x y = 0 \<and> ?n y z = 0")
      case True
      then have "?n x z = 0" by (simp add: strcmp_0)
      then show ?thesis using True v strcmp_trans by (auto simp: equality_comparator_def Let_def)
    next
      case False
      then have "?n x z < 0" using strcmp_less_trans[OF n] by blast
      then show ?thesis by (simp add: equality_comparator_def Let_def)
    qed
  qed
  with tot show ?thesis unfolding comparator_def by blast
qed

lemma comparator_goodness: "comparator goodness_comparator"
  by (auto simp: comparator_def goodness_comparator_def Let_def)

subsection \<open>Removing duplicates\<close>

lemma skip_dups_subset: "set (skip_dups ws) \<subseteq> set ws"
  by (induction ws rule: skip_dups.induct) auto

lemma skip_dups_pairs: "pair_of ` set (skip_dups ws) = pair_of ` set ws"
  by (induction ws rule: skip_dups.induct) (auto simp: pair_of_def)

lemma skip_dups_nonempty: "ws \<noteq> [] \<Longrightarrow> skip_dups ws \<noteq> []"
  by (induction ws rule: skip_dups.induct) auto

lemma skip_dups_distinct:
  "sorted_wrt (\<lambda>a b. equality_comparator a b \<le> 0) ws \<Longrightarrow> distinct (map pair_of (skip_dups ws))"
proof (induction ws rule: skip_dups.induct)
  case (1 h0 h1 hs)
  show ?case
  proof (cases "pair_of h0 = pair_of h1")
    case True
    then show ?thesis using 1 by (auto simp: pair_of_def)
  next
    case False
    have "pair_of h0 \<noteq> pair_of w" if w: "w \<in> set (h1 # hs)" for w
    proof
      assume eq: "pair_of h0 = pair_of w"
      have "equality_comparator h1 w \<le> 0" using w 1(3) equality_comparator_0[of h1 h1] by auto
      moreover have "equality_comparator h1 w = equality_comparator h1 h0"
        using eq by (simp add: equality_comparator_def pair_of_def)
      moreover have "equality_comparator h0 h1 \<le> 0" using 1(3) by simp
      ultimately have "equality_comparator h0 h1 = 0" using equality_comparator_flip[of h1 h0] by linarith
      then show False using False equality_comparator_0 by blast
    qed
    then have "pair_of h0 \<notin> pair_of ` set (skip_dups (h1 # hs))" unfolding skip_dups_pairs by auto
    moreover have "skip_dups (h0 # h1 # hs) = h0 # skip_dups (h1 # hs)"
      using False by (auto simp: pair_of_def)
    moreover have "\<not> (c_attr (wc_cookie h0) = c_attr (wc_cookie h1) \<and> c_value (wc_cookie h0) = c_value (wc_cookie h1))"
      using False by (simp add: pair_of_def)
    then have "distinct (map pair_of (skip_dups (h1 # hs)))" using 1(2,3) by simp
    ultimately show ?thesis by simp
  qed
qed auto

lemma qsort_set: "qsort_spec qs \<Longrightarrow> comparator cmp \<Longrightarrow> set (qs cmp xs) = set xs"
  by (metis qsort_spec_def set_mset_mset)

subsection \<open>Parent domains\<close>

fun probes :: "nat \<Rightarrow> string \<Rightarrow> string list" where
  \<comment> \<open>the keys that \<open>find_chains_loop\<close> looks up\<close>
  "probes 0 h = [h]"
| "probes (Suc n) h = h # probes n (tl (dropWhile (\<lambda>c. c \<noteq> CHR ''.'') h))"

definition cookie_domains :: "string \<Rightarrow> string list" where
  "cookie_domains host = probes ((if numeric_address_p host then 1 else count_char host (CHR ''.'')) - 1) host"

lemma strchr_eq: "strchr s c = (if c \<in> set s then Some (dropWhile (\<lambda>x. x \<noteq> c) s) else None)"
  by (induction s) auto

lemma count_char_split:
  "c \<in> set s \<Longrightarrow> count_char s c = Suc (count_char (tl (dropWhile (\<lambda>x. x \<noteq> c) s)) c)"
  by (induction s) (auto simp: count_char_def)

lemma count_char_0: "count_char s c = 0 \<longleftrightarrow> c \<notin> set s"
  by (auto simp: count_char_def filter_empty_conv)

lemma find_chains_loop_ok:
  "jar_inv jar \<Longrightarrow> n \<le> count_char host (CHR ''.'') \<Longrightarrow>
     \<exists>chs. find_chains_loop (chains jar) n host = Some chs \<and> concat chs = concat (map (chain_of jar) (probes n host))
       \<and> [] \<notin> set chs"
proof (induction n arbitrary: host)
  case 0
  have ne: "snd p \<noteq> []" if "ht_find (chains jar) host = Some p" for p
    using jar_invD(2)[OF 0(1), of host "fst p" "snd p"] that by (auto simp: chain_ok_def)
  show ?case using ne by (cases "ht_find (chains jar) host")
    (auto simp: find_chains_loop.simps[of _ 0] nocase_keys.get_ok[OF jar_invD(1)[OF 0(1)]] chain_of_def)
next
  case (Suc n)
  let ?rest = "tl (dropWhile (\<lambda>c. c \<noteq> CHR ''.'') host)"
  have dot: "CHR ''.'' \<in> set host" using Suc.prems(2) count_char_0[of host "CHR ''.''"] by (metis not_less_eq_eq zero_le)
  have "n \<le> count_char ?rest (CHR ''.'')" using Suc.prems(2) count_char_split[OF dot] by simp
  from Suc.IH[OF Suc.prems(1) this] obtain chs where chs: "find_chains_loop (chains jar) n ?rest = Some chs"
    "concat chs = concat (map (chain_of jar) (probes n ?rest))" "[] \<notin> set chs" by blast
  have ne: "snd p \<noteq> []" if "ht_find (chains jar) host = Some p" for p
    using jar_invD(2)[OF Suc.prems(1), of host "fst p" "snd p"] that by (auto simp: chain_ok_def)
  show ?case using chs dot ne by (cases "ht_find (chains jar) host")
    (auto simp: find_chains_loop.simps[of _ "Suc n"] nocase_keys.get_ok[OF jar_invD(1)[OF Suc.prems(1)]] strchr_eq
      chain_of_def[of jar host])
qed

lemma numeric_has_dot: "numeric_address_p host \<Longrightarrow> 1 \<le> count_char host (CHR ''.'')"
proof -
  assume n: "numeric_address_p host"
  have "CHR ''.'' \<in> set host"
  proof -
    from n obtain p where p: "REQUIRE_DIGITS host = Some p" "REQUIRE_DOT p \<noteq> None"
      by (auto simp: numeric_address_p_def split: bind_splits)
    then have "p = dropWhile c_isdigit (tl host)" "deref p 0 = CHR ''.''"
      by (auto simp: REQUIRE_DIGITS_def REQUIRE_DOT_def split: if_splits)
    then have "CHR ''.'' \<in> set (dropWhile c_isdigit (tl host))"
      by (cases "dropWhile c_isdigit (tl host)") auto
    then have "CHR ''.'' \<in> set (tl host)" by (rule set_dropWhileD)
    then show ?thesis by (cases host) auto
  qed
  then show ?thesis using count_char_split[of "CHR ''.''" host] by simp
qed

lemma find_chains_ok:
  assumes "jar_inv jar"
  shows "\<exists>chs. find_chains_of_host jar host = Some chs \<and> concat chs = concat (map (chain_of jar) (cookie_domains host))
    \<and> (chs = [] \<longleftrightarrow> concat chs = [])"
proof (cases "hash_table_count (chains jar) = 0")
  case True
  then have "ht_entries (chains jar) = []" using ht_invD(4)[OF jar_invD(1)[OF assms]] by (simp add: hash_table_count_def)
  then have "chain_of jar d = []" for d by (simp add: chain_of_def ht_find_def)
  then show ?thesis using True by (simp add: find_chains_of_host_def)
next
  case False
  let ?n = "(if numeric_address_p host then 1 else count_char host (CHR ''.'')) - 1"
  have "?n \<le> count_char host (CHR ''.'')" by simp
  from find_chains_loop_ok[OF assms this] obtain chs where f: "find_chains_loop (chains jar) ?n host = Some chs"
    and c: "concat chs = concat (map (chain_of jar) (probes ?n host))" and ne: "[] \<notin> set chs" by blast
  have "find_chains_of_host jar host = Some chs" using f False unfolding find_chains_of_host_def by simp
  moreover have "chs = [] \<longleftrightarrow> concat chs = []" using ne by (cases chs) auto
  ultimately show ?thesis using c unfolding cookie_domains_def by blast
qed

lemma probes_iff:
  "n < count_char h (CHR ''.'') \<or> n = 0 \<Longrightarrow>
     d \<in> set (probes n h) \<longleftrightarrow> d = h \<or> (\<exists>x. h = x @ ''.'' @ d \<and> count_char x (CHR ''.'') < n)"
proof (induction n arbitrary: h)
  case (Suc n)
  let ?pre = "takeWhile (\<lambda>c. c \<noteq> CHR ''.'') h" and ?rest = "tl (dropWhile (\<lambda>c. c \<noteq> CHR ''.'') h)"
  have dot: "CHR ''.'' \<in> set h" using Suc.prems count_char_0[of h "CHR ''.''"] by auto
  have h: "h = ?pre @ ''.'' @ ?rest"
    using dot by (induction h) auto
  have npre: "CHR ''.'' \<notin> set ?pre" by (auto dest: set_takeWhileD)
  have IH: "d \<in> set (probes n ?rest) \<longleftrightarrow> d = ?rest \<or> (\<exists>x. ?rest = x @ ''.'' @ d \<and> count_char x (CHR ''.'') < n)"
    using Suc.IH[of ?rest] Suc.prems count_char_split[OF dot] by auto
  have "(\<exists>x. h = x @ ''.'' @ d \<and> count_char x (CHR ''.'') < Suc n) \<longleftrightarrow>
      d = ?rest \<or> (\<exists>x. ?rest = x @ ''.'' @ d \<and> count_char x (CHR ''.'') < n)" (is "?L \<longleftrightarrow> ?R")
  proof
    assume ?L
    then obtain x where x: "h = x @ ''.'' @ d" "count_char x (CHR ''.'') < Suc n" by blast
    show ?R
    proof (cases "CHR ''.'' \<in> set x")
      case False
      then have "?rest = d" unfolding x(1) by (induction x) auto
      then show ?thesis by simp
    next
      case True
      have "?rest = tl (dropWhile (\<lambda>c. c \<noteq> CHR ''.'') x) @ ''.'' @ d"
        using True unfolding x(1) by (induction x) auto
      moreover have "count_char (tl (dropWhile (\<lambda>c. c \<noteq> CHR ''.'') x)) (CHR ''.'') < n"
        using count_char_split[OF True] x(2) by simp
      ultimately show ?thesis by blast
    qed
  next
    have c0: "count_char ?pre (CHR ''.'') = 0" using npre by (simp add: count_char_0)
    assume ?R
    then show ?L
    proof
      assume "d = ?rest"
      then show ?thesis using h c0 by (intro exI[of _ ?pre]) simp
    next
      assume "\<exists>x. ?rest = x @ ''.'' @ d \<and> count_char x (CHR ''.'') < n"
      then obtain x where x: "?rest = x @ ''.'' @ d" "count_char x (CHR ''.'') < n" by blast
      have "h = (?pre @ ''.'' @ x) @ ''.'' @ d" using h x(1) by simp
      moreover have "count_char (?pre @ ''.'' @ x) (CHR ''.'') < Suc n"
        using c0 x(2) by (simp add: count_char_def)
      ultimately show ?thesis by blast
    qed
  qed
  then show ?case using IH by auto
qed simp

lemma cookie_domains_iff:
  "d \<in> set (cookie_domains host) \<longleftrightarrow>
     d = host \<or> \<not> numeric_address_p host \<and> (\<exists>x. host = x @ ''.'' @ d \<and> CHR ''.'' \<in> set d)"
proof (cases "numeric_address_p host")
  case True
  then show ?thesis by (simp add: cookie_domains_def)
next
  case False
  have "count_char x (CHR ''.'') < count_char host (CHR ''.'') - 1 \<longleftrightarrow> CHR ''.'' \<in> set d"
    if "host = x @ ''.'' @ d" for x
  proof -
    have "count_char host (CHR ''.'') = count_char x (CHR ''.'') + Suc (count_char d (CHR ''.''))"
      using that by (simp add: count_char_def)
    then show ?thesis using count_char_0[of d "CHR ''.''"] by auto
  qed
  moreover have "count_char host (CHR ''.'') - 1 < count_char host (CHR ''.'') \<or> count_char host (CHR ''.'') - 1 = 0" by auto
  ultimately show ?thesis using False probes_iff[of "count_char host (CHR ''.'') - 1" host d]
    by (auto simp: cookie_domains_def)
qed

subsection \<open>The selected cookies\<close>

definition eligible :: "int \<Rightarrow> cookie_jar \<Rightarrow> string \<Rightarrow> int \<Rightarrow> string \<Rightarrow> bool \<Rightarrow> cookie list" where
  "eligible now jar host port path secflag =
     filter (\<lambda>c. cookie_matches_url now c host port (CHR ''/'' # path) secflag \<noteq> None)
       (concat (map (chain_of jar) (cookie_domains host)))"

lemma map_filter_eq: "List.map_filter (\<lambda>c. map_option (g c) (f c)) cs = map (\<lambda>c. g c (the (f c))) (filter (\<lambda>c. f c \<noteq> None) cs)"
  by (induction cs) (auto simp: List.map_filter_simps split: option.splits)

lemma weigh_eq:
  "weigh now host port path secflag cs =
     map (\<lambda>c. \<lparr>wc_cookie = c, domain_goodness = int (length (c_domain c)),
         path_goodness = int (the (cookie_matches_url now c host port path secflag))\<rparr>)
       (filter (\<lambda>c. cookie_matches_url now c host port path secflag \<noteq> None) cs)"
  unfolding weigh_def by (rule map_filter_eq)

lemma print_pairs_length:
  "ws \<noteq> [] \<Longrightarrow> length (print_pairs ws) =
     sum_list (map (\<lambda>w. length (c_attr (wc_cookie w)) + 1 + length (c_value (wc_cookie w))) ws) + (length ws - 1) * 2"
  by (induction ws rule: print_pairs.induct) auto

definition by_goodness :: "weighed_cookie \<Rightarrow> weighed_cookie \<Rightarrow> bool" where
  "by_goodness a b \<longleftrightarrow> domain_goodness a > domain_goodness b
     \<or> domain_goodness a = domain_goodness b \<and> path_goodness a \<ge> path_goodness b"

lemma goodness_le_iff: "goodness_comparator a b \<le> 0 \<longleftrightarrow> by_goodness a b"
  by (auto simp: goodness_comparator_def by_goodness_def Let_def)

lemma cookie_header_ok:
  assumes inv: "jar_inv jar" and qs: "qsort_spec qs" and dots: "count_char host (CHR ''.'') < 32"
    and cs_def: "cs = eligible now jar host port path secflag"
  shows "cs = [] \<Longrightarrow> cookie_header qs now jar host port path secflag = Some None"
    "cs \<noteq> [] \<Longrightarrow> \<exists>ws. cookie_header qs now jar host port path secflag = Some (Some (print_pairs ws)) \<and>
      set ws \<subseteq> set (weigh now host port (CHR ''/'' # path) secflag cs) \<and>
      pair_of ` set ws = (\<lambda>c. (c_attr c, c_value c)) ` set cs \<and>
      distinct (map pair_of ws) \<and> sorted_wrt by_goodness ws"
proof -
  let ?m = "\<lambda>c. cookie_matches_url now c host port (CHR ''/'' # path) secflag \<noteq> None"
  obtain chs where chs: "find_chains_of_host jar host = Some chs"
    "concat chs = concat (map (chain_of jar) (cookie_domains host))" "chs = [] \<longleftrightarrow> concat chs = []"
    using find_chains_ok[OF inv] by blast
  let ?w = "weigh now host port (CHR ''/'' # path) secflag (concat chs)"
  have cs: "cs = filter ?m (concat chs)" using chs(2) by (simp add: cs_def eligible_def)
  have w_cs: "?w = weigh now host port (CHR ''/'' # path) secflag cs"
    unfolding weigh_eq cs by simp
  have w_map: "map wc_cookie ?w = cs" unfolding weigh_eq cs by (simp add: o_def)
  show "cookie_header qs now jar host port path secflag = Some None" if "cs = []"
    using that dots chs(1) w_map by (auto simp: cookie_header_def)
  assume ne: "cs \<noteq> []"
  then have ne': "?w \<noteq> []" "chs \<noteq> []" using w_map cs by auto
  let ?e = "qs equality_comparator ?w" and ?ws = "qs goodness_comparator (eliminate_dups qs ?w)"
  have e: "set ?e = set ?w" "sorted_wrt (\<lambda>a b. equality_comparator a b \<le> 0) ?e"
    using qs comparator_equality qsort_set by (auto simp: qsort_spec_def)
  have g: "mset ?ws = mset (skip_dups ?e)" "sorted_wrt (\<lambda>a b. goodness_comparator a b \<le> 0) ?ws"
    using qs comparator_goodness by (auto simp: qsort_spec_def eliminate_dups_def)
  have gs: "set ?ws = set (skip_dups ?e)" using g(1) by (rule mset_eq_setD)
  have "distinct (map pair_of (skip_dups ?e))" by (rule skip_dups_distinct[OF e(2)])
  moreover have "mset (map pair_of ?ws) = mset (map pair_of (skip_dups ?e))" using g(1) by simp
  ultimately have d: "distinct (map pair_of ?ws)" by (metis mset_eq_imp_distinct_iff)
  have "?e \<noteq> []" using e(1) ne'(1) by (metis set_empty)
  then have "?ws \<noteq> []" using gs skip_dups_nonempty[of ?e] by (metis set_empty)
  then have hdr: "cookie_header qs now jar host port path secflag = Some (Some (print_pairs ?ws))"
    using dots chs(1) ne' by (simp add: cookie_header_def print_pairs_length)
  have pairs: "pair_of ` set ?ws = (\<lambda>c. (c_attr c, c_value c)) ` set cs"
  proof -
    have "pair_of ` set ?ws = pair_of ` set ?w" by (simp add: gs skip_dups_pairs e(1))
    also have "\<dots> = (\<lambda>c. (c_attr c, c_value c)) ` set (map wc_cookie ?w)" by (auto simp: pair_of_def)
    finally show ?thesis by (simp only: w_map)
  qed
  have "set ?ws \<subseteq> set (weigh now host port (CHR ''/'' # path) secflag cs)"
    using gs skip_dups_subset e(1) w_cs by auto
  then show "\<exists>ws. cookie_header qs now jar host port path secflag = Some (Some (print_pairs ws)) \<and>
      set ws \<subseteq> set (weigh now host port (CHR ''/'' # path) secflag cs) \<and>
      pair_of ` set ws = (\<lambda>c. (c_attr c, c_value c)) ` set cs \<and>
      distinct (map pair_of ws) \<and> sorted_wrt by_goodness ws"
    using hdr pairs d g(2) by (intro exI[of _ ?ws]) (simp add: goodness_le_iff)
qed

lemma chain_of_mem:
  assumes inv: "jar_inv jar"
  shows "c \<in> set (chain_of jar d) \<longleftrightarrow> jar_lookup jar c = Some c \<and> lower (c_domain c) = lower d"
proof
  assume c: "c \<in> set (chain_of jar d)"
  then obtain key where h: "ht_find (chains jar) d = Some (key, chain_of jar d)"
    by (cases "ht_find (chains jar) d") (auto simp: chain_of_def)
  from jar_invD(2)[OF inv h] have ok: "chain_ok key (chain_of jar d)" "lower key = lower d" by auto
  have low: "lower (c_domain c) = lower d" using ok c by (auto simp: chain_ok_def)
  then have "ht_find (chains jar) (c_domain c) = Some (key, chain_of jar d)"
    using h jar_invD(1)[OF inv] by (simp add: nocase_keys.ht_find_iff string_cmp_nocase_iff)
  then have ch: "chain_of jar (c_domain c) = chain_of jar d" by (simp add: chain_of_def)
  have "find (same_cookie c) xs = Some c" if "sorted_wrt (\<lambda>a b. \<not> same_cookie a b) xs" "c \<in> set xs" for xs
    using that by (induction xs) (auto simp: same_cookie_sym)
  then have "jar_lookup jar c = Some c" using ok(1) c ch by (simp add: jar_lookup_def chain_ok_def)
  with low show "jar_lookup jar c = Some c \<and> lower (c_domain c) = lower d" by simp
next
  assume a: "jar_lookup jar c = Some c \<and> lower (c_domain c) = lower d"
  then have "c \<in> set (chain_of jar (c_domain c))" unfolding jar_lookup_def find_Some_iff by (metis nth_mem)
  moreover have "ht_find (chains jar) d = ht_find (chains jar) (c_domain c)"
    using a jar_invD(1)[OF inv]
    by (intro nocase_keys.ht_find_eqI) (auto simp: nocase_keys.ht_find_iff string_cmp_nocase_iff)
  ultimately show "c \<in> set (chain_of jar d)" by (simp add: chain_of_def)
qed

lemma matches_url_iff:
  "cookie_matches_url now c host port path secflag = Some pg \<longleftrightarrow>
     \<not> cookie_expired_p now c \<and> (secure c \<longrightarrow> secflag) \<and> (c_port c = PORT_ANY \<or> c_port c = port) \<and>
     (domain_exact c \<longrightarrow> lower host = lower (c_domain c)) \<and> prefix (c_path c) path \<and> pg = length (c_path c) + 1"
  by (auto simp: cookie_matches_url_def path_matches_def strcaseeq_def Let_def)

lemma matches_url_goodness:
  "cookie_matches_url now c host port path secflag \<noteq> None \<Longrightarrow>
     the (cookie_matches_url now c host port path secflag) = length (c_path c) + 1"
  by (auto simp: cookie_matches_url_def path_matches_def Let_def split: if_splits)

lemma eligible_iff:
  assumes "jar_inv jar"
  shows "c \<in> set (eligible now jar host port path secflag) \<longleftrightarrow>
    jar_lookup jar c = Some c \<and> (\<exists>d\<in>set (cookie_domains host). lower (c_domain c) = lower d) \<and>
    \<not> cookie_expired_p now c \<and> (secure c \<longrightarrow> secflag) \<and> (c_port c = PORT_ANY \<or> c_port c = port) \<and>
    (domain_exact c \<longrightarrow> lower host = lower (c_domain c)) \<and> prefix (c_path c) (CHR ''/'' # path)"
proof -
  have "(cookie_matches_url now c host port (CHR ''/'' # path) secflag \<noteq> None) \<longleftrightarrow>
    \<not> cookie_expired_p now c \<and> (secure c \<longrightarrow> secflag) \<and> (c_port c = PORT_ANY \<or> c_port c = port) \<and>
    (domain_exact c \<longrightarrow> lower host = lower (c_domain c)) \<and> prefix (c_path c) (CHR ''/'' # path)"
    using matches_url_iff[of now c host port "CHR ''/'' # path" secflag]
    by (cases "cookie_matches_url now c host port (CHR ''/'' # path) secflag") auto
  then show ?thesis using chain_of_mem[OF assms, of c] by (auto simp: eligible_def)
qed

subsection \<open>Properties\<close>

text \<open>
  C3. For a jar that satisfies the invariant, whatever \<open>qsort\<close> does with equal elements,
  \<open>cookie_header\<close> returns (its assertion on the length holds) and is NULL when no cookie is
  eligible; otherwise it is the list of name=value pairs of the eligible cookies, separated by
  semicolons, each pair once, ordered by decreasing length of the domain and then of the path.
\<close>

theorem cookie_header_complete:
  assumes "jar_inv jar" and "qsort_spec qs" and "count_char host (CHR ''.'') < 32"
  shows "\<exists>ws. cookie_header qs now jar host port path secflag =
      Some (if eligible now jar host port path secflag = [] then None else Some (print_pairs ws)) \<and>
    {(c_attr (wc_cookie w), c_value (wc_cookie w)) |w. w \<in> set ws} =
      {(c_attr c, c_value c) |c. c \<in> set (eligible now jar host port path secflag)} \<and>
    distinct (map (\<lambda>w. (c_attr (wc_cookie w), c_value (wc_cookie w))) ws) \<and>
    sorted_wrt (\<lambda>v w. length (c_domain (wc_cookie v)) > length (c_domain (wc_cookie w)) \<or>
      length (c_domain (wc_cookie v)) = length (c_domain (wc_cookie w)) \<and>
      length (c_path (wc_cookie v)) \<ge> length (c_path (wc_cookie w))) ws"
proof (cases "eligible now jar host port path secflag = []")
  case True
  then show ?thesis using cookie_header_ok(1)[OF assms refl] by (intro exI[of _ "[]"]) simp
next
  case False
  obtain ws where ws: "cookie_header qs now jar host port path secflag = Some (Some (print_pairs ws))"
    "set ws \<subseteq> set (weigh now host port (CHR ''/'' # path) secflag (eligible now jar host port path secflag))"
    "pair_of ` set ws = (\<lambda>c. (c_attr c, c_value c)) ` set (eligible now jar host port path secflag)"
    "distinct (map pair_of ws)" "sorted_wrt by_goodness ws"
    using cookie_header_ok(2)[OF assms refl False] by blast
  have g: "domain_goodness w = int (length (c_domain (wc_cookie w))) \<and> path_goodness w = int (length (c_path (wc_cookie w)) + 1)"
    if "w \<in> set ws" for w
    using subsetD[OF ws(2) that] matches_url_goodness unfolding weigh_eq by fastforce
  have "sorted_wrt (\<lambda>v w. length (c_domain (wc_cookie v)) > length (c_domain (wc_cookie w)) \<or>
      length (c_domain (wc_cookie v)) = length (c_domain (wc_cookie w)) \<and>
      length (c_path (wc_cookie v)) \<ge> length (c_path (wc_cookie w))) ws"
    by (rule sorted_wrt_mono_rel[OF _ ws(5)]) (use g in \<open>auto simp: by_goodness_def\<close>)
  then show ?thesis using ws(1,3,4) False
    by (intro exI[of _ ws]) (auto simp: pair_of_def[abs_def] image_def)
qed

lemma test_jar_eligible:
  assumes "jar_inv jar" "\<And>d. jar_lookup jar d = (if same_id (test_cookie domain val) d then Some (test_cookie domain val) else None)"
    and "domain \<in> set (cookie_domains host)"
  shows "set (eligible 0 jar host 80 [] False) = {test_cookie domain val}"
proof -
  let ?c = "test_cookie domain val"
  have stored: "jar_lookup jar c = Some c \<longleftrightarrow> c = ?c" for c using assms(2)[of c] by (auto simp: same_id_def)
  have c: "\<not> cookie_expired_p 0 ?c" "\<not> secure ?c" "c_port ?c = PORT_ANY" "\<not> domain_exact ?c"
    "prefix (c_path ?c) ''/''" "c_domain ?c = domain"
    by (simp_all add: test_cookie_def cookie_expired_p_def)
  have "c \<in> set (eligible 0 jar host 80 [] False) \<longleftrightarrow> c = ?c" for c
    unfolding eligible_iff[OF assms(1)] stored using c assms(3) by metis
  then show ?thesis by blast
qed

lemma distinct_singleton: "distinct xs \<Longrightarrow> set xs = {a} \<Longrightarrow> xs = [a]"
  by (cases xs; cases "tl xs") auto

theorem cookie_header_complete_witness:
  "\<exists>jar. cookie_header stable_sort 0 jar ''x.a.org'' 80 [] False = Some (Some ''id=1'')"
proof -
  let ?c = "test_cookie ''a.org'' ''1''" and ?pair = "\<lambda>w. (c_attr (wc_cookie w), c_value (wc_cookie w))"
  obtain jar where j: "jar_inv jar" "\<And>d. jar_lookup jar d = (if same_id ?c d then Some ?c else None)"
    using test_jar[of "''a.org''" "''1''"] by blast
  have "''a.org'' \<in> set (cookie_domains ''x.a.org'')" by code_simp
  note el = test_jar_eligible[OF j this]
  have dots: "count_char ''x.a.org'' (CHR ''.'') < 32" by code_simp
  obtain ws where ws: "cookie_header stable_sort 0 jar ''x.a.org'' 80 [] False =
      Some (if eligible 0 jar ''x.a.org'' 80 [] False = [] then None else Some (print_pairs ws))"
    "{?pair w |w. w \<in> set ws} = {(c_attr c, c_value c) |c. c \<in> set (eligible 0 jar ''x.a.org'' 80 [] False)}"
    "distinct (map ?pair ws)"
    using cookie_header_complete[OF j(1) qsort_spec_stable_sort dots, of 0 80 "[]" False] by blast
  have "set (map ?pair ws) = {?pair w |w. w \<in> set ws}" by auto
  also have "\<dots> = {(''id'', ''1'')}" unfolding ws(2) el by (simp add: test_cookie_def)
  finally have "map ?pair ws = [(''id'', ''1'')]" by (rule distinct_singleton[OF ws(3)])
  then obtain w where w: "ws = [w]" "c_attr (wc_cookie w) = ''id''" "c_value (wc_cookie w) = ''1''" by (auto simp: map_eq_Cons_conv)
  have "eligible 0 jar ''x.a.org'' 80 [] False \<noteq> []" using el by auto
  then show ?thesis using ws(1) w by (intro exI[of _ jar]) simp
qed



end
