(* ===== verification/Wget_Cookies_Set.thy ===== *)
theory Wget_Cookies_Set
  imports Wget_Cookies_Send
begin

section \<open>Which cookies are accepted\<close>

text \<open>
  What the domain and path checks guarantee, what processing a \<open>Set-Cookie\<close> header does to
  the jar on each of its branches, and the round trip through the cookie file.
\<close>

subsection \<open>The domain check\<close>

definition strip_dot :: "string \<Rightarrow> string" where
  "strip_dot d = (if deref d 0 = CHR ''.'' then tl d else d)"

lemma tolower_dot: "c_tolower c = CHR ''.'' \<longleftrightarrow> c = CHR ''.''"
  by (simp add: tolower_nonletter)

lemma scan_components_dccount:
  assumes "scan_components p dc l nl = Some (dc', l', nl')"
  shows "dc \<le> dc'" "dc < dc' \<Longrightarrow> \<exists>a b. p = a @ ''.'' @ b \<and> (a \<noteq> [] \<or> l > 0) \<and> b \<noteq> []"
  using assms
proof (induction p dc l nl rule: scan_components.induct)
  case (2 c p dc l nl)
  {
    case 1
    then show ?case using 2 by (fastforce split: if_splits)
  next
    case 2
    show ?case
    proof (cases "c = CHR ''.''")
      case True
      then have "l > 0" "p \<noteq> []" using 2 by (auto split: if_splits)
      then show ?thesis using True by (intro exI[of _ "[]"] exI[of _ p]) simp
    next
      case False
      then obtain a b where "p = a @ ''.'' @ b" "b \<noteq> []" using 2 "2.IH"(4) by auto
      then show ?thesis by (intro exI[of _ "c # a"] exI[of _ b]) simp
    qed
  }
qed auto

lemma scan_components_two:
  assumes "CHR ''.'' \<notin> set b" "b \<noteq> []"
  shows "CHR ''.'' \<notin> set a \<Longrightarrow> a \<noteq> [] \<or> l > 0 \<Longrightarrow> scan_components (a @ ''.'' @ b) dc l nl = Some (dc + 1, length b, l + length a)"
proof (induction a arbitrary: l)
  case Nil
  have "scan_components b dc l nl = Some (dc, l + length b, nl)" for dc l nl
    using assms(1) by (induction b arbitrary: l) auto
  then show ?case using Nil assms(2) by simp
qed auto

lemma check_domain_match_cases:
  assumes "check_domain_match d host" "\<not> strcaseeq d host"
  obtains dc l nl where "suffix (lower d) (lower host)" "scan_components (strip_dot d) 1 0 0 = Some (dc, l, nl)" "2 \<le> dc"
    "dc = 2 \<and> nl \<le> 3 \<longrightarrow> (\<exists>tld\<in>set known_toplevel_domains. suffix (lower tld) (lower d))"
    "deref d 0 \<noteq> CHR ''.'' \<and> length d < length host \<longrightarrow> host ! (length host - length d - 1) = CHR ''.''"
  using assms unfolding check_domain_match_def strip_dot_def[symmetric] Let_def
  by (auto simp: match_tail_iff list_ex_iff split: if_splits option.splits) blast+

lemma check_domain_match_suffix:
  assumes "check_domain_match d host" "\<not> strcaseeq d host"
  shows "suffix (CHR ''.'' # lower (strip_dot d)) (lower host)"
proof -
  obtain dc l nl where C: "suffix (lower d) (lower host)"
    "deref d 0 \<noteq> CHR ''.'' \<and> length d < length host \<longrightarrow> host ! (length host - length d - 1) = CHR ''.''"
    using check_domain_match_cases[OF assms] by blast
  show ?thesis
  proof (cases "deref d 0 = CHR ''.''")
    case True
    then have "d = CHR ''.'' # strip_dot d" by (cases d) (auto simp: strip_dot_def)
    then have "lower d = CHR ''.'' # lower (strip_dot d)" using tolower_dot by (metis lower_def list.simps(9))
    then show ?thesis using C(1) by simp
  next
    case False
    obtain x where x: "lower host = x @ lower d" using C(1) by (auto simp: suffix_def)
    then have len: "length host = length x + length d" by (metis length_append length_lower)
    have "x \<noteq> []" using x assms(2) by (auto simp: strcaseeq_def)
    then have "host ! (length x - 1) = CHR ''.''" using C(2) False len by simp
    moreover have "lower host ! (length x - 1) = x ! (length x - 1)"
      using \<open>x \<noteq> []\<close> unfolding x by (simp add: nth_append)
    moreover have "lower host ! (length x - 1) = c_tolower (host ! (length x - 1))"
      using \<open>x \<noteq> []\<close> len by (cases x) (simp_all add: lower_def)
    ultimately have "last x = CHR ''.''"
      using \<open>x \<noteq> []\<close> tolower_dot[of "CHR ''.''"] by (simp add: last_conv_nth)
    then have "lower host = butlast x @ CHR ''.'' # lower d" using x \<open>x \<noteq> []\<close>
      by (metis append_butlast_last_id append_assoc append_Cons append_Nil)
    then show ?thesis using False by (simp add: strip_dot_def suffix_def)
  qed
qed

text \<open>
  A cookie domain that passes \<open>check_domain_match\<close> for a host is (up to case) the host, or
  the host ends in a dot followed by the domain and the domain has at least two non-empty
  labels; a domain of exactly two labels whose first label has at most three characters
  passes for another host only under a known top-level domain.
\<close>

theorem check_domain_match_safe:
  assumes "check_domain_match d host"
  shows "lower d = lower host \<or>
    suffix (CHR ''.'' # lower (strip_dot d)) (lower host) \<and>
    (\<exists>a b. strip_dot d = a @ ''.'' @ b \<and> a \<noteq> [] \<and> b \<noteq> []) \<and>
    (\<forall>a b. strip_dot d = a @ ''.'' @ b \<and> CHR ''.'' \<notin> set (a @ b) \<and> b \<noteq> [] \<and> length a \<le> 3 \<longrightarrow>
      (\<exists>tld\<in>set known_toplevel_domains. suffix (lower tld) (lower d)))"
proof (cases "strcaseeq d host")
  case False
  obtain dc l nl where "suffix (lower d) (lower host)"
    and C: "scan_components (strip_dot d) 1 0 0 = Some (dc, l, nl)" "2 \<le> dc"
      "dc = 2 \<and> nl \<le> 3 \<longrightarrow> (\<exists>tld\<in>set known_toplevel_domains. suffix (lower tld) (lower d))"
    and "deref d 0 \<noteq> CHR ''.'' \<and> length d < length host \<longrightarrow> host ! (length host - length d - 1) = CHR ''.''"
    by (rule check_domain_match_cases[OF assms False])
  obtain a b where ab: "strip_dot d = a @ ''.'' @ b" "a \<noteq> []" "b \<noteq> []"
    using scan_components_dccount(2)[OF C(1)] C(2) by auto
  have "\<exists>tld\<in>set known_toplevel_domains. suffix (lower tld) (lower d)"
    if "strip_dot d = x @ ''.'' @ y" "CHR ''.'' \<notin> set (x @ y)" "y \<noteq> []" "length x \<le> 3" for x y
  proof -
    have "x \<noteq> []" using that(1) C(1) by (cases x) simp_all
    moreover have "CHR ''.'' \<notin> set x" "CHR ''.'' \<notin> set y" using that(2) by simp_all
    ultimately have "scan_components (strip_dot d) 1 0 0 = Some (2, length y, length x)"
      using scan_components_two[of y x 0 1 0] that(1,3) by simp
    then have "dc = 2" "nl = length x" using C(1) by simp_all
    then show ?thesis using C(3) that(4) by simp
  qed
  then have "\<forall>a b. strip_dot d = a @ ''.'' @ b \<and> CHR ''.'' \<notin> set (a @ b) \<and> b \<noteq> [] \<and> length a \<le> 3 \<longrightarrow>
      (\<exists>tld\<in>set known_toplevel_domains. suffix (lower tld) (lower d))" by blast
  moreover have "\<exists>a b. strip_dot d = a @ ''.'' @ b \<and> a \<noteq> [] \<and> b \<noteq> []" using ab by blast
  ultimately show ?thesis using check_domain_match_suffix[OF assms False] by simp
qed (simp add: strcaseeq_def)

theorem check_domain_match_safe_witness:
  "check_domain_match ''redhat.de'' ''sso.RedHat.de'' \<and> \<not> check_domain_match ''co.uk'' ''company.co.uk'' \<and>
   suffix (CHR ''.'' # lower (strip_dot ''redhat.de'')) (lower ''sso.RedHat.de'')"
proof -
  have c: "check_domain_match ''redhat.de'' ''sso.RedHat.de''" "\<not> check_domain_match ''co.uk'' ''company.co.uk''"
    "lower ''redhat.de'' \<noteq> lower ''sso.RedHat.de''"
    by (code_simp, code_simp, code_simp)
  from check_domain_match_safe[OF c(1)] c show ?thesis by blast
qed

subsection \<open>Processing a header\<close>

definition completed :: "string \<Rightarrow> int \<Rightarrow> string \<Rightarrow> parsed_cookie \<Rightarrow> cookie" where
  \<comment> \<open>the cookie that \<open>cookie_handle_set_cookie\<close> stores or uses to discard, with a given path\<close>
  "completed host port cpath p =
     (let (domain, exact, prt, discard) = complete_domain host port p in
      \<lparr>c_domain = domain, c_port = prt, c_path = cpath, discard_requested = discard,
       secure = p_secure p, domain_exact = exact, permanent = p_permanent p,
       expiry_time = p_expiry p, c_attr = p_attr p, c_value = p_value p\<rparr>)"

lemma handle_eq:
  assumes "parse_set_cookie lib now hdr = Some (Some p)"
  shows "cookie_handle_set_cookie lib now jar host port path hdr =
    (case complete_path (CHR ''/'' # path) p of
       None \<Rightarrow> Some jar
     | Some cpath \<Rightarrow>
         let c = completed host port cpath p in
         if discard_requested c then discard_matching_cookie jar c else store_cookie jar c)"
  using assms by (auto simp: cookie_handle_set_cookie_def completed_def Let_def split: option.splits prod.splits)

lemma completed_simps [simp]:
  "c_path (completed host port cpath p) = cpath" "c_attr (completed host port cpath p) = p_attr p"
  by (simp_all add: completed_def split: prod.splits)

lemma completed_domain:
  "p_domain p = None \<Longrightarrow> c_domain (completed host port cpath p) = host \<and>
     discard_requested (completed host port cpath p) = p_discard p"
  "p_domain p = Some d \<Longrightarrow> c_domain (completed host port cpath p) = d \<and> c_port (completed host port cpath p) = PORT_ANY \<and>
     discard_requested (completed host port cpath p) = (p_discard p \<or> \<not> check_domain_match d host)"
  by (simp_all add: completed_def complete_domain_def)

lemma complete_path_prefix: "complete_path path p = Some cpath \<Longrightarrow> prefix cpath path"
  by (auto simp: complete_path_def check_path_match_def path_matches_def take_is_prefix split: option.splits if_splits)

lemma handle_set_cookie_safe:
  assumes "jar_inv jar" and "cookie_handle_set_cookie lib now jar host port path hdr = Some jar'"
  shows "jar_inv jar'"
    "jar_lookup jar' d = Some c \<Longrightarrow> jar_lookup jar d = Some c \<or>
      (lower (c_domain c) = lower host \<or> check_domain_match (c_domain c) host) \<and>
      prefix (c_path c) (CHR ''/'' # path) \<and> \<not> discard_requested c"
proof -
  obtain parsed where pa: "parse_set_cookie lib now hdr = Some parsed"
    using assms(2) by (auto simp: cookie_handle_set_cookie_def bind_eq_Some_conv)
  consider (same) "jar' = jar" | (change) p cpath where "parsed = Some p" "complete_path (CHR ''/'' # path) p = Some cpath"
    using assms(2) pa by (auto simp: cookie_handle_set_cookie_def split: option.splits prod.splits)
  then have "jar_inv jar' \<and> (jar_lookup jar' d = Some c \<longrightarrow> jar_lookup jar d = Some c \<or>
      (lower (c_domain c) = lower host \<or> check_domain_match (c_domain c) host) \<and>
      prefix (c_path c) (CHR ''/'' # path) \<and> \<not> discard_requested c)"
  proof cases
    case change
    let ?c = "completed host port cpath p"
    note eq = handle_eq[OF pa[unfolded change(1)], of jar host port path]
    show ?thesis
    proof (cases "discard_requested ?c")
      case True
      then have d: "discard_matching_cookie jar ?c = Some jar'" using eq change(2) assms(2) by (simp add: Let_def)
      obtain j where j: "discard_matching_cookie jar ?c = Some j" "jar_inv j"
        "\<And>d. jar_lookup j d = (if same_id ?c d then None else jar_lookup jar d)"
        using discard_ok[OF assms(1), of ?c] by blast
      then show ?thesis using d by (simp split: if_splits)
    next
      case False
      then have st: "store_cookie jar ?c = Some jar'" using eq change(2) assms(2) by (simp add: Let_def)
      note S = store_ok[OF assms(1) st]
      have "lower (c_domain ?c) = lower host \<or> check_domain_match (c_domain ?c) host"
        using completed_domain(1)[of p host port cpath] completed_domain(2)[of p _ host port cpath] False
        by (cases "p_domain p") auto
      then show ?thesis using False S(1,2) complete_path_prefix[OF change(2)] by (auto split: if_splits)
    qed
  qed (use assms(1) in simp)
  then show "jar_inv jar'"
    "jar_lookup jar' d = Some c \<Longrightarrow> jar_lookup jar d = Some c \<or>
      (lower (c_domain c) = lower host \<or> check_domain_match (c_domain c) host) \<and>
      prefix (c_path c) (CHR ''/'' # path) \<and> \<not> discard_requested c" by blast+
qed

lemma handle_set_cookie_total:
  assumes "jar_inv jar" and "hash_table_count (chains jar) < 805306367" and "parse_set_cookie lib now hdr = Some parsed"
  shows "\<exists>jar'. cookie_handle_set_cookie lib now jar host port path hdr = Some jar' \<and> (parsed = None \<longrightarrow> jar' = jar)"
proof (cases parsed)
  case (Some p)
  note eq = handle_eq[OF assms(3)[unfolded Some], of jar host port path]
  show ?thesis
  proof (cases "complete_path (CHR ''/'' # path) p")
    case None
    then show ?thesis using eq Some by simp
  next
    case (Some cpath)
    let ?c = "completed host port cpath p"
    obtain j where "discard_matching_cookie jar ?c = Some j" using discard_ok[OF assms(1), of ?c] by blast
    moreover obtain j' where "store_cookie jar ?c = Some j'" using store_total[OF assms(1,2)] by blast
    ultimately show ?thesis using eq Some \<open>parsed = _\<close> by (simp add: Let_def)
  qed
qed (use assms(3) in \<open>simp add: cookie_handle_set_cookie_def\<close>)


definition test_libc :: "unit libc" where
  \<comment> \<open>a C library for the examples: no date parses, every number is 3600\<close>
  "test_libc = \<lparr>strptime = (\<lambda>s f. None), timegm = (\<lambda>t. -1), sscanf_lf = (\<lambda>s. Some 3600),
     print_f0 = (\<lambda>x. print_int \<lfloor>x\<rfloor>)\<rparr>"


text \<open>
  A cookie whose domain does not pass the domain check is not stored, but it is not
  ignored either: it discards the stored cookie with its domain, path and name, whichever
  host sent it.
\<close>

theorem foreign_domain_discards:
  assumes "jar_inv jar" and "parse_set_cookie lib now hdr = Some (Some p)" and "p_domain p = Some d"
    and "\<not> check_domain_match d host" and "p_path p = Some cp" and "prefix cp (CHR ''/'' # path)"
  shows "\<exists>jar'. cookie_handle_set_cookie lib now jar host port path hdr = Some jar' \<and>
    (\<forall>c. jar_lookup jar' c =
      (if lower (c_domain c) = lower d \<and> c_path c = cp \<and> c_attr c = p_attr p \<and> c_port c = PORT_ANY
       then None else jar_lookup jar c))"
proof -
  let ?c = "completed host port cp p"
  have path: "complete_path (CHR ''/'' # path) p = Some cp"
    using assms(5,6) by (simp add: complete_path_def check_path_match_def path_matches_def)
  have c: "c_domain ?c = d" "c_port ?c = PORT_ANY" "discard_requested ?c"
    using completed_domain(2)[OF assms(3)] assms(4) by auto
  obtain jar' where "discard_matching_cookie jar ?c = Some jar'"
    "\<And>d. jar_lookup jar' d = (if same_id ?c d then None else jar_lookup jar d)"
    using discard_ok[OF assms(1), of ?c] by blast
  then show ?thesis using handle_eq[OF assms(2), of jar host port path] path c
    by (intro exI[of _ jar']) (auto simp: same_id_def same_cookie_def)
qed

theorem foreign_domain_discards_witness:
  "\<exists>jar jar'. jar_inv jar \<and> jar_lookup jar (test_cookie ''bank.org'' ''1'') = Some (test_cookie ''bank.org'' ''1'') \<and>
     cookie_handle_set_cookie test_libc 0 jar ''evil.com'' 80 [] ''id=2; path=/; domain=bank.org'' = Some jar' \<and>
     jar_lookup jar' (test_cookie ''bank.org'' ''1'') = None"
proof -
  let ?c = "test_cookie ''bank.org'' ''1''"
  obtain jar where j: "jar_inv jar" "\<And>d. jar_lookup jar d = (if same_id ?c d then Some ?c else None)"
    using test_jar[of "''bank.org''" "''1''"] by blast
  have p: "parse_set_cookie test_libc 0 ''id=2; path=/; domain=bank.org'' = Some (Some \<lparr>p_attr = ''id'', p_value = ''2'',
      p_domain = Some ''bank.org'', p_path = Some ''/'', p_discard = False, p_secure = False, p_permanent = False, p_expiry = 0\<rparr>)"
    by code_simp
  have m: "\<not> check_domain_match ''bank.org'' ''evil.com''" by code_simp
  obtain jar' where "cookie_handle_set_cookie test_libc 0 jar ''evil.com'' 80 [] ''id=2; path=/; domain=bank.org'' = Some jar'"
    "jar_lookup jar' ?c = (if lower (c_domain ?c) = lower ''bank.org'' \<and> c_path ?c = ''/'' \<and> c_attr ?c = ''id'' \<and> c_port ?c = PORT_ANY
       then None else jar_lookup jar ?c)"
    using foreign_domain_discards[OF j(1) p _ m, of "''/''" "[]" 80] by auto
  moreover have "jar_lookup jar ?c = Some ?c" using j(2) by (simp add: same_id_def)
  ultimately show ?thesis using j(1) by (intro exI[of _ jar] exI[of _ jar']) (simp add: test_cookie_def)
qed

end
