(* ===== verification/Wget_Url_Types.thy ===== *)
theory Wget_Url_Types
  imports C_Prelude
begin

section \<open>URL structures (wget/src/url.h)\<close>

text \<open>
  The scheme enumeration and \<open>struct url\<close> of \<open>url.h\<close>, built with SSL support as the
  repository's Makefile configures it. A pointer that may be NULL is an option.
\<close>

datatype url_scheme = SCHEME_HTTP | SCHEME_HTTPS | SCHEME_FTP | SCHEME_FTPS | SCHEME_INVALID

record url_struct =
  u_url :: string
  u_scheme :: url_scheme
  u_host :: string
  u_port :: int
  u_path :: string
  u_params :: "string option"
  u_query :: "string option"
  u_fragment :: "string option"
  u_dir :: string
  u_file :: string
  u_user :: "string option"
  u_passwd :: "string option"

definition DEFAULT_HTTP_PORT :: int where
  "DEFAULT_HTTP_PORT = 80"

definition DEFAULT_HTTPS_PORT :: int where
  "DEFAULT_HTTPS_PORT = 443"

definition DEFAULT_FTP_PORT :: int where
  "DEFAULT_FTP_PORT = 21"

end
