(* ===== verification/Wget_Http_Cookies.thy ===== *)
theory Wget_Http_Cookies
  imports Wget_Http_Head_Props Wget_Cookies_Set Wget_Url_Types
begin

section \<open>Cookies of a response (wget/src/http.c, gethttp)\<close>

text \<open>
  The loop of \<open>gethttp\<close> that hands every \<open>Set-Cookie\<close> header of a response to the jar. It
  processes each of them once, in order, never reads behind the array of headers, and lets
  only cookies of the responding host in.
\<close>

lemma locate_loop_bounds: "locate_loop nm ls i = Some (k, v) \<Longrightarrow> i \<le> k \<and> k < i + length ls"
proof (induction ls arbitrary: i)
  case (Cons l ls)
  show ?case
  proof (cases "header_value nm l")
    case None
    then have "locate_loop nm ls (i + 1) = Some (k, v)" using Cons.prems by simp
    from Cons.IH[OF this] show ?thesis by simp
  qed (use Cons.prems in simp)
qed simp

lemma resp_header_locate_bounds:
  assumes "resp_header_locate resp nm start = Some (Some (i, v))"
  shows "start \<le> i" "\<exists>ls. resp_lines resp = Some ls \<and> i < length ls"
  using assms locate_loop_bounds
  by (fastforce simp: resp_header_locate_def Let_def split: option.splits if_splits)+

function set_cookie_loop ::
  "'tm libc \<Rightarrow> int \<Rightarrow> response \<Rightarrow> string \<Rightarrow> int \<Rightarrow> string \<Rightarrow> cookie_jar \<Rightarrow> nat \<Rightarrow> cookie_jar run" where
  "set_cookie_loop lib now resp host port path jar scpos =
     (case resp_header_locate resp ''Set-Cookie'' scpos of
        None \<Rightarrow> None
      | Some None \<Rightarrow> Some jar
      | Some (Some (scpos, set_cookie)) \<Rightarrow> do {
          jar \<leftarrow> cookie_handle_set_cookie lib now jar host port path set_cookie;
          set_cookie_loop lib now resp host port path jar (scpos + 1) })"
  by pat_completeness auto
termination
proof (relation "measure (\<lambda>(lib, now, resp, host, port, path, jar, scpos). Suc (length (the (resp_lines resp))) - scpos)", goal_cases)
  case (2 lib now resp host port path jar scpos r p i v j)
  then have "resp_header_locate resp ''Set-Cookie'' scpos = Some (Some (i, v))" by simp
  from resp_header_locate_bounds[OF this] show ?case by auto
qed simp

declare set_cookie_loop.simps [simp del]

definition gethttp_cookies :: "'tm libc \<Rightarrow> int \<Rightarrow> bool \<Rightarrow> response \<Rightarrow> url_struct \<Rightarrow> cookie_jar \<Rightarrow> cookie_jar run" where
  "gethttp_cookies lib now opt_cookies resp u jar =
     (if opt_cookies then set_cookie_loop lib now resp (u_host u) (u_port u) (u_path u) jar 0 else Some jar)"

fun handle_all ::
  "'tm libc \<Rightarrow> int \<Rightarrow> string \<Rightarrow> int \<Rightarrow> string \<Rightarrow> cookie_jar \<Rightarrow> string list \<Rightarrow> cookie_jar run" where
  \<comment> \<open>reference: the values one after the other\<close>
  "handle_all lib now host port path jar [] = Some jar"
| "handle_all lib now host port path jar (v # vs) = do {
     jar \<leftarrow> cookie_handle_set_cookie lib now jar host port path v;
     handle_all lib now host port path jar vs }"

lemma locate_loop_rest:
  "locate_loop nm ls i =
     (case List.map_filter (header_value nm) ls of
        [] \<Rightarrow> None
      | v # vs \<Rightarrow> Some (i + length (takeWhile (\<lambda>l. header_value nm l = None) ls), v))"
  by (induction ls arbitrary: i) (auto simp: map_filter_simps split: option.splits list.splits)

lemma map_filter_rest:
  assumes "List.map_filter f ls = v # vs"
  shows "List.map_filter f (drop (Suc (length (takeWhile (\<lambda>l. f l = None) ls))) ls) = vs"
  using assms by (induction ls) (auto simp: map_filter_simps split: option.splits)

lemma set_cookie_loop_all:
  assumes "resp_lines resp = Some (l # ls)"
  shows "i \<le> length ls \<Longrightarrow> set_cookie_loop lib now resp host port path jar (Suc i) =
    handle_all lib now host port path jar (List.map_filter (header_value ''Set-Cookie'') (drop i ls))"
proof (induction "length ls - i" arbitrary: i jar rule: less_induct)
  case less
  have loc: "resp_header_locate resp ''Set-Cookie'' (Suc i) = Some (locate_loop ''Set-Cookie'' (drop i ls) (Suc i))"
    using assms less.prems by (simp add: resp_header_locate_def Let_def)
  show ?case
  proof (cases "List.map_filter (header_value ''Set-Cookie'') (drop i ls)")
    case Nil
    then show ?thesis using loc by (subst set_cookie_loop.simps) (simp add: locate_loop_rest)
  next
    case (Cons v vs)
    define n where "n = length (takeWhile (\<lambda>l. header_value ''Set-Cookie'' l = None) (drop i ls))"
    have "locate_loop ''Set-Cookie'' (drop i ls) (Suc i) = Some (Suc i + n, v)" using Cons by (simp add: locate_loop_rest n_def)
    then have b: "Suc i + n < Suc i + length (drop i ls)" using locate_loop_bounds by blast
    have "List.map_filter (header_value ''Set-Cookie'') (drop (Suc (i + n)) ls) = vs"
      using map_filter_rest[OF Cons] by (simp add: n_def add.commute)
    moreover have "set_cookie_loop lib now resp host port path j (Suc (Suc (i + n))) =
        handle_all lib now host port path j (List.map_filter (header_value ''Set-Cookie'') (drop (Suc (i + n)) ls))" for j
      using b less.prems by (intro less.hyps) auto
    ultimately show ?thesis
      using Cons loc \<open>locate_loop _ _ _ = _\<close> by (subst set_cookie_loop.simps) simp
  qed
qed

lemma set_cookie_loop_start:
  assumes "resp_lines resp = Some (l # ls)"
  shows "set_cookie_loop lib now resp host port path jar 0 = set_cookie_loop lib now resp host port path jar 1"
proof -
  have "resp_header_locate resp nm 0 = resp_header_locate resp nm 1" for nm by (simp add: resp_header_locate_def Let_def split: option.splits)
  then show ?thesis by (subst (1 2) set_cookie_loop.simps) simp
qed

lemma handle_all_safe:
  assumes "jar_inv jar" "handle_all lib now host port path jar vs = Some jar'"
  shows "jar_inv jar' \<and> (jar_lookup jar' d = Some c \<longrightarrow> jar_lookup jar d = Some c \<or>
      (lower (c_domain c) = lower host \<or> check_domain_match (c_domain c) host) \<and>
      prefix (c_path c) (CHR ''/'' # path) \<and> \<not> discard_requested c)"
  using assms
proof (induction vs arbitrary: jar)
  case (Cons v vs)
  then obtain j where j: "cookie_handle_set_cookie lib now jar host port path v = Some j"
    "handle_all lib now host port path j vs = Some jar'" by (auto simp: bind_eq_Some_conv)
  note S = handle_set_cookie_safe[OF Cons.prems(1) j(1)]
  then show ?case using Cons.IH[OF S(1) j(2)] by blast
qed simp

lemma field_values:
  assumes "CHR '':'' \<notin> set nm"
  shows "List.map_filter (header_value nm) (map (\<lambda>m. m @ [CR, LF]) ls) =
    map snd (filter (\<lambda>f. fst f = lower nm) (List.map_filter field ls))"
  by (induction ls) (auto simp: map_filter_simps header_value_field[OF assms] split: option.splits)

text \<open>
  C6. Processing a response hands the values of its \<open>Set-Cookie\<close> fields, unfolded and trimmed, to
  the jar in their order, each exactly once; the jar keeps its invariant, and a cookie that is
  in it afterwards was there before or belongs to the host that answered and to a prefix of
  the path that was asked for.
\<close>

theorem response_cookies_confined:
  assumes "\<forall>l\<in>set (status # ls). good_line l" "jar_inv jar"
    and "gethttp_cookies lib now True (resp_new (crlf_lines (status # ls) @ [CR, LF] @ body)) u jar = Some jar'"
  shows "handle_all lib now (u_host u) (u_port u) (u_path u) jar
      (map snd (filter (\<lambda>f. fst f = ''set-cookie'') (List.map_filter field (tl (unfold_lines (status # ls)))))) = Some jar' \<and>
    jar_inv jar' \<and>
    (\<forall>d c. jar_lookup jar' d = Some c \<longrightarrow> jar_lookup jar d = Some c \<or>
      (lower (c_domain c) = lower (u_host u) \<or> check_domain_match (c_domain c) (u_host u)) \<and>
      prefix (c_path c) (CHR ''/'' # u_path u) \<and> \<not> discard_requested c)"
proof -
  let ?h = "crlf_lines (status # ls) @ [CR, LF] @ body"
  let ?ls = "map (\<lambda>m. m @ [CR, LF]) (unfold_lines (status # ls))"
  have "?h \<noteq> []" by simp
  then have r: "resp_lines (resp_new ?h) = Some (hd ?ls # tl ?ls)"
    using resp_split_lines[OF assms(1), of body] by (simp add: resp_new_def)
  have t: "tl ?ls = map (\<lambda>m. m @ [CR, LF]) (tl (unfold_lines (status # ls)))" by (simp add: map_tl)
  have n: "lower ''Set-Cookie'' = ''set-cookie''" "CHR '':'' \<notin> set ''Set-Cookie''" by code_simp+
  have v: "List.map_filter (header_value ''Set-Cookie'') (tl ?ls) =
      map snd (filter (\<lambda>f. fst f = ''set-cookie'') (List.map_filter field (tl (unfold_lines (status # ls)))))"
    unfolding t field_values[OF n(2)] n(1) ..
  have "handle_all lib now (u_host u) (u_port u) (u_path u) jar (List.map_filter (header_value ''Set-Cookie'') (tl ?ls)) = Some jar'"
    using assms(3) unfolding gethttp_cookies_def if_True set_cookie_loop_start[OF r] One_nat_def set_cookie_loop_all[OF r le0] drop_0 .
  then show ?thesis using handle_all_safe[OF assms(2)] unfolding v by blast
qed

theorem response_cookies_confined_witness:
  "\<exists>jar jar'. jar_inv jar \<and>
     gethttp_cookies test_libc 0 True (resp_new (crlf_lines [''HTTP/1.1 200 OK'', ''set-cookie: id=2; path=/''] @ [CR, LF] @ ''x''))
       \<lparr>u_url = [], u_scheme = SCHEME_HTTP, u_host = ''b.org'', u_port = 80, u_path = [], u_params = None, u_query = None,
         u_fragment = None, u_dir = [], u_file = [], u_user = None, u_passwd = None\<rparr> jar = Some jar' \<and> jar_inv jar'"
proof -
  let ?u = "\<lparr>u_url = [], u_scheme = SCHEME_HTTP, u_host = ''b.org'', u_port = 80, u_path = [], u_params = None, u_query = None,
         u_fragment = None, u_dir = [], u_file = [], u_user = None, u_passwd = None\<rparr>"
  let ?r = "resp_new (crlf_lines [''HTTP/1.1 200 OK'', ''set-cookie: id=2; path=/''] @ [CR, LF] @ ''x'')"
  obtain jar where j: "cookie_jar_new = Some jar" "jar_inv jar" "hash_table_count (chains jar) = 0"
    using jar_new_ok by blast
  have g: "\<forall>l\<in>set [''HTTP/1.1 200 OK'', ''set-cookie: id=2; path=/'']. good_line l" by code_simp
  have "case cookie_jar_new of None \<Rightarrow> False | Some jar \<Rightarrow> gethttp_cookies test_libc 0 True ?r ?u jar \<noteq> None" by code_simp
  then have "gethttp_cookies test_libc 0 True ?r ?u jar \<noteq> None" unfolding j(1) option.case .
  then obtain jar' where c: "gethttp_cookies test_libc 0 True ?r ?u jar = Some jar'" by blast
  from response_cookies_confined[OF g j(2) c] j(2) c show ?thesis by blast
qed

end
