(* ===== verification/Wget_Host.thy ===== *)
theory Wget_Host
  imports Wget_Url_Types Wget_Utils
begin

section \<open>Addresses and domains (wget/src/host.c)\<close>

text \<open>
  The recognisers of numeric addresses, the list of addresses of a host with its faulty
  prefix, and the domain filters \<open>sufmatch\<close> and \<open>accept_domain\<close> of \<open>host.c\<close>. Name resolution
  itself (\<open>getaddrinfo\<close>, timeouts, the cache of reference-counted lists) is not modelled.
\<close>

subsection \<open>Numeric addresses\<close>

fun ipv4_loop :: "string \<Rightarrow> bool \<Rightarrow> nat \<Rightarrow> nat \<Rightarrow> bool" where
  \<comment> \<open>\<open>while (str < end)\<close> on the state \<open>saw_digit\<close>, \<open>octets\<close>, \<open>val\<close>\<close>
  "ipv4_loop [] saw_digit octets v = (\<not> octets < 4)"
| "ipv4_loop (ch # str) saw_digit octets v =
     (if c_isdigit ch then
        let v = v * 10 + (byte ch - 48) in
        if v > 255 then False
        else if \<not> saw_digit then
          if octets + 1 > 4 then False else ipv4_loop str True (octets + 1) v
        else ipv4_loop str saw_digit octets v
      else if ch = CHR ''.'' \<and> saw_digit then
        if octets = 4 then False else ipv4_loop str False octets 0
      else False)"

definition is_valid_ipv4_address :: "string \<Rightarrow> bool" where
  "is_valid_ipv4_address str = ipv4_loop str False 0 0"

fun ipv6_loop :: "string \<Rightarrow> string \<Rightarrow> nat \<Rightarrow> bool \<Rightarrow> bool \<Rightarrow> nat \<Rightarrow> (nat \<times> bool \<times> bool) option" where
  \<comment> \<open>\<open>curtok\<close>, \<open>tp\<close>, whether \<open>colonp\<close> is set, \<open>saw_xdigit\<close>, \<open>val\<close>; the result is \<open>tp\<close>, \<open>colonp\<close> and
      \<open>saw_xdigit\<close> after the loop\<close>
  "ipv6_loop [] curtok tp colonp saw_xdigit v = Some (tp, colonp, saw_xdigit)"
| "ipv6_loop (ch # str) curtok tp colonp saw_xdigit v =
     (if c_isxdigit ch then
        let v = v * 16 + unhex ch in
        if v > 0xffff then None else ipv6_loop str curtok tp colonp True v
      else if ch = CHR '':'' then
        if \<not> saw_xdigit then
          if colonp then None else ipv6_loop str str tp True saw_xdigit v
        else if str = [] then None
        else if tp > 14 then None
        else ipv6_loop str str (tp + 2) colonp False 0
      else if ch = CHR ''.'' \<and> tp \<le> 12 \<and> is_valid_ipv4_address curtok then Some (tp + 4, colonp, False)
      else None)"

definition is_valid_ipv6_address :: "string \<Rightarrow> bool" where
  "is_valid_ipv6_address str =
     (if str = [] then False
      else if hd str = CHR '':'' \<and> (tl str = [] \<or> hd (tl str) \<noteq> CHR '':'') then False
      else
        let str = (if hd str = CHR '':'' then tl str else str) in
        case ipv6_loop str str 0 False False 0 of
          None \<Rightarrow> False
        | Some (tp, colonp, saw_xdigit) \<Rightarrow>
            if saw_xdigit \<and> tp > 14 then False
            else
              let tp = (if saw_xdigit then tp + 2 else tp) in
              if colonp then tp \<noteq> 16 else tp = 16)"

definition is_valid_ip_address :: "string \<Rightarrow> bool" where
  "is_valid_ip_address name =
     (if is_valid_ipv4_address name then True
      else if is_valid_ipv6_address name then True else False)"

subsection \<open>Address lists\<close>

datatype ip_address = Inet "32 word" | Inet6 "128 word" nat \<comment> \<open>address and scope\<close>

record address_list =
  addresses :: "ip_address list" \<comment> \<open>\<open>count\<close> is its length\<close>
  faulty :: nat
  connected :: bool

definition address_list_get_bounds :: "address_list \<Rightarrow> nat \<times> nat" where
  "address_list_get_bounds al = (faulty al, length (addresses al))"

definition address_list_address_at :: "address_list \<Rightarrow> nat \<Rightarrow> ip_address run" where
  "address_list_address_at al pos =
     (if pos \<ge> faulty al \<and> pos < length (addresses al) then Some (addresses al ! pos) else None)"

definition address_list_contains :: "address_list \<Rightarrow> ip_address \<Rightarrow> bool" where
  "address_list_contains al ip =
     (case ip of
        Inet a \<Rightarrow> list_ex (\<lambda>cur. case cur of Inet b \<Rightarrow> b = a | Inet6 b s \<Rightarrow> False) (addresses al)
      | Inet6 a scope \<Rightarrow>
          list_ex (\<lambda>cur. case cur of Inet b \<Rightarrow> False | Inet6 b s \<Rightarrow> s = scope \<and> b = a) (addresses al))"

definition address_list_set_faulty :: "address_list \<Rightarrow> nat \<Rightarrow> address_list run" where
  "address_list_set_faulty al index =
     (if index \<noteq> faulty al then None
      else
        let f = faulty al + 1 in
        Some (al\<lparr>faulty := (if f \<ge> length (addresses al) then 0 else f)\<rparr>))"

definition address_list_set_connected :: "address_list \<Rightarrow> address_list" where
  "address_list_set_connected al = al\<lparr>connected := True\<rparr>"

definition address_list_connected_p :: "address_list \<Rightarrow> bool" where
  "address_list_connected_p al = connected al"

subsection \<open>Domain filters\<close>

fun tail_scan :: "string \<Rightarrow> string \<Rightarrow> string option" where
  \<comment> \<open>the loop of \<open>sufmatch\<close> on the reversed strings: what is left of the second one when the
      first one is exhausted\<close>
  "tail_scan [] w = Some w"
| "tail_scan (c # l) [] = None"
| "tail_scan (c # l) (d # w) = (if c_tolower c \<noteq> c_tolower d then None else tail_scan l w)"

fun sufmatch :: "string list \<Rightarrow> string \<Rightarrow> bool" where
  "sufmatch [] what = False"
| "sufmatch (l # list) what =
     (if length what < length l then sufmatch list what
      else
        case tail_scan (rev l) (rev what) of
          None \<Rightarrow> sufmatch list what
        | Some left \<Rightarrow>
            if left = [] \<or> hd left = CHR ''.'' \<or> deref l 0 = CHR ''.'' then True else sufmatch list what)"

definition accept_domain :: "string list option \<Rightarrow> string list option \<Rightarrow> url_struct \<Rightarrow> bool" where
  \<comment> \<open>\<open>opt.domains\<close> and \<open>opt.exclude_domains\<close>\<close>
  "accept_domain domains exclude_domains u =
     (if (case domains of None \<Rightarrow> False | Some l \<Rightarrow> \<not> sufmatch l (u_host u)) then False
      else if (case exclude_domains of None \<Rightarrow> False | Some l \<Rightarrow> sufmatch l (u_host u)) then False
      else True)"

subsection \<open>Facts\<close>

lemma tail_scan_iff:
  "tail_scan l w = Some left \<longleftrightarrow> (\<exists>m. w = m @ left \<and> lower m = lower l)"
proof (induction l w rule: tail_scan.induct)
  case (3 c l d w)
  have "(\<exists>m. d # w = m @ left \<and> lower m = lower (c # l)) \<longleftrightarrow>
      c_tolower d = c_tolower c \<and> (\<exists>m. w = m @ left \<and> lower m = lower l)" (is "?L \<longleftrightarrow> ?R")
  proof
    assume ?L
    then obtain m where m: "d # w = m @ left" "lower m = lower (c # l)" by blast
    then show ?R by (cases m) (auto simp: lower_def)
  next
    assume ?R
    then obtain m where "w = m @ left" "lower m = lower l" "c_tolower d = c_tolower c" by blast
    then show ?L by (intro exI[of _ "d # m"]) (simp add: lower_def)
  qed
  then show ?case using 3 by auto
qed (auto simp: lower_def)

lemma lower_rev: "lower (rev s) = rev (lower s)"
  by (simp add: lower_def rev_map)

definition in_domain :: "string \<Rightarrow> string \<Rightarrow> bool" where
  \<comment> \<open>the host is the domain, or a subdomain of it, or ends in a domain written with a leading dot\<close>
  "in_domain l host \<longleftrightarrow>
     (\<exists>x m. host = x @ m \<and> lower m = lower l \<and> (x = [] \<or> last x = CHR ''.'' \<or> deref l 0 = CHR ''.''))"

lemma sufmatch_ex: "sufmatch list what \<longleftrightarrow> (\<exists>l\<in>set list. in_domain l what)"
proof (induction list)
  case (Cons l list)
  have long: "length l \<le> length what" if "in_domain l what"
  proof -
    obtain x m where "what = x @ m" "lower m = lower l" using \<open>in_domain l what\<close> by (auto simp: in_domain_def)
    then have "length m = length l" by (metis length_lower)
    then show ?thesis using \<open>what = x @ m\<close> by simp
  qed
  have iff: "in_domain l what \<longleftrightarrow> (\<exists>left. tail_scan (rev l) (rev what) = Some left \<and>
      (left = [] \<or> hd left = CHR ''.'' \<or> deref l 0 = CHR ''.''))" (is "_ \<longleftrightarrow> ?S")
  proof
    assume "in_domain l what"
    then obtain x m where x: "what = x @ m" "lower m = lower l" "x = [] \<or> last x = CHR ''.'' \<or> deref l 0 = CHR ''.''"
      by (auto simp: in_domain_def)
    then have "tail_scan (rev l) (rev what) = Some (rev x)"
      unfolding tail_scan_iff by (intro exI[of _ "rev m"]) (simp add: lower_rev)
    then show ?S using x(3) by (intro exI[of _ "rev x"]) (auto simp: hd_rev)
  next
    assume ?S
    then obtain left m where m: "rev what = m @ left" "lower m = lower (rev l)" "left = [] \<or> hd left = CHR ''.'' \<or> deref l 0 = CHR ''.''"
      unfolding tail_scan_iff by blast
    have "what = rev left @ rev m" using m(1) by (metis rev_append rev_rev_ident)
    moreover have "lower (rev m) = lower l" using m(2) by (metis lower_rev rev_rev_ident)
    ultimately show "in_domain l what" using m(3) unfolding in_domain_def
      by (intro exI[of _ "rev left"] exI[of _ "rev m"]) (auto simp: last_rev)
  qed
  have "sufmatch (l # list) what \<longleftrightarrow> in_domain l what \<or> sufmatch list what"
  proof (cases "length what < length l")
    case True
    then show ?thesis using long by auto
  next
    case False
    then show ?thesis unfolding iff by (cases "tail_scan (rev l) (rev what)") simp_all
  qed
  then show ?case using Cons by simp
qed simp

definition octet :: "string \<Rightarrow> bool" where
  "octet x \<longleftrightarrow> x \<noteq> [] \<and> (\<forall>c\<in>set x. c_isdigit c) \<and> foldl (\<lambda>n c. n * 10 + (byte c - 48)) 0 x \<le> 255"


lemma octet_chars: "octet x \<Longrightarrow> CHR ''.'' \<notin> set x"
  by (auto simp: octet_def c_isdigit_def)

lemma foldl_digits_mono: "v \<le> foldl (\<lambda>n c. n * 10 + (byte c - 48)) v x" for v :: nat
proof (induction x arbitrary: v)
  case (Cons c x)
  have "v \<le> v * 10 + (byte c - 48)" by simp
  also have "\<dots> \<le> foldl (\<lambda>n c. n * 10 + (byte c - 48)) (v * 10 + (byte c - 48)) x" by (rule Cons)
  finally show ?case by simp
qed simp

lemma ipv4_digits:
  \<comment> \<open>scanning a run of digits after the first one\<close>
  "\<forall>c\<in>set x. c_isdigit c \<Longrightarrow>
     ipv4_loop (x @ r) True n v = (if x \<noteq> [] \<and> foldl (\<lambda>n c. n * 10 + (byte c - 48)) v x > 255 then False
       else ipv4_loop r True n (foldl (\<lambda>n c. n * 10 + (byte c - 48)) v x))"
proof (induction x arbitrary: v)
  case (Cons c x)
  let ?v = "v * 10 + (byte c - 48)"
  have mono: "?v \<le> foldl (\<lambda>n c. n * 10 + (byte c - 48)) ?v x" by (rule foldl_digits_mono)
  show ?case
  proof (cases "?v > 255")
    case True
    then show ?thesis using Cons.prems mono by simp
  next
    case False
    then show ?thesis using Cons by (cases "x = []") (simp_all add: Let_def)
  qed
qed simp

lemma ipv4_octet:
  assumes "\<forall>c\<in>set x. c_isdigit c" "x \<noteq> []"
  shows "ipv4_loop (x @ r) False n 0 = (octet x \<and> n < 4 \<and> ipv4_loop r True (n + 1) (foldl (\<lambda>n c. n * 10 + (byte c - 48)) 0 x))"
proof -
  obtain c y where x: "x = c # y" using assms(2) by (cases x) auto
  have c: "c_isdigit c" "\<forall>c\<in>set y. c_isdigit c" using assms(1) x by auto
  have small: "byte c - 48 \<le> 255" using byte_less_256[of c] by linarith
  have "octet x \<longleftrightarrow> foldl (\<lambda>n c. n * 10 + (byte c - 48)) (byte c - 48) y \<le> 255"
    using assms by (simp add: octet_def x)
  then show ?thesis using c small ipv4_digits[OF c(2), of r "n + 1" "byte c - 48"]
    by (cases "y = []") (auto simp: x Let_def)
qed

lemma ipv4_next:
  \<comment> \<open>after an octet: the end, or a dot and the next octet\<close>
  "ipv4_loop r True n v \<longleftrightarrow>
     (case r of
        [] \<Rightarrow> 4 \<le> n
      | c # s \<Rightarrow> c = CHR ''.'' \<and> n \<noteq> 4 \<and> ipv4_loop s False n 0)" if "r = [] \<or> \<not> c_isdigit (hd r)"
  using that by (cases r) auto

lemma ipv4_split:
  "ipv4_loop s False n 0 \<longleftrightarrow>
     (s = [] \<and> 4 \<le> n) \<or> (\<exists>x r. s = x @ r \<and> octet x \<and> n < 4 \<and>
        (r = [] \<and> 4 \<le> n + 1 \<or> (\<exists>t. r = CHR ''.'' # t \<and> n + 1 \<noteq> 4 \<and> ipv4_loop t False (n + 1) 0)))"
proof (cases "s = []")
  case True
  then show ?thesis by (auto simp: octet_def)
next
  case False
  define x where "x = takeWhile c_isdigit s"
  define r where "r = dropWhile c_isdigit s"
  have s: "s = x @ r" and dx: "\<forall>c\<in>set x. c_isdigit c"
    by (auto simp: x_def r_def dest: set_takeWhileD)
  have hr: "r = [] \<or> \<not> c_isdigit (hd r)" unfolding r_def using hd_dropWhile by blast
  have uniq: "y = x \<and> q = r" if "s = y @ q" "octet y" "q = [] \<or> hd q = CHR ''.''" for y q
  proof -
    have nd: "q = [] \<or> \<not> c_isdigit (hd q)" using that(3) by (auto simp: c_isdigit_def)
    have "\<forall>c\<in>set y. c_isdigit c" using that(2) by (simp add: octet_def)
    then have "takeWhile c_isdigit s = y" "dropWhile c_isdigit s = q"
      using nd that(1) by (cases q; simp add: takeWhile_append2 dropWhile_append2)+
    then show ?thesis by (simp add: x_def r_def)
  qed
  show ?thesis
  proof (cases "x = []")
    case True
    then have "\<not> ipv4_loop s False n 0" using s hr False by (cases s) auto
    moreover have "\<not> octet y" if "s = y @ q" "q = [] \<or> hd q = CHR ''.''" for y q
      using uniq[OF that(1) _ that(2)] True by (auto simp: octet_def)
    ultimately show ?thesis using False by (metis list.sel(1))
  next
    case ne: False
    have "ipv4_loop s False n 0 \<longleftrightarrow> octet x \<and> n < 4 \<and> (case r of [] \<Rightarrow> 4 \<le> n + 1
      | c # t \<Rightarrow> c = CHR ''.'' \<and> n + 1 \<noteq> 4 \<and> ipv4_loop t False (n + 1) 0)"
      unfolding s ipv4_octet[OF dx ne] ipv4_next[OF hr] ..
    also have "\<dots> \<longleftrightarrow> octet x \<and> n < 4 \<and> (r = [] \<and> 4 \<le> n + 1 \<or>
        (\<exists>t. r = CHR ''.'' # t \<and> n + 1 \<noteq> 4 \<and> ipv4_loop t False (n + 1) 0))" by (cases r) auto
    finally show ?thesis using s uniq False by (metis list.sel(1))
  qed
qed

lemma ipv4_iff:
  "is_valid_ipv4_address s \<longleftrightarrow>
     (\<exists>a b c d. s = a @ ''.'' @ b @ ''.'' @ c @ ''.'' @ d \<and> octet a \<and> octet b \<and> octet c \<and> octet d)"
proof -
  have 3: "ipv4_loop s False 3 0 \<longleftrightarrow> octet s" for s
    using ipv4_split[of s 3] by (auto simp: octet_def)
  have 2: "ipv4_loop s False 2 0 \<longleftrightarrow> (\<exists>c d. s = c @ ''.'' @ d \<and> octet c \<and> octet d)" for s
    unfolding ipv4_split[of s 2] using 3 by auto
  have 1: "ipv4_loop s False 1 0 \<longleftrightarrow> (\<exists>b c d. s = b @ ''.'' @ c @ ''.'' @ d \<and> octet b \<and> octet c \<and> octet d)" for s
    unfolding ipv4_split[of s 1] using 2 by (simp add: numeral_2_eq_2) blast
  show ?thesis unfolding is_valid_ipv4_address_def ipv4_split[of s 0] using 1 by simp blast
qed

lemma ipv6_loop_chars:
  assumes "ipv6_loop str curtok tp colonp saw v = Some r" "\<exists>pre. curtok = pre @ str \<and> (\<forall>c\<in>set pre. c_isxdigit c)"
  shows "\<forall>c\<in>set str. c_isxdigit c \<or> c = CHR '':'' \<or> c = CHR ''.''"
  using assms
proof (induction str curtok tp colonp saw v rule: ipv6_loop.induct)
  case (2 ch str curtok tp colonp saw v)
  from 2(5) obtain pre where pre: "curtok = pre @ ch # str" "\<forall>c\<in>set pre. c_isxdigit c" by blast
  consider (hex) "c_isxdigit ch" | (colon) "\<not> c_isxdigit ch" "ch = CHR '':''"
    | (dot) "\<not> c_isxdigit ch" "ch \<noteq> CHR '':''" by blast
  then show ?case
  proof cases
    case hex
    then have "ipv6_loop str curtok tp colonp True (v * 16 + unhex ch) = Some r" and le: "\<not> 65535 < v * 16 + unhex ch"
      using 2(4) by (auto simp: Let_def split: if_splits)
    with 2(1)[OF hex refl le] have "\<forall>c\<in>set str. c_isxdigit c \<or> c = CHR '':'' \<or> c = CHR ''.''"
      using pre hex by (auto intro: exI[of _ "pre @ [ch]"])
    then show ?thesis using hex by simp
  next
    case colon
    then show ?thesis using 2(2-4) by (auto split: if_splits)
  next
    case dot
    then have "is_valid_ipv4_address curtok" "ch = CHR ''.''" using 2(4) by (auto split: if_splits)
    then have "\<forall>c\<in>set curtok. c_isdigit c \<or> c = CHR ''.''" unfolding ipv4_iff by (auto simp: octet_def)
    then show ?thesis using pre by (auto simp: c_isxdigit_def)
  qed
qed simp

subsection \<open>Properties\<close>

text \<open>
  \<open>is_valid_ipv4_address\<close> accepts exactly the strings of four dotted groups of decimal
  digits, each group not empty and of value at most 255.
\<close>

theorem ipv4_address_iff:
  "is_valid_ipv4_address s \<longleftrightarrow>
     (\<exists>a b c d. s = a @ ''.'' @ b @ ''.'' @ c @ ''.'' @ d \<and>
        (\<forall>x\<in>{a, b, c, d}. x \<noteq> [] \<and> (\<forall>ch\<in>set x. c_isdigit ch) \<and> foldl (\<lambda>n ch. n * 10 + (byte ch - 48)) 0 x \<le> 255))"
  unfolding ipv4_iff octet_def by simp

theorem ipv4_address_iff_witness:
  "is_valid_ipv4_address ''127.0.0.1'' \<and> \<not> is_valid_ipv4_address ''127.0.0.256'' \<and>
   (\<exists>a b c d. ''127.0.0.1'' = a @ ''.'' @ b @ ''.'' @ c @ ''.'' @ d)"
proof -
  have v: "is_valid_ipv4_address ''127.0.0.1''" "\<not> is_valid_ipv4_address ''127.0.0.256''"
    by (code_simp, code_simp)
  from ipv4_address_iff[of "''127.0.0.1''"] v show ?thesis by blast
qed

text \<open>
  The domain filter lets a URL through exactly when its host belongs to some domain of
  the accept list (if there is one) and to none of the exclude list; a host belongs to a
  domain when, up to case, it is the domain, ends in a dot and the domain, or ends in the
  domain and the domain is written with a leading dot.
\<close>

theorem accept_domain_iff:
  "accept_domain domains exclude_domains u \<longleftrightarrow>
     (\<forall>l. domains = Some l \<longrightarrow> (\<exists>d\<in>set l. in_domain d (u_host u))) \<and>
     (\<forall>l. exclude_domains = Some l \<longrightarrow> \<not> (\<exists>d\<in>set l. in_domain d (u_host u)))"
  by (auto simp: accept_domain_def sufmatch_ex split: option.splits)

definition test_url :: "url_scheme \<Rightarrow> string \<Rightarrow> int \<Rightarrow> url_struct" where
  "test_url scheme host port = \<lparr>u_url = [], u_scheme = scheme, u_host = host, u_port = port, u_path = [], u_params = None,
     u_query = None, u_fragment = None, u_dir = [], u_file = [], u_user = None, u_passwd = None\<rparr>"

theorem accept_domain_iff_witness:
  "accept_domain (Some [''a.org'']) None (test_url SCHEME_HTTP ''www.A.org'' 80) \<and>
   in_domain ''a.org'' ''www.A.org''"
proof -
  have "accept_domain (Some [''a.org'']) None (test_url SCHEME_HTTP ''www.A.org'' 80)" by code_simp
  with accept_domain_iff[of "Some [''a.org'']" None "test_url SCHEME_HTTP ''www.A.org'' 80"]
  show ?thesis by (simp add: test_url_def)
qed

fun mark_faulty :: "nat \<Rightarrow> address_list \<Rightarrow> address_list run" where
  "mark_faulty 0 al = Some al"
| "mark_faulty (Suc n) al = do { al \<leftarrow> address_list_set_faulty al (fst (address_list_get_bounds al)); mark_faulty n al }"

text \<open>
  Marking the current address of a non-empty list as faulty keeps the bounds valid (the
  first usable address exists), so the next address can always be read; after as many marks
  as there are addresses all of them are clean again.
\<close>

theorem address_list_faulty_cycle:
  assumes "faulty al < length (addresses al)"
  shows "\<exists>al'. mark_faulty n al = Some al' \<and> faulty al' = (faulty al + n) mod length (addresses al) \<and>
    addresses al' = addresses al \<and> address_list_address_at al' (fst (address_list_get_bounds al')) \<noteq> None"
  using assms
proof (induction n arbitrary: al)
  case 0
  then show ?case by (simp add: address_list_address_at_def address_list_get_bounds_def)
next
  case (Suc n)
  let ?m = "length (addresses al)"
  let ?al = "al\<lparr>faulty := (if faulty al + 1 \<ge> ?m then 0 else faulty al + 1)\<rparr>"
  have step: "address_list_set_faulty al (fst (address_list_get_bounds al)) = Some ?al"
    by (simp add: address_list_set_faulty_def address_list_get_bounds_def Let_def)
  have f: "faulty ?al = (faulty al + 1) mod ?m" using Suc.prems by (cases "faulty al + 1 = ?m") auto
  have lt: "faulty ?al < length (addresses ?al)" using Suc.prems by auto
  from Suc.IH[OF lt] obtain al' where al': "mark_faulty n ?al = Some al'"
    "faulty al' = (faulty ?al + n) mod length (addresses ?al)" "addresses al' = addresses ?al"
    "address_list_address_at al' (fst (address_list_get_bounds al')) \<noteq> None" by blast
  have "faulty al' = (faulty al + Suc n) mod ?m"
    using al'(2) unfolding f by (simp add: mod_simps)
  then show ?case using al' step by (intro exI[of _ al']) simp
qed

theorem address_list_faulty_cycle_witness:
  "\<exists>al'. mark_faulty 2 \<lparr>addresses = [Inet 1, Inet 2], faulty = 0, connected = False\<rparr> = Some al' \<and> faulty al' = 0"
proof -
  have "faulty \<lparr>addresses = [Inet 1, Inet 2], faulty = 0, connected = False\<rparr> <
      length (addresses \<lparr>addresses = [Inet 1, Inet 2], faulty = 0, connected = False\<rparr>)" by simp
  from address_list_faulty_cycle[OF this, of 2] show ?thesis by auto
qed

end
