(* ===== verification/Wget_Hsts.thy ===== *)
theory Wget_Hsts
  imports Wget_Host Wget_Hash_Map
begin

section \<open>HTTP Strict Transport Security (wget/src/hsts.c)\<close>

text \<open>
  The store of Known HSTS Hosts of \<open>hsts.c\<close>: the hash table over host and explicit port, the
  search for a congruent or a super-domain entry, the rewriting of URLs, the update of the
  store from a header, and the database file with its merging.

  \<open>created\<close> and \<open>max_age\<close> are \<open>int64_t\<close> values kept as integers; an addition that overflows
  has no result (\<open>add64\<close>). \<open>time (NULL)\<close> is the argument \<open>now\<close>. The assignment of the fields
  of an entry through the pointer that \<open>hsts_find_entry\<close> returned is \<open>relink\<close>. A file is
  given by what \<open>stat\<close> says of it and by its contents; writing to an open file does not fail.
\<close>

subsection \<open>Structures\<close>

record hsts_kh =
  kh_host :: string
  explicit_port :: int

record hsts_kh_info =
  created :: int
  max_age :: int
  include_subdomains :: bool

record hsts_store =
  hs_table :: "(hsts_kh, hsts_kh_info) hash_table"
  last_mtime :: int
  changed :: bool

datatype hsts_kh_match = NO_MATCH | SUPERDOMAIN_MATCH | CONGRUENT_MATCH

definition hsts_is_host_name_valid :: "string \<Rightarrow> bool" where
  "hsts_is_host_name_valid host \<longleftrightarrow> \<not> is_valid_ip_address host"

definition hsts_is_scheme_valid :: "url_scheme \<Rightarrow> bool" where
  "hsts_is_scheme_valid scheme \<longleftrightarrow> scheme = SCHEME_HTTPS"

definition hsts_is_host_eligible :: "url_scheme \<Rightarrow> string \<Rightarrow> bool" where
  "hsts_is_host_eligible scheme host \<longleftrightarrow> hsts_is_scheme_valid scheme \<and> hsts_is_host_name_valid host"

definition DEFAULT_SSL_PORT :: int where
  "DEFAULT_SSL_PORT = 443"

definition MAKE_EXPLICIT_PORT :: "url_scheme \<Rightarrow> int \<Rightarrow> int" where
  "MAKE_EXPLICIT_PORT s p =
     (if s = SCHEME_HTTPS then (if p = DEFAULT_SSL_PORT then 0 else p)
      else (if p = DEFAULT_HTTP_PORT then 0 else p))"

definition hsts_hash_func :: "hsts_kh \<Rightarrow> 64 word" where
  "hsts_hash_func k =
     ucast (foldl (\<lambda>hash h. hash * 31 + word_of_int (schar h)) (word_of_int (explicit_port k) :: 32 word) (kh_host k))"

definition hsts_cmp_func :: "hsts_kh \<Rightarrow> hsts_kh \<Rightarrow> bool" where
  "hsts_cmp_func kh1 kh2 \<longleftrightarrow> kh_host kh1 = kh_host kh2 \<and> explicit_port kh1 = explicit_port kh2"

definition xstrdup_lower :: "string \<Rightarrow> string" where
  "xstrdup_lower s = map c_tolower s"

subsection \<open>Entries\<close>

type_synonym hsts_table = "(hsts_kh, hsts_kh_info) hash_table"

fun superdomain_loop ::
  "hsts_table \<Rightarrow> int \<Rightarrow> hsts_kh_info option \<Rightarrow> string \<Rightarrow> (hsts_kh_info option \<times> hsts_kh_match) run" where
  \<comment> \<open>the loop of \<open>hsts_find_entry\<close> with its \<open>strchr (p, '.')\<close> unrolled over the characters; \<open>khi\<close>
      keeps the result of the last lookup\<close>
  "superdomain_loop table port khi [] = Some (khi, NO_MATCH)"
| "superdomain_loop table port khi (c # p) =
     (if c = CHR ''.'' then do {
        khi \<leftarrow> hash_table_get table \<lparr>kh_host = p, explicit_port = port\<rparr>;
        (case khi of
           Some info \<Rightarrow>
             if include_subdomains info then Some (khi, SUPERDOMAIN_MATCH)
             else superdomain_loop table port khi p
         | None \<Rightarrow> superdomain_loop table port khi p) }
      else superdomain_loop table port khi p)"

definition hsts_find_entry ::
  "hsts_store \<Rightarrow> string \<Rightarrow> int \<Rightarrow> (hsts_kh_info option \<times> hsts_kh_match \<times> hsts_kh) run" where
  \<comment> \<open>the entry, and what is written to \<open>*match_type\<close> and \<open>*kh\<close>\<close>
  "hsts_find_entry store host port = do {
     let k = \<lparr>kh_host = xstrdup_lower host, explicit_port = port\<rparr>;
     khi \<leftarrow> hash_table_get (hs_table store) k;
     (khi, match) \<leftarrow>
       (case khi of
          Some info \<Rightarrow> Some (khi, CONGRUENT_MATCH)
        | None \<Rightarrow> superdomain_loop (hs_table store) port None (kh_host k));
     Some (khi, match, k) }"

definition hsts_new_entry_internal ::
  "hsts_store \<Rightarrow> string \<Rightarrow> int \<Rightarrow> int \<Rightarrow> int \<Rightarrow> bool \<Rightarrow> bool \<Rightarrow> bool \<Rightarrow> bool \<Rightarrow> (bool \<times> hsts_store) run" where
  "hsts_new_entry_internal store host port cr ma incl check_validity check_expired check_duplicates = do {
     let kh = \<lparr>kh_host = xstrdup_lower host, explicit_port = MAKE_EXPLICIT_PORT SCHEME_HTTPS port\<rparr>;
     let khi = \<lparr>created = cr, max_age = ma, include_subdomains = incl\<rparr>;
     if check_validity \<and> \<not> hsts_is_host_name_valid host then Some (False, store)
     else do {
       expired \<leftarrow> (if check_expired then do { e \<leftarrow> add64 (created khi) (max_age khi); Some (e < created khi) }
                   else Some False);
       if expired then Some (False, store)
       else do {
         dup \<leftarrow> (if check_duplicates then hash_table_contains (hs_table store) kh else Some False);
         if dup then Some (False, store)
         else do {
           table \<leftarrow> hash_table_put (hs_table store) kh khi;
           Some (True, store\<lparr>hs_table := table\<rparr>) } } } }"

definition hsts_add_entry ::
  "int \<Rightarrow> hsts_store \<Rightarrow> string \<Rightarrow> int \<Rightarrow> int \<Rightarrow> bool \<Rightarrow> (bool \<times> hsts_store) run" where
  "hsts_add_entry now store host port ma incl =
     (if now = -1 then Some (False, store)
      else hsts_new_entry_internal store host port now ma incl False True False)"

definition hsts_new_entry ::
  "hsts_store \<Rightarrow> string \<Rightarrow> int \<Rightarrow> int \<Rightarrow> int \<Rightarrow> bool \<Rightarrow> (bool \<times> hsts_store) run" where
  "hsts_new_entry store host port cr ma incl =
     hsts_new_entry_internal store host port cr ma incl True True True"

definition hsts_remove_entry :: "hsts_store \<Rightarrow> hsts_kh \<Rightarrow> hsts_store run" where
  "hsts_remove_entry store kh = do {
     (removed, table) \<leftarrow> hash_table_remove (hs_table store) kh;
     Some (store\<lparr>hs_table := table\<rparr>) }"

definition hsts_store_merge ::
  "hsts_store \<Rightarrow> string \<Rightarrow> int \<Rightarrow> int \<Rightarrow> int \<Rightarrow> bool \<Rightarrow> (bool \<times> hsts_store) run" where
  "hsts_store_merge store host port cr ma incl = do {
     let port = MAKE_EXPLICIT_PORT SCHEME_HTTPS port;
     (khi, match_type, kh) \<leftarrow> hsts_find_entry store host port;
     (case khi of
        Some entry \<Rightarrow>
          if match_type = CONGRUENT_MATCH \<and> cr > created entry then do {
            table \<leftarrow> relink (hs_table store) kh \<lparr>created = cr, max_age = ma, include_subdomains = incl\<rparr>;
            Some (True, store\<lparr>hs_table := table\<rparr>) }
          else Some (False, store)
      | None \<Rightarrow> hsts_new_entry store host port cr ma incl) }"

subsection \<open>The database file\<close>

definition scan_int :: "(int \<Rightarrow> bool) \<Rightarrow> string \<Rightarrow> (int \<times> string) option run" where
  \<comment> \<open>a conversion \<open>%d\<close> of \<open>sscanf\<close>: the inner \<^term>\<open>None\<close> when no number is there; a value that its
      type does not hold is undefined\<close>
  "scan_int fits p =
     (let p = skip_space p;
          neg = (deref p 0 = CHR ''-'');
          p = (if deref p 0 = CHR ''-'' \<or> deref p 0 = CHR ''+'' then tl p else p);
          ds = takeWhile c_isdigit p;
          v = (if neg then - digits_value ds else digits_value ds)
      in if ds = [] then Some None
         else if fits v then Some (Some (v, dropWhile c_isdigit p)) else None)"

definition scan_word :: "nat \<Rightarrow> string \<Rightarrow> (string \<times> string) option" where
  \<comment> \<open>a conversion \<open>%<width>s\<close>\<close>
  "scan_word width p =
     (let p = skip_space p;
          w = take width (takeWhile (\<lambda>c. \<not> c_isspace c) p)
      in if w = [] then None else Some (w, drop (length w) p))"

definition scan_next :: "(int \<Rightarrow> bool) \<Rightarrow> string \<Rightarrow> (int \<Rightarrow> string \<Rightarrow> 'a option run) \<Rightarrow> 'a option run" where
  "scan_next fits p rest = do {
     r \<leftarrow> scan_int fits p;
     (case r of None \<Rightarrow> Some None | Some (v, p) \<Rightarrow> rest v p) }"

definition sscanf_line :: "string \<Rightarrow> (string \<times> int \<times> int \<times> int \<times> int) option run" where
  \<comment> \<open>\<open>sscanf (p, "%255s %d %d %" SCNd64 " %" SCNd64, ...)\<close>: the five values when it returns 5\<close>
  "sscanf_line p =
     (case scan_word 255 p of
        None \<Rightarrow> Some None
      | Some (host, p) \<Rightarrow>
          scan_next in_int32 p (\<lambda>port p.
          scan_next in_int32 p (\<lambda>incl p.
          scan_next in_int64 p (\<lambda>cr p.
          scan_next in_int64 p (\<lambda>ma p.
            Some (Some (host, port, incl, cr, ma)))))))"

definition read_line :: "hsts_store \<Rightarrow> string \<Rightarrow> bool \<Rightarrow> hsts_store run" where
  \<comment> \<open>one turn of the loop of \<open>hsts_read_database\<close>\<close>
  "read_line store line merge_with_existing_entries =
     (let p = skip_space (takeWhile (\<lambda>c. c \<noteq> NUL) line) in
      if deref p 0 = CHR ''#'' then Some store
      else
        case sscanf_line p of
          None \<Rightarrow> None
        | Some None \<Rightarrow> Some store
        | Some (Some (host, port, incl, cr, ma)) \<Rightarrow> do {
            (ok, store) \<leftarrow>
              (if merge_with_existing_entries then hsts_store_merge store host port cr ma (incl \<noteq> 0)
               else hsts_new_entry store host port cr ma (incl \<noteq> 0));
            Some store })"

fun hsts_read_database :: "hsts_store \<Rightarrow> string list \<Rightarrow> bool \<Rightarrow> hsts_store run" where
  \<comment> \<open>on the lines \<open>getline\<close> returns; its result is always true\<close>
  "hsts_read_database store [] merge_with_existing_entries = Some store"
| "hsts_read_database store (line # fp) merge_with_existing_entries = do {
     store \<leftarrow> read_line store line merge_with_existing_entries;
     hsts_read_database store fp merge_with_existing_entries }"

definition dump_line :: "hsts_kh \<times> hsts_kh_info \<Rightarrow> string" where
  "dump_line e =
     kh_host (fst e) @ [TAB] @ print_int (explicit_port (fst e))
       @ [TAB] @ print_int (if include_subdomains (snd e) then 1 else 0)
       @ [TAB] @ print_int (created (snd e)) @ [TAB] @ print_int (max_age (snd e)) @ [LF]"

definition hsts_store_dump :: "hsts_store \<Rightarrow> string list" where
  \<comment> \<open>the lines of the file\<close>
  "hsts_store_dump store =
     [''# HSTS 1.0 Known Hosts database for GNU Wget.'' @ [LF],
      ''# Edit at your own risk.'' @ [LF],
      ''# <hostname>'' @ [TAB] @ ''<port>'' @ [TAB] @ ''<incl. subdomains>'' @ [TAB] @ ''<created>'' @ [TAB] @ ''<max-age>'' @ [LF]]
     @ map dump_line (hash_table_drain (hs_table store))"

record stat_buf =
  S_ISREG :: bool
  S_IRUSR :: bool
  S_IRGRP :: bool
  S_IROTH :: bool
  S_IWOTH :: bool
  st_uid_is_mine :: bool \<comment> \<open>\<open>getuid () == buf.st_uid\<close>\<close>
  st_gid_is_mine :: bool \<comment> \<open>\<open>group_member (buf.st_gid)\<close>\<close>
  st_mtime :: int

record file_state =
  f_stat :: stat_buf
  f_lines :: "string list"

definition file_exists_p :: "file_state option \<Rightarrow> bool" where
  "file_exists_p file =
     (case file of
        None \<Rightarrow> False
      | Some f \<Rightarrow>
          let buf = f_stat f in
          S_ISREG buf \<and>
            (S_IRUSR buf \<and> st_uid_is_mine buf \<or> S_IRGRP buf \<and> st_gid_is_mine buf \<or> S_IROTH buf))"

definition hsts_file_access_valid :: "file_state option \<Rightarrow> bool" where
  "hsts_file_access_valid file =
     (case file of
        None \<Rightarrow> False
      | Some f \<Rightarrow> \<not> S_IWOTH (f_stat f) \<and> S_ISREG (f_stat f))"

subsection \<open>The interface\<close>

definition hsts_match :: "int \<Rightarrow> hsts_store \<Rightarrow> url_struct \<Rightarrow> (bool \<times> hsts_store \<times> url_struct) run" where
  "hsts_match now store u = do {
     let port = MAKE_EXPLICIT_PORT (u_scheme u) (u_port u);
     if \<not> hsts_is_scheme_valid (u_scheme u) then do {
       (entry, match, kh) \<leftarrow> hsts_find_entry store (u_host u) port;
       (case entry of
          None \<Rightarrow> Some (False, store, u)
        | Some e \<Rightarrow> do {
            expires \<leftarrow> add64 (created e) (max_age e);
            if expires \<ge> now then
              if match = CONGRUENT_MATCH \<or> match = SUPERDOMAIN_MATCH \<and> include_subdomains e then
                Some (True, store\<lparr>changed := True\<rparr>,
                  u\<lparr>u_scheme := SCHEME_HTTPS, u_port := (if u_port u = 80 then 443 else u_port u)\<rparr>)
              else Some (False, store, u)
            else do {
              store \<leftarrow> hsts_remove_entry store kh;
              Some (False, store\<lparr>changed := True\<rparr>, u) } }) }
     else Some (False, store, u) }"

definition hsts_store_entry ::
  "int \<Rightarrow> hsts_store \<Rightarrow> url_scheme \<Rightarrow> string \<Rightarrow> int \<Rightarrow> int \<Rightarrow> bool \<Rightarrow> (bool \<times> hsts_store) run" where
  "hsts_store_entry now store scheme host port ma incl =
     (if hsts_is_host_eligible scheme host then do {
        let port = MAKE_EXPLICIT_PORT scheme port;
        (entry, match, kh) \<leftarrow> hsts_find_entry store host port;
        if entry \<noteq> None \<and> match = CONGRUENT_MATCH then
          if ma = 0 then do {
            store \<leftarrow> hsts_remove_entry store kh;
            Some (False, store\<lparr>changed := True\<rparr>) }
          else if ma > 0 then
            if now \<noteq> -1 \<and> now \<noteq> created (the entry) then do {
              table \<leftarrow> relink (hs_table store) kh \<lparr>created = now, max_age = ma, include_subdomains = incl\<rparr>;
              Some (False, store\<lparr>hs_table := table, changed := True\<rparr>) }
            else Some (False, store)
          else Some (False, store)
        else if entry = None \<or> match = SUPERDOMAIN_MATCH then do {
          (result, store) \<leftarrow> hsts_add_entry now store host port ma incl;
          Some (result, if result then store\<lparr>changed := True\<rparr> else store) }
        else Some (False, store) }
      else Some (False, store))"

definition hsts_store_open :: "bool \<Rightarrow> file_state option \<Rightarrow> hsts_store option run" where
  \<comment> \<open>\<open>opened\<close>: whether \<open>fopen_stat\<close> returns a stream; the result is NULL when HSTS is disabled\<close>
  "hsts_store_open opened file = do {
     table \<leftarrow> hash_table_new 0 hsts_hash_func hsts_cmp_func;
     let store = \<lparr>hs_table = table, last_mtime = 0, changed = False\<rparr>;
     if file_exists_p file then
       if hsts_file_access_valid file then
         if \<not> opened then Some None
         else do {
           store \<leftarrow> hsts_read_database store (f_lines (the file)) False;
           Some (Some (store\<lparr>last_mtime := st_mtime (f_stat (the file))\<rparr>)) }
       else Some None
     else Some (Some store) }"

definition hsts_store_save ::
  "bool \<Rightarrow> hsts_store \<Rightarrow> file_state option \<Rightarrow> (hsts_store \<times> string list option) run" where
  \<comment> \<open>\<open>opened\<close>: whether \<open>fopen (filename, "a+")\<close> returns a stream, which creates a file that is not
      there; the second result is the new contents of the file, if it is written\<close>
  "hsts_store_save opened store file =
     (if hash_table_count (hs_table store) > 0 \<and> opened then do {
        store \<leftarrow>
          (if last_mtime store \<noteq> 0 \<and> (case file of None \<Rightarrow> False | Some f \<Rightarrow> st_mtime (f_stat f) > last_mtime store)
           then hsts_read_database store (case file of None \<Rightarrow> [] | Some f \<Rightarrow> f_lines f) True
           else Some store);
        Some (store, Some (hsts_store_dump store)) }
      else Some (store, None))"

definition hsts_store_has_changed :: "hsts_store option \<Rightarrow> bool" where
  "hsts_store_has_changed store = (case store of None \<Rightarrow> False | Some s \<Rightarrow> changed s)"

end
