(* ===== verification/Wget_Hsts_Store.thy ===== *)
theory Wget_Hsts_Store
  imports Wget_Hsts
begin

section \<open>The HSTS store: invariant, matching and persistence\<close>

text \<open>
  The invariant of the store, the declarative meaning of a lookup (\<open>known\<close>, \<open>governing\<close>), what
  each operation does to it, the invariant of every reachable store, and the round trip of
  the database file.
\<close>

subsection \<open>Meaning and invariant\<close>

lemma hsts_cmp_eq: "hsts_cmp_func a b \<longleftrightarrow> a = b"
  by (auto simp: hsts_cmp_func_def)

interpretation hsts_keys: hash_keys hsts_hash_func hsts_cmp_func
  by unfold_locales (auto simp: hsts_cmp_eq)

abbreviation kh_of :: "string \<Rightarrow> int \<Rightarrow> hsts_kh" where
  "kh_of h p \<equiv> \<lparr>kh_host = h, explicit_port = p\<rparr>"

definition known :: "hsts_store \<Rightarrow> string \<Rightarrow> int \<Rightarrow> hsts_kh_info option" where
  "known store h p = map_option snd (ht_find (hs_table store) (kh_of h p))"

definition key_ok :: "hsts_kh \<Rightarrow> bool" where
  "key_ok k \<longleftrightarrow> lower (kh_host k) = kh_host k \<and> explicit_port k \<noteq> 443 \<and> \<not> is_valid_ip_address (kh_host k)"

definition hsts_inv :: "hsts_store \<Rightarrow> bool" where
  "hsts_inv store \<longleftrightarrow> ht_inv hsts_hash_func hsts_cmp_func (hs_table store) \<and>
     (\<forall>e\<in>set (ht_entries (hs_table store)). key_ok (fst e))"

fun superdomains :: "string \<Rightarrow> string list" where
  \<comment> \<open>what follows each dot, longest first\<close>
  "superdomains [] = []"
| "superdomains (c # p) = (if c = CHR ''.'' then p # superdomains p else superdomains p)"

definition shares :: "hsts_store \<Rightarrow> int \<Rightarrow> string \<Rightarrow> bool" where
  \<comment> \<open>a known host that includes its subdomains\<close>
  "shares store p d = (case known store d p of None \<Rightarrow> False | Some e \<Rightarrow> include_subdomains e)"

definition governing :: "hsts_store \<Rightarrow> string \<Rightarrow> int \<Rightarrow> hsts_kh_info option" where
  \<comment> \<open>the entry of the host itself, otherwise of the nearest super-domain that includes its
      subdomains\<close>
  "governing store h p =
     (case known store h p of
        Some e \<Rightarrow> Some e
      | None \<Rightarrow> (case find (shares store p) (superdomains h) of None \<Rightarrow> None | Some d \<Rightarrow> known store d p))"

definition shadowed :: "hsts_store \<Rightarrow> string \<Rightarrow> int \<Rightarrow> bool" where
  \<comment> \<open>no entry governs the host, but the last component of its name is a known host\<close>
  "shadowed store h p \<longleftrightarrow> governing store h p = None \<and> superdomains h \<noteq> [] \<and> known store (last (superdomains h)) p \<noteq> None"

lemma hsts_invD:
  assumes "hsts_inv store"
  shows "ht_inv hsts_hash_func hsts_cmp_func (hs_table store)"
    "known store h p = Some e \<Longrightarrow> key_ok (kh_of h p)"
  using assms hsts_keys.ht_find_iff[of "hs_table store" "kh_of h p"]
  by (auto simp: hsts_inv_def known_def hsts_cmp_eq)

lemma hsts_invI:
  assumes "ht_inv hsts_hash_func hsts_cmp_func (hs_table store)"
    "\<And>h p e. known store h p = Some e \<Longrightarrow> key_ok (kh_of h p)"
  shows "hsts_inv store"
proof -
  have "key_ok (fst x)" if "x \<in> set (ht_entries (hs_table store))" for x
  proof -
    have "ht_find (hs_table store) (fst x) = Some x"
      using that hsts_keys.ht_find_iff[OF assms(1), of "fst x" x] by (simp add: hsts_cmp_eq)
    then have "known store (kh_host (fst x)) (explicit_port (fst x)) = Some (snd x)"
      by (cases "fst x") (simp add: known_def)
    from assms(2)[OF this] show ?thesis by (cases "fst x") simp
  qed
  with assms(1) show ?thesis by (simp add: hsts_inv_def)
qed

lemma known_update [simp]: "known (store\<lparr>changed := b\<rparr>) = known store" "known (store\<lparr>last_mtime := m\<rparr>) = known store"
  by (auto simp: known_def fun_eq_iff)

lemma hsts_inv_update [simp]: "hsts_inv (store\<lparr>changed := b\<rparr>) = hsts_inv store" "hsts_inv (store\<lparr>last_mtime := m\<rparr>) = hsts_inv store"
  by (auto simp: hsts_inv_def)

lemma get_known: "hsts_inv store \<Longrightarrow> hash_table_get (hs_table store) (kh_of h p) = Some (known store h p)"
  by (simp add: known_def hsts_keys.get_ok hsts_invD(1))

lemma known_put:
  assumes "hsts_inv store" "hash_table_put (hs_table store) (kh_of h p) e = Some t" "key_ok (kh_of h p)"
  shows "hsts_inv (store\<lparr>hs_table := t\<rparr>)"
    "known (store\<lparr>hs_table := t\<rparr>) h' p' = (if h' = h \<and> p' = p then Some e else known store h' p')"
    "hash_table_count t \<le> Suc (hash_table_count (hs_table store))"
proof -
  note P = hsts_keys.put_ok[OF hsts_invD(1)[OF assms(1)] assms(2)]
  show k: "known (store\<lparr>hs_table := t\<rparr>) h' p' = (if h' = h \<and> p' = p then Some e else known store h' p')" for h' p'
    using P(2) by (auto simp: known_def hsts_cmp_eq)
  show "hsts_inv (store\<lparr>hs_table := t\<rparr>)"
    by (rule hsts_invI) (use P(1) k assms(3) hsts_invD(2)[OF assms(1)] in \<open>auto split: if_splits\<close>)
  show "hash_table_count t \<le> Suc (hash_table_count (hs_table store))" using P(3) by (simp add: hash_table_count_def)
qed

lemma known_relink:
  assumes "hsts_inv store" "known store h p \<noteq> None"
  obtains t where "relink (hs_table store) (kh_of h p) e = Some t" "hsts_inv (store\<lparr>hs_table := t\<rparr>)"
    "\<And>h' p'. known (store\<lparr>hs_table := t\<rparr>) h' p' = (if h' = h \<and> p' = p then Some e else known store h' p')"
    "hash_table_count t = hash_table_count (hs_table store)"
proof -
  note inv = hsts_invD(1)[OF assms(1)]
  obtain k old where f: "ht_find (hs_table store) (kh_of h p) = Some (k, old)" using assms(2) by (auto simp: known_def)
  obtain t where t: "relink (hs_table store) (kh_of h p) e = Some t" "ht_inv hsts_hash_func hsts_cmp_func t"
    "\<And>k'. ht_find t k' = (if hsts_cmp_func (kh_of h p) k' then Some (k, e) else ht_find (hs_table store) k')"
    "ht_count t = ht_count (hs_table store)"
    by (rule hsts_keys.relink_ok[OF inv f, of e]) blast
  have k: "known (store\<lparr>hs_table := t\<rparr>) h' p' = (if h' = h \<and> p' = p then Some e else known store h' p')" for h' p'
    using t(3) by (auto simp: known_def hsts_cmp_eq)
  have "hsts_inv (store\<lparr>hs_table := t\<rparr>)"
    by (rule hsts_invI) (use t(2) k assms hsts_invD(2)[OF assms(1)] in \<open>auto split: if_splits\<close>)
  with t k show thesis by (intro that[of t]) (auto simp: hash_table_count_def)
qed

lemma known_remove:
  assumes "hsts_inv store"
  obtains s where "hsts_remove_entry store (kh_of h p) = Some s" "hsts_inv s"
    "\<And>h' p'. known s h' p' = (if h' = h \<and> p' = p then None else known store h' p')"
    "hash_table_count (hs_table s) \<le> hash_table_count (hs_table store)" "last_mtime s = last_mtime store"
proof -
  note inv = hsts_invD(1)[OF assms(1)]
  obtain t where t: "hash_table_remove (hs_table store) (kh_of h p) = Some (ht_find (hs_table store) (kh_of h p) \<noteq> None, t)"
    "ht_inv hsts_hash_func hsts_cmp_func t"
    "\<And>k'. ht_find t k' = (if hsts_cmp_func (kh_of h p) k' then None else ht_find (hs_table store) k')"
    "ht_count t = (if ht_find (hs_table store) (kh_of h p) = None then ht_count (hs_table store) else ht_count (hs_table store) - 1)"
    by (rule hsts_keys.remove_ok[OF inv, of "kh_of h p"]) blast
  have k: "known (store\<lparr>hs_table := t\<rparr>) h' p' = (if h' = h \<and> p' = p then None else known store h' p')" for h' p'
    using t(3) by (auto simp: known_def hsts_cmp_eq)
  have "hsts_inv (store\<lparr>hs_table := t\<rparr>)"
    by (rule hsts_invI) (use t(2) k hsts_invD(2)[OF assms(1)] in \<open>auto split: if_splits\<close>)
  with t k show thesis
    by (intro that[of "store\<lparr>hs_table := t\<rparr>"]) (auto simp: hash_table_count_def hsts_remove_entry_def)
qed

lemma xstrdup_lower_eq: "xstrdup_lower = lower"
  by (auto simp: fun_eq_iff xstrdup_lower_def lower_def)

lemma superdomain_loop_ok:
  assumes "hsts_inv store"
  shows "superdomain_loop (hs_table store) p khi h =
    Some (case find (shares store p) (superdomains h) of
        Some d \<Rightarrow> (known store d p, SUPERDOMAIN_MATCH)
      | None \<Rightarrow> (if superdomains h = [] then khi else known store (last (superdomains h)) p, NO_MATCH))"
proof (induction h arbitrary: khi)
  case (Cons c h)
  then show ?case
    by (auto simp: get_known[OF assms] shares_def split: option.splits)
qed simp

lemma find_entry_ok:
  assumes "hsts_inv store"
  shows "hsts_find_entry store host p = Some (
    case known store (lower host) p of
      Some e \<Rightarrow> (Some e, CONGRUENT_MATCH, kh_of (lower host) p)
    | None \<Rightarrow>
        (case find (shares store p) (superdomains (lower host)) of
           Some d \<Rightarrow> (known store d p, SUPERDOMAIN_MATCH, kh_of (lower host) p)
         | None \<Rightarrow> (if superdomains (lower host) = [] then None else known store (last (superdomains (lower host))) p,
             NO_MATCH, kh_of (lower host) p)))"
  by (auto simp: hsts_find_entry_def Let_def get_known[OF assms] superdomain_loop_ok[OF assms] xstrdup_lower_eq split: option.splits)

lemma find_shares:
  assumes "find (shares store p) ds = Some d"
  obtains e where "known store d p = Some e" "include_subdomains e" "d \<in> set ds"
  using assms by (auto simp: find_Some_iff shares_def split: option.splits)

lemma find_entry_cases:
  assumes "hsts_inv store"
  obtains
    (congruent) e where "known store (lower host) p = Some e" "governing store (lower host) p = Some e"
      "hsts_find_entry store host p = Some (Some e, CONGRUENT_MATCH, kh_of (lower host) p)"
  | (super) e where "known store (lower host) p = None" "governing store (lower host) p = Some e" "include_subdomains e"
      "hsts_find_entry store host p = Some (Some e, SUPERDOMAIN_MATCH, kh_of (lower host) p)"
  | (shadow) e where "known store (lower host) p = None" "shadowed store (lower host) p" "governing store (lower host) p = None"
      "known store (last (superdomains (lower host))) p = Some e"
      "hsts_find_entry store host p = Some (Some e, NO_MATCH, kh_of (lower host) p)"
  | (none) "known store (lower host) p = None" "governing store (lower host) p = None" "\<not> shadowed store (lower host) p"
      "hsts_find_entry store host p = Some (None, NO_MATCH, kh_of (lower host) p)"
proof (cases "known store (lower host) p")
  case (Some e)
  then show thesis using find_entry_ok[OF assms, of host p] by (intro congruent) (auto simp: governing_def)
next
  case None
  note none' = None
  show thesis
  proof (cases "find (shares store p) (superdomains (lower host))")
    case (Some d)
    then obtain e where e: "known store d p = Some e" "include_subdomains e" by (rule find_shares)
    then show thesis using Some none' find_entry_ok[OF assms, of host p] by (intro super[of e]) (auto simp: governing_def)
  next
    case None
    then have g: "governing store (lower host) p = None" using none' by (simp add: governing_def)
    show thesis
    proof (cases "shadowed store (lower host) p")
      case True
      then show thesis using None none' g find_entry_ok[OF assms, of host p]
        by (auto simp: shadowed_def intro: shadow)
    next
      case False
      then show thesis using None none' g find_entry_ok[OF assms, of host p]
        by (intro none) (auto simp: shadowed_def)
    qed
  qed
qed

subsection \<open>Matching\<close>

definition sums_fit :: "hsts_store \<Rightarrow> bool" where
  "sums_fit store \<longleftrightarrow> (\<forall>h p e. known store h p = Some e \<longrightarrow> in_int64 (created e + max_age e))"

definition live :: "int \<Rightarrow> hsts_kh_info \<Rightarrow> bool" where
  "live now e \<longleftrightarrow> now \<le> created e + max_age e"

definition upgraded :: "url_struct \<Rightarrow> url_struct" where
  "upgraded u = u\<lparr>u_scheme := SCHEME_HTTPS, u_port := (if u_port u = 80 then 443 else u_port u)\<rparr>"

lemma governing_known:
  assumes "governing store h p = Some e"
  obtains d where "known store d p = Some e"
  using assms by (auto simp: governing_def split: option.splits)

lemma match_ok:
  assumes inv: "hsts_inv store" and fit: "sums_fit store" and http: "u_scheme u \<noteq> SCHEME_HTTPS"
  defines "h \<equiv> lower (u_host u)" and "p \<equiv> MAKE_EXPLICIT_PORT (u_scheme u) (u_port u)"
  shows "\<exists>store'. hsts_match now store u =
      (case governing store h p of
         Some e \<Rightarrow> if live now e then Some (True, store', upgraded u) else Some (False, store', u)
       | None \<Rightarrow> Some (False, store', u)) \<and> hsts_inv store' \<and>
    (\<forall>h' p'. known store' h' p' =
      (if h' = h \<and> p' = p \<and> (case known store h p of None \<Rightarrow> False | Some e \<Rightarrow> \<not> live now e) then None else known store h' p'))"
proof -
  obtain s where s: "hsts_remove_entry store (kh_of h p) = Some s" "hsts_inv s"
    "\<And>h' p'. known s h' p' = (if h' = h \<and> p' = p then None else known store h' p')" by (rule known_remove[OF inv, of h p]) blast
  have add: "add64 (created e) (max_age e) = Some (created e + max_age e)" if "known store d q = Some e" for e d q
    using fit that by (auto simp: sums_fit_def add64_def)
  note M = hsts_match_def hsts_is_scheme_valid_def http p_def[symmetric] h_def live_def upgraded_def
  show ?thesis
  proof (rule find_entry_cases[OF inv, of "u_host u" p, folded h_def])
    fix e assume e: "known store h p = Some e" "governing store h p = Some e"
      "hsts_find_entry store (u_host u) p = Some (Some e, CONGRUENT_MATCH, kh_of h p)"
    show ?thesis
    proof (cases "live now e")
      case True
      then show ?thesis using e add[OF e(1)] inv http
        by (intro exI[of _ "store\<lparr>changed := True\<rparr>"]) (simp add: M)
    next
      case False
      then show ?thesis using e add[OF e(1)] s http
        by (intro exI[of _ "s\<lparr>changed := True\<rparr>"]) (simp add: M)
    qed
  next
    fix e assume e: "known store h p = None" "governing store h p = Some e" "include_subdomains e"
      "hsts_find_entry store (u_host u) p = Some (Some e, SUPERDOMAIN_MATCH, kh_of h p)"
    obtain d where d: "known store d p = Some e" by (rule governing_known[OF e(2)])
    show ?thesis
    proof (cases "live now e")
      case True
      then show ?thesis using e add[OF d] inv http
        by (intro exI[of _ "store\<lparr>changed := True\<rparr>"]) (simp add: M)
    next
      case False
      then show ?thesis using e add[OF d] s http
        by (intro exI[of _ "s\<lparr>changed := True\<rparr>"]) (simp add: M)
    qed
  next
    fix e assume e: "known store h p = None" "governing store h p = None"
      "known store (last (superdomains h)) p = Some e"
      "hsts_find_entry store (u_host u) p = Some (Some e, NO_MATCH, kh_of h p)"
    show ?thesis
    proof (cases "live now e")
      case True
      then show ?thesis using e add[OF e(3)] inv http by (intro exI[of _ store]) (simp add: M)
    next
      case False
      then show ?thesis using e add[OF e(3)] s http
        by (intro exI[of _ "s\<lparr>changed := True\<rparr>"]) (simp add: M)
    qed
  next
    assume e: "known store h p = None" "governing store h p = None"
      "hsts_find_entry store (u_host u) p = Some (None, NO_MATCH, kh_of h p)"
    then show ?thesis using inv http by (intro exI[of _ store]) (simp add: M)
  qed
qed

subsection \<open>New entries\<close>

lemma ipv4_loop_lower: "ipv4_loop (lower s) d n v = ipv4_loop s d n v"
  by (induction s d n v rule: ipv4_loop.induct)
    (auto simp: lower_def tolower_eq Let_def)

lemma ipv6_loop_lower: "ipv6_loop (lower s) (lower t) tp cp x v = ipv6_loop s t tp cp x v"
  by (induction s t tp cp x v rule: ipv6_loop.induct)
    (auto simp: lower_def tolower_eq Let_def is_valid_ipv4_address_def ipv4_loop_lower[unfolded lower_def])

lemma is_valid_ip_lower: "is_valid_ip_address (lower s) = is_valid_ip_address s"
proof -
  have 4: "is_valid_ipv4_address (lower s) = is_valid_ipv4_address s" by (simp add: is_valid_ipv4_address_def ipv4_loop_lower)
  have hd: "hd (lower t) = CHR '':'' \<longleftrightarrow> hd t = CHR '':''" if "t \<noteq> []" for t
    using that by (cases t) (auto simp: lower_def tolower_eq)
  let ?t = "if hd s = CHR '':'' then tl s else s"
  have "is_valid_ipv6_address (lower s) = is_valid_ipv6_address s" if "s \<noteq> []"
  proof -
    have ne: "lower s \<noteq> []" "tl (lower s) = lower (tl s)" "lower (tl s) = [] \<longleftrightarrow> tl s = []"
      using that by (cases s; simp add: lower_def)+
    have "tl s \<noteq> [] \<Longrightarrow> hd (lower (tl s)) \<noteq> CHR '':'' \<longleftrightarrow> hd (tl s) \<noteq> CHR '':''" using hd by blast
    moreover have "(if hd (lower s) = CHR '':'' then tl (lower s) else lower s) = lower ?t"
      using hd[OF that] ne(2) by simp
    ultimately show ?thesis
      unfolding is_valid_ipv6_address_def Let_def ne(2) using hd[OF that] that ne ipv6_loop_lower[of ?t ?t]
      by (cases "tl s = []") auto
  qed
  then have 6: "is_valid_ipv6_address (lower s) = is_valid_ipv6_address s" by (cases "s = []") (simp_all add: lower_def)
  show ?thesis by (simp add: is_valid_ip_address_def 4 6)
qed

lemma key_ok_new: "\<not> is_valid_ip_address host \<Longrightarrow> key_ok (kh_of (lower host) (MAKE_EXPLICIT_PORT SCHEME_HTTPS port))"
  by (simp add: key_ok_def is_valid_ip_lower MAKE_EXPLICIT_PORT_def DEFAULT_SSL_PORT_def)

lemma explicit_port_idem [simp]: "MAKE_EXPLICIT_PORT SCHEME_HTTPS (MAKE_EXPLICIT_PORT SCHEME_HTTPS p) = MAKE_EXPLICIT_PORT SCHEME_HTTPS p"
  by (simp add: MAKE_EXPLICIT_PORT_def DEFAULT_SSL_PORT_def)

abbreviation info :: "int \<Rightarrow> int \<Rightarrow> bool \<Rightarrow> hsts_kh_info" where
  "info cr ma incl \<equiv> \<lparr>created = cr, max_age = ma, include_subdomains = incl\<rparr>"

abbreviation store_count :: "hsts_store \<Rightarrow> nat" where
  "store_count store \<equiv> hash_table_count (hs_table store)"

lemma new_entry_internal_ok:
  fixes port :: int
  assumes inv: "hsts_inv store" and room: "store_count store < 805306367" and fit: "in_int64 (cr + ma)"
    and valid: "cv \<or> \<not> is_valid_ip_address host"
  defines "h \<equiv> lower host" and "p \<equiv> MAKE_EXPLICIT_PORT SCHEME_HTTPS port"
  shows "\<exists>store'. hsts_new_entry_internal store host port cr ma incl cv True cd =
      Some (\<not> is_valid_ip_address host \<and> 0 \<le> ma \<and> \<not> (cd \<and> known store h p \<noteq> None), store') \<and> hsts_inv store' \<and>
    (\<forall>h' p'. known store' h' p' =
       (if h' = h \<and> p' = p \<and> \<not> is_valid_ip_address host \<and> 0 \<le> ma \<and> \<not> (cd \<and> known store h p \<noteq> None)
        then Some (info cr ma incl) else known store h' p')) \<and>
    store_count store' \<le> Suc (store_count store) \<and> last_mtime store' = last_mtime store"
proof -
  note E = Let_def hsts_new_entry_internal_def xstrdup_lower_eq h_def[symmetric] p_def[symmetric] add64_def fit hsts_is_host_name_valid_def
  have dup: "hash_table_contains (hs_table store) (kh_of h p) = Some (known store h p \<noteq> None)"
    using hsts_keys.contains_ok[OF hsts_invD(1)[OF inv]] by (simp add: known_def)
  show ?thesis
  proof (cases "\<not> is_valid_ip_address host \<and> 0 \<le> ma \<and> \<not> (cd \<and> known store h p \<noteq> None)")
    case True
    obtain t where t: "hash_table_put (hs_table store) (kh_of h p) (info cr ma incl) = Some t"
      using hsts_keys.put_total[OF hsts_invD(1)[OF inv]] room by (auto simp: hash_table_count_def)
    note K = known_put[OF inv t] key_ok_new[of host port, folded h_def p_def]
    show ?thesis
      by (rule exI[of _ "store\<lparr>hs_table := t\<rparr>"]) (use True K t dup in \<open>auto simp: E\<close>)
  next
    case False
    then show ?thesis using valid dup inv by (intro exI[of _ store]) (auto simp: E)
  qed
qed

definition entry_after :: "int \<Rightarrow> hsts_store \<Rightarrow> string \<Rightarrow> int \<Rightarrow> int \<Rightarrow> bool \<Rightarrow> hsts_kh_info option" where
  \<comment> \<open>what a header leaves for the host that sent it\<close>
  "entry_after now store h p ma incl =
     (case known store h p of
        Some e \<Rightarrow> if ma = 0 then None else if 0 < ma \<and> now \<noteq> created e then Some (info now ma incl) else Some e
      | None \<Rightarrow> if shadowed store h p \<or> ma < 0 then None else Some (info now ma incl))"

lemma store_entry_ok:
  fixes port :: int
  assumes inv: "hsts_inv store" and room: "store_count store < 805306367" and fit: "in_int64 (now + ma)" and clock: "now \<noteq> -1"
    and host: "\<not> is_valid_ip_address host"
  defines "h \<equiv> lower host" and "p \<equiv> MAKE_EXPLICIT_PORT SCHEME_HTTPS port"
  shows "\<exists>store'. hsts_store_entry now store SCHEME_HTTPS host port ma incl =
      Some (known store h p = None \<and> entry_after now store h p ma incl \<noteq> None, store') \<and> hsts_inv store' \<and>
    (\<forall>h' p'. known store' h' p' = (if h' = h \<and> p' = p then entry_after now store h p ma incl else known store h' p')) \<and>
    store_count store' \<le> Suc (store_count store) \<and> last_mtime store' = last_mtime store"
proof -
  note E = Let_def hsts_store_entry_def hsts_is_host_eligible_def hsts_is_scheme_valid_def hsts_is_host_name_valid_def host
    p_def[symmetric] h_def[symmetric] entry_after_def
  obtain s where s: "hsts_new_entry_internal store host p now ma incl False True False = Some (0 \<le> ma, s)"
    "hsts_inv s" "\<And>h' p'. known s h' p' = (if h' = h \<and> p' = p \<and> 0 \<le> ma then Some (info now ma incl) else known store h' p')"
    "store_count s \<le> Suc (store_count store)" "last_mtime s = last_mtime store"
    using new_entry_internal_ok[OF inv room fit, of False host p incl False] host by (auto simp: h_def p_def)
  have new: "?thesis" if "known store h p = None" "\<not> shadowed store h p"
    "hsts_find_entry store host p = Some (e, m, kh_of h p)" "e = None \<or> m = SUPERDOMAIN_MATCH" for e m
    using that s clock
    by (intro exI[of _ "if 0 \<le> ma then s\<lparr>changed := True\<rparr> else s"]) (auto simp: E hsts_add_entry_def)
  show ?thesis
  proof (rule find_entry_cases[OF inv, of host p, folded h_def])
    fix e assume e: "known store h p = Some e" "hsts_find_entry store host p = Some (Some e, CONGRUENT_MATCH, kh_of h p)"
    then have "known store h p \<noteq> None" by simp
    then obtain t where t: "relink (hs_table store) (kh_of h p) (info now ma incl) = Some t" "hsts_inv (store\<lparr>hs_table := t\<rparr>)"
      "\<And>h' p'. known (store\<lparr>hs_table := t\<rparr>) h' p' = (if h' = h \<and> p' = p then Some (info now ma incl) else known store h' p')"
      "hash_table_count t = store_count store" by (rule known_relink[OF inv, of h p "info now ma incl"]) blast
    obtain r where r: "hsts_remove_entry store (kh_of h p) = Some r" "hsts_inv r"
      "\<And>h' p'. known r h' p' = (if h' = h \<and> p' = p then None else known store h' p')"
      "store_count r \<le> store_count store" "last_mtime r = last_mtime store" by (rule known_remove[OF inv, of h p]) blast
    have upd: "store\<lparr>hs_table := t, changed := True\<rparr> = store\<lparr>hs_table := t\<rparr>\<lparr>changed := True\<rparr>" by simp
    consider (rem) "ma = 0" | (upd) "0 < ma" "now \<noteq> created e" | (keep) "ma \<noteq> 0" "\<not> (0 < ma \<and> now \<noteq> created e)" by linarith
    then show ?thesis
    proof cases
      case rem
      then show ?thesis using e r by (intro exI[of _ "r\<lparr>changed := True\<rparr>"]) (simp add: E)
    next
      case upd
      then show ?thesis using e t clock
        by (intro exI[of _ "store\<lparr>hs_table := t\<rparr>\<lparr>changed := True\<rparr>"]) (simp add: E del: hsts_store.update_convs)
    next
      case keep
      then show ?thesis using e inv by (intro exI[of _ store]) (auto simp: E)
    qed
  next
    fix e assume e: "known store h p = None" "governing store h p = Some e" "include_subdomains e"
      "hsts_find_entry store host p = Some (Some e, SUPERDOMAIN_MATCH, kh_of h p)"
    then show ?thesis by (intro new) (auto simp: shadowed_def)
  next
    fix e assume "known store h p = None" "shadowed store h p"
      "hsts_find_entry store host p = Some (Some e, NO_MATCH, kh_of h p)"
    then show ?thesis using inv by (intro exI[of _ store]) (auto simp: E)
  next
    assume "known store h p = None" "\<not> shadowed store h p" "hsts_find_entry store host p = Some (None, NO_MATCH, kh_of h p)"
    then show ?thesis by (intro new) auto
  qed
qed

subsection \<open>Reachable stores\<close>

text \<open>
  Every way the store changes: opening the database, rewriting a URL, receiving a header, and
  saving, which may merge what other processes wrote.
\<close>

inductive hsts_reachable :: "hsts_store \<Rightarrow> bool" where
  opened: "hsts_store_open opened file = Some (Some store) \<Longrightarrow> hsts_reachable store"
| matched: "hsts_reachable store \<Longrightarrow> hsts_match now store u = Some (b, store', u') \<Longrightarrow> hsts_reachable store'"
| header: "hsts_reachable store \<Longrightarrow> hsts_store_entry now store scheme host port ma incl = Some (b, store') \<Longrightarrow>
    hsts_reachable store'"
| saved: "hsts_reachable store \<Longrightarrow> hsts_store_save opened store file = Some (store', written) \<Longrightarrow> hsts_reachable store'"

lemma new_entry_internal_inv [inv_intros]:
  assumes "hsts_inv store" "hsts_new_entry_internal store host port cr ma incl cv ce cd = Some (b, store')"
    "cv \<or> \<not> is_valid_ip_address host"
  shows "hsts_inv store'"
proof -
  have "store' = store \<or> \<not> is_valid_ip_address host \<and> (\<exists>t.
      hash_table_put (hs_table store) (kh_of (lower host) (MAKE_EXPLICIT_PORT SCHEME_HTTPS port)) (info cr ma incl) = Some t \<and>
      store' = store\<lparr>hs_table := t\<rparr>)"
    using assms(2,3)
    by (auto simp: hsts_new_entry_internal_def Let_def xstrdup_lower_eq hsts_is_host_name_valid_def bind_eq_Some_conv split: if_splits)
  then show ?thesis using assms(1) known_put(1)[OF assms(1)] key_ok_new by blast
qed

lemma remove_inv [inv_intros]: "hsts_inv store \<Longrightarrow> hsts_remove_entry store (kh_of h p) = Some s \<Longrightarrow> hsts_inv s"
  by (metis known_remove option.inject)

lemma relink_inv [inv_intros]:
  assumes "hsts_inv store" "known store h p = Some e" "relink (hs_table store) (kh_of h p) e' = Some t"
  shows "hsts_inv (store\<lparr>hs_table := t\<rparr>)"
  using known_relink[OF assms(1), of h p e'] assms(2,3) by (metis option.distinct(1) option.inject)

lemma merge_inv [inv_intros]:
  assumes inv: "hsts_inv store" and merge: "hsts_store_merge store host port cr ma incl = Some (b, store')"
  shows "hsts_inv store'"
proof -
  let ?p = "MAKE_EXPLICIT_PORT SCHEME_HTTPS port"
  show ?thesis
    by (rule find_entry_cases[OF inv, of host ?p])
      (use inv merge in \<open>auto simp: hsts_store_merge_def hsts_new_entry_def bind_eq_Some_conv split: if_splits
        intro: relink_inv new_entry_internal_inv\<close>)
qed

lemma read_line_inv [inv_intros]:
  assumes "hsts_inv store" "read_line store line merge = Some store'"
  shows "hsts_inv store'"
  using assms
  by (auto simp: read_line_def Let_def bind_eq_Some_conv hsts_new_entry_def split: if_splits option.splits prod.splits
      intro: merge_inv new_entry_internal_inv)

lemma read_inv [inv_intros]:
  assumes "hsts_inv store" "hsts_read_database store fp merge = Some store'"
  shows "hsts_inv store'"
  using assms
  by (induction store fp merge rule: hsts_read_database.induct) (auto simp: bind_eq_Some_conv intro: read_line_inv)

lemma match_inv [inv_intros]:
  assumes inv: "hsts_inv store" and match: "hsts_match now store u = Some (b, store', u')"
  shows "hsts_inv store'"
proof -
  have "store' = store \<or> store' = store\<lparr>changed := True\<rparr> \<or>
      (\<exists>s h p. hsts_remove_entry store (kh_of h p) = Some s \<and> store' = s\<lparr>changed := True\<rparr>)"
    by (rule find_entry_cases[OF inv, of "u_host u" "MAKE_EXPLICIT_PORT (u_scheme u) (u_port u)"])
      (use match in \<open>auto simp: hsts_match_def Let_def bind_eq_Some_conv split: if_splits\<close>)
  then show ?thesis using inv remove_inv by auto
qed

lemma entry_inv [inv_intros]:
  assumes inv: "hsts_inv store" and store: "hsts_store_entry now store scheme host port ma incl = Some (b, store')"
  shows "hsts_inv store'"
proof (cases "hsts_is_host_eligible scheme host")
  case True
  let ?p = "MAKE_EXPLICIT_PORT scheme port"
  have ip: "\<not> is_valid_ip_address host" using True by (simp add: hsts_is_host_eligible_def hsts_is_host_name_valid_def)
  have "store' = store \<or> (\<exists>s. store' = s\<lparr>changed := True\<rparr> \<and> (hsts_remove_entry store (kh_of (lower host) ?p) = Some s)) \<or>
    (\<exists>e t. known store (lower host) ?p = Some e \<and> relink (hs_table store) (kh_of (lower host) ?p) (info now ma incl) = Some t \<and>
       store' = store\<lparr>hs_table := t\<rparr>\<lparr>changed := True\<rparr>) \<or>
    (\<exists>r s. hsts_new_entry_internal store host ?p now ma incl False True False = Some (r, s) \<and> (store' = s \<or> store' = s\<lparr>changed := True\<rparr>))"
    by (rule find_entry_cases[OF inv, of host ?p])
      (use store True in \<open>auto simp: hsts_store_entry_def hsts_add_entry_def Let_def bind_eq_Some_conv split: if_splits\<close>)
  then show ?thesis
    using inv ip new_entry_internal_inv[OF inv] relink_inv[OF inv] remove_inv[OF inv] hsts_inv_update(1) by metis
qed (use assms in \<open>simp add: hsts_store_entry_def\<close>)

lemma new_store_inv:
  assumes "hash_table_new n hsts_hash_func hsts_cmp_func = Some t"
  shows "hsts_inv \<lparr>hs_table = t, last_mtime = m, changed = b\<rparr>" "known \<lparr>hs_table = t, last_mtime = m, changed = b\<rparr> h p = None"
    "hash_table_count t = 0"
  using hsts_keys.new_ok[OF assms] by (auto simp: hsts_inv_def known_def ht_find_def hash_table_count_def ht_inv_def)

lemma reachable_inv:
  assumes "hsts_reachable store"
  shows "hsts_inv store"
  using assms
proof induction
  case (opened ok f store)
  then show ?case
    by (auto simp: hsts_store_open_def Let_def bind_eq_Some_conv split: if_splits
      intro: read_inv[OF new_store_inv(1)] new_store_inv(1))
next
  case (saved store ok f store' w)
  then show ?case
    by (auto simp: hsts_store_save_def bind_eq_Some_conv split: if_splits intro: read_inv)
qed (auto intro: match_inv entry_inv)

subsection \<open>The database file\<close>

lemma print_int_parts:
  obtains (neg) n where "v < 0" "print_int v = CHR ''-'' # print_nat n" "v = - int n"
  | (pos) n where "0 \<le> v" "print_int v = print_nat n" "v = int n"
proof (cases "v < 0")
  case True
  then show thesis by (intro neg[of "nat (- v)"]) (auto simp: print_int_def)
next
  case False
  then show thesis by (intro pos[of "nat v"]) (auto simp: print_int_def)
qed

lemma digit_not_special: "c_isdigit c \<Longrightarrow> \<not> c_isspace c \<and> c \<noteq> CHR ''-'' \<and> c \<noteq> CHR ''+'' \<and> c \<noteq> NUL"
  by (auto simp: c_isdigit_def c_isspace_def)

lemma hd_print_nat: "c_isdigit (hd (print_nat n))"
  using print_nat_digits[of n] print_nat_not_Nil[of n] hd_in_set by blast

lemma scan_print_int:
  assumes "rest = [] \<or> \<not> c_isdigit (hd rest)" "fits v"
  shows "scan_int fits (TAB # print_int v @ rest) = Some (Some (v, rest))"
proof -
  have tk: "takeWhile c_isdigit (print_nat n @ rest) = print_nat n" "dropWhile c_isdigit (print_nat n @ rest) = rest" for n
    using print_nat_digits[of n] assms(1) by (cases rest; simp)+
  have sp: "skip_space (TAB # print_int v @ rest) = print_int v @ rest"
    by (rule print_int_parts[of v])
      (use hd_print_nat digit_not_special in \<open>auto simp: skip_space_def c_isspace_def dropWhile_append3 hd_append intro!: dropWhile_eq_self_iff[THEN iffD2]\<close>)
  have h: "deref (print_nat n @ rest) 0 = hd (print_nat n)" for n
    using print_nat_not_Nil[of n] by (cases "print_nat n") auto
  show ?thesis
    by (rule print_int_parts[of v])
      (use sp tk h hd_print_nat digit_not_special assms(2) in \<open>auto simp: scan_int_def Let_def\<close>)
qed

definition printable :: "hsts_kh \<times> hsts_kh_info \<Rightarrow> bool" where
  "printable e \<longleftrightarrow>
     kh_host (fst e) \<noteq> [] \<and> (\<forall>c\<in>set (kh_host (fst e)). \<not> c_isspace c \<and> c \<noteq> NUL) \<and> hd (kh_host (fst e)) \<noteq> CHR ''#'' \<and>
     length (kh_host (fst e)) \<le> 255 \<and> in_int32 (explicit_port (fst e)) \<and>
     in_int64 (created (snd e)) \<and> in_int64 (max_age (snd e)) \<and> in_int64 (created (snd e) + max_age (snd e)) \<and> 0 \<le> max_age (snd e)"

lemma sscanf_dump_line:
  assumes "printable e"
  shows "sscanf_line (dump_line e) = Some (Some (kh_host (fst e), explicit_port (fst e),
    if include_subdomains (snd e) then 1 else 0, created (snd e), max_age (snd e)))"
proof -
  let ?h = "kh_host (fst e)"
  note P = assms[unfolded printable_def]
  have sp: "skip_space (?h @ TAB # r) = ?h @ TAB # r" for r
    using P by (auto simp: skip_space_def dropWhile_eq_self_iff hd_append)
  have "takeWhile (\<lambda>c. \<not> c_isspace c) (?h @ TAB # r) = ?h" for r
    using P by (subst takeWhile_append2) (auto simp: c_isspace_def)
  then have w: "scan_word 255 (?h @ TAB # r) = Some (?h, TAB # r)" for r
    using P sp by (simp add: scan_word_def Let_def)
  have nd: "\<not> c_isdigit TAB" "\<not> c_isdigit LF" by (simp_all add: c_isdigit_def)
  have i1: "in_int32 (if include_subdomains (snd e) then 1 else 0)" by (simp add: in_int32_def)
  show ?thesis
    using P i1 nd by (simp add: sscanf_line_def dump_line_def w scan_next_def scan_print_int)
qed

lemma read_dump_line:
  assumes "printable e"
  shows "read_line store (dump_line e) False = do {
    (ok, s) \<leftarrow> hsts_new_entry store (kh_host (fst e)) (explicit_port (fst e)) (created (snd e)) (max_age (snd e)) (include_subdomains (snd e));
    Some s }"
proof -
  note P = assms[unfolded printable_def]
  have pn: "\<forall>c\<in>set (print_int v). c \<noteq> NUL" for v
    by (rule print_int_parts[of v]) (use print_nat_digits digit_not_special in auto)
  have "\<forall>c\<in>set (dump_line e). c \<noteq> NUL" using P pn by (auto simp: dump_line_def)
  then have "takeWhile (\<lambda>c. c \<noteq> NUL) (dump_line e) = dump_line e" by simp
  moreover have "skip_space (dump_line e) = dump_line e" "deref (dump_line e) 0 \<noteq> CHR ''#''"
    using P by (cases "kh_host (fst e)"; auto simp: dump_line_def skip_space_def)+
  ultimately show ?thesis
    unfolding read_line_def Let_def by (simp only: sscanf_dump_line[OF assms]) simp
qed

lemma read_dump_lines:
  assumes "hsts_inv s" "store_count s + length es \<le> 805306367" "\<forall>e\<in>set es. printable e \<and> key_ok (fst e)"
    "distinct (map fst es)" "\<forall>e\<in>set es. known s (kh_host (fst e)) (explicit_port (fst e)) = None"
  shows "\<exists>s'. hsts_read_database s (map dump_line es) False = Some s' \<and> hsts_inv s' \<and>
    (\<forall>h p. known s' h p = (case map_of es (kh_of h p) of Some e \<Rightarrow> Some e | None \<Rightarrow> known s h p))"
  using assms
proof (induction es arbitrary: s)
  case (Cons e es)
  obtain k i where e: "e = (k, i)" by force
  from Cons.prems have P: "printable e" and K: "key_ok k" and new: "known s (kh_host k) (explicit_port k) = None"
    by (auto simp: e)
  have port: "MAKE_EXPLICIT_PORT SCHEME_HTTPS (explicit_port k) = explicit_port k" and low: "lower (kh_host k) = kh_host k"
    and ip: "\<not> is_valid_ip_address (kh_host k)"
    using K by (auto simp: key_ok_def MAKE_EXPLICIT_PORT_def DEFAULT_SSL_PORT_def)
  have fit: "in_int64 (created i + max_age i)" "0 \<le> max_age i" using P by (auto simp: printable_def e)
  have room: "store_count s < 805306367" using Cons.prems(2) by simp
  obtain s1 where s1: "hsts_new_entry s (kh_host k) (explicit_port k) (created i) (max_age i) (include_subdomains i) = Some (True, s1)"
    "hsts_inv s1" "store_count s1 \<le> Suc (store_count s)"
    "\<And>h p. known s1 h p = (if h = kh_host k \<and> p = explicit_port k then Some i else known s h p)"
    using new_entry_internal_ok[OF Cons.prems(1) room fit(1), of True "kh_host k" "explicit_port k" "include_subdomains i" True]
      new ip fit(2) by (auto simp: port low hsts_new_entry_def)
  have first: "read_line s (dump_line e) False = Some s1"
    using read_dump_line[OF P, of s] s1(1) by (simp add: e)
  have others: "\<forall>x\<in>set es. known s1 (kh_host (fst x)) (explicit_port (fst x)) = None"
  proof
    fix x assume x: "x \<in> set es"
    then have "fst x \<noteq> k" using Cons.prems(4) by (auto simp: e image_iff)
    then have "\<not> (kh_host (fst x) = kh_host k \<and> explicit_port (fst x) = explicit_port k)" by (cases "fst x", cases k) auto
    then show "known s1 (kh_host (fst x)) (explicit_port (fst x)) = None" using Cons.prems(5) x s1(4) by auto
  qed
  have "store_count s1 + length es \<le> 805306367" using Cons.prems(2) s1(3) by simp
  with Cons.IH[OF s1(2) this _ _ others] Cons.prems(3,4) obtain s' where s': "hsts_read_database s1 (map dump_line es) False = Some s'"
    "hsts_inv s'" "\<forall>h p. known s' h p = (case map_of es (kh_of h p) of Some e \<Rightarrow> Some e | None \<Rightarrow> known s1 h p)" by auto
  have "known s' h p = (case map_of (e # es) (kh_of h p) of Some e \<Rightarrow> Some e | None \<Rightarrow> known s h p)" for h p
  proof (cases "kh_of h p = k")
    case True
    then have "map_of es (kh_of h p) = None" using Cons.prems(4) by (auto simp: e map_of_eq_None_iff)
    with True s'(3) s1(4) show ?thesis by (auto simp: e)
  next
    case False
    then have "\<not> (h = kh_host k \<and> p = explicit_port k)" by (cases k) auto
    with False s'(3) s1(4) show ?thesis by (auto simp: e split: option.splits)
  qed
  with s' first show ?case by auto
qed simp

end
