(* ===== verification/Wget_Hsts_Props.thy ===== *)
theory Wget_Hsts_Props
  imports Wget_Hsts_Store Wget_Params
begin

section \<open>HSTS: what the component guarantees\<close>

text \<open>
  The step of \<open>gethttp\<close> that hands a header to the store, and the properties of the HSTS
  component as a whole: which URLs are rewritten, what a header changes, how stores are
  merged, saved and read back, and where the code differs from what it says.
\<close>

definition gethttp_hsts :: "int \<Rightarrow> hsts_store \<Rightarrow> url_struct \<Rightarrow> string option \<Rightarrow> hsts_store run" where
  \<comment> \<open>\<open>opt.hsts && hsts_store\<close>; the argument is the value of the response header, if there is one\<close>
  "gethttp_hsts now store u hsts_params =
     (case parse_strict_transport_security hsts_params of
        None \<Rightarrow> Some store
      | Some (ma, incl) \<Rightarrow> do {
          (added, store) \<leftarrow> hsts_store_entry now store (u_scheme u) (u_host u) (u_port u) ma incl;
          Some store })"

lemma one_host_store:
  assumes "key_ok (kh_of h p)"
  obtains store where "hsts_inv store" "\<And>h' p'. known store h' p' = (if h' = h \<and> p' = p then Some e else None)"
    "store_count store \<le> 1" "last_mtime store = 0"
proof -
  obtain t0 :: hsts_table where t0: "hash_table_new 0 hsts_hash_func hsts_cmp_func = Some t0"
    using hash_table_new_0 by blast
  let ?s = "\<lparr>hs_table = t0, last_mtime = 0, changed = False\<rparr>"
  note N = new_store_inv(1,2)[OF t0, of 0 False] new_store_inv(3)[OF t0]
  obtain t where t: "hash_table_put (hs_table ?s) (kh_of h p) e = Some t"
    using hsts_keys.put_total[OF hsts_invD(1)[OF N(1)]] N(3) by (auto simp: hash_table_count_def)
  note K = known_put[OF N(1) t assms]
  show thesis
    by (rule that[of "?s\<lparr>hs_table := t\<rparr>"]) (use K N in simp_all)
qed

lemma empty_store:
  obtains store where "hsts_inv store" "\<And>h' p'. known store h' p' = None" "store_count store = 0" "last_mtime store = 0"
proof -
  obtain t0 :: hsts_table where t0: "hash_table_new 0 hsts_hash_func hsts_cmp_func = Some t0"
    using hash_table_new_0 by blast
  show thesis
    by (rule that[of "\<lparr>hs_table = t0, last_mtime = 0, changed = False\<rparr>"]) (use new_store_inv(1,2)[OF t0, of 0 False] new_store_inv(3)[OF t0] in auto)
qed

lemma localhost_ok: "key_ok (kh_of ''localhost'' 0)"
  by code_simp

subsection \<open>Rewriting URLs\<close>

text \<open>
  C26. On a store whose entries do not overflow, \<open>hsts_match\<close> returns, and it rewrites a URL
  exactly when the URL is not HTTPS already and the entry that governs its host (its own,
  otherwise that of the nearest super-domain that includes its subdomains) has not expired;
  rewriting sets the scheme and turns port 80 into 443 and changes nothing else, and the only
  entry it removes is an expired one of the URL's own host.
\<close>

theorem hsts_match_correct:
  assumes "hsts_inv store" and "sums_fit store"
  defines "h u \<equiv> lower (u_host u)" and "p u \<equiv> MAKE_EXPLICIT_PORT (u_scheme u) (u_port u)"
  shows "\<exists>b store' u'. hsts_match now store u = Some (b, store', u') \<and> hsts_inv store' \<and>
    b = (u_scheme u \<noteq> SCHEME_HTTPS \<and> (\<exists>e. governing store (h u) (p u) = Some e \<and> now \<le> created e + max_age e)) \<and>
    u' = (if b then u\<lparr>u_scheme := SCHEME_HTTPS, u_port := (if u_port u = 80 then 443 else u_port u)\<rparr> else u) \<and>
    (\<forall>h' p'. known store' h' p' =
       (if u_scheme u \<noteq> SCHEME_HTTPS \<and> h' = h u \<and> p' = p u \<and> (\<exists>e. known store (h u) (p u) = Some e \<and> created e + max_age e < now)
        then None else known store h' p'))"
proof (cases "u_scheme u = SCHEME_HTTPS")
  case True
  then show ?thesis using assms(1)
    by (intro exI[of _ False] exI[of _ store] exI[of _ u]) (simp add: hsts_match_def hsts_is_scheme_valid_def)
next
  case False
  obtain store' where s: "hsts_match now store u =
      (case governing store (h u) (p u) of
         Some e \<Rightarrow> if live now e then Some (True, store', upgraded u) else Some (False, store', u)
       | None \<Rightarrow> Some (False, store', u))" "hsts_inv store'"
    "\<And>h' p'. known store' h' p' =
      (if h' = h u \<and> p' = p u \<and> (case known store (h u) (p u) of None \<Rightarrow> False | Some e \<Rightarrow> \<not> live now e) then None
       else known store h' p')"
    using match_ok[OF assms(1,2) False] unfolding h_def p_def by blast
  show ?thesis
    by (cases "governing store (h u) (p u)"; cases "known store (h u) (p u)")
      (use s False in \<open>auto simp: live_def upgraded_def\<close>)
qed

theorem hsts_match_correct_witness:
  "\<exists>store store'. hsts_inv store \<and> known store ''localhost'' 0 = Some (info 100 50 True) \<and>
     hsts_match 150 store (test_url SCHEME_HTTP ''App.LOCALHOST'' 80) = Some (True, store', test_url SCHEME_HTTPS ''App.LOCALHOST'' 443)"
proof -
  obtain store where s: "hsts_inv store"
    "\<And>h' p'. known store h' p' = (if h' = ''localhost'' \<and> p' = 0 then Some (info 100 50 True) else None)"
    by (rule one_host_store[OF localhost_ok, of "info 100 50 True"]) blast
  have fit: "sums_fit store" using s(2) by (auto simp: sums_fit_def in_int64_def)
  have l: "lower ''App.LOCALHOST'' = ''app.localhost''" by code_simp
  have g: "governing store ''app.localhost'' 0 = Some (info 100 50 True)"
    by (simp add: governing_def s(2) shares_def)
  from hsts_match_correct[OF s(1) fit, of 150 "test_url SCHEME_HTTP ''App.LOCALHOST'' 80"] l g s
  show ?thesis by (auto simp: test_url_def MAKE_EXPLICIT_PORT_def DEFAULT_HTTP_PORT_def)
qed

subsection \<open>Headers\<close>

text \<open>
  C27. A Strict-Transport-Security header received over HTTPS from a host name, with a positive
  age that does not overflow, protects the host from then on: a later plain HTTP request to
  it, in any case and on the corresponding port, is rewritten until the age has passed. This
  needs that the host is not shadowed (see below) and that an existing entry was not created in the
  very same second.
\<close>

theorem hsts_header_protects:
  assumes "hsts_inv store" and "store_count store < 805306367"
    and "parse_strict_transport_security hdr = Some (ma, incl)" and "0 < ma" and "in_int64 (now + ma)" and "now \<noteq> -1"
    and "u_scheme u = SCHEME_HTTPS" and "\<not> is_valid_ip_address (u_host u)"
    and "\<not> shadowed store (lower (u_host u)) (MAKE_EXPLICIT_PORT SCHEME_HTTPS (u_port u))"
    and "\<forall>e. known store (lower (u_host u)) (MAKE_EXPLICIT_PORT SCHEME_HTTPS (u_port u)) = Some e \<longrightarrow> created e \<noteq> now"
    and "u_scheme v = SCHEME_HTTP" and "lower (u_host v) = lower (u_host u)"
    and "MAKE_EXPLICIT_PORT SCHEME_HTTP (u_port v) = MAKE_EXPLICIT_PORT SCHEME_HTTPS (u_port u)"
    and "later \<le> now + ma"
  shows "\<exists>store1 store2. gethttp_hsts now store u hdr = Some store1 \<and> hsts_inv store1 \<and>
    hsts_match later store1 v = Some (True, store2, upgraded v)"
proof -
  let ?h = "lower (u_host u)" and ?p = "MAKE_EXPLICIT_PORT SCHEME_HTTPS (u_port u)"
  have after: "entry_after now store ?h ?p ma incl = Some (info now ma incl)"
    using assms(4,9,10) by (auto simp: entry_after_def split: option.splits)
  obtain r store1 where s1: "hsts_store_entry now store SCHEME_HTTPS (u_host u) (u_port u) ma incl = Some (r, store1)"
    "hsts_inv store1" "known store1 ?h ?p = Some (info now ma incl)"
    using store_entry_ok[OF assms(1,2,5,6,8), of "u_port u" incl] after by auto
  have "hsts_find_entry store1 (u_host v) ?p = Some (Some (info now ma incl), CONGRUENT_MATCH, kh_of ?h ?p)"
    using find_entry_ok[OF s1(2), of "u_host v" ?p] s1(3) assms(12) by simp
  then have "hsts_match later store1 v = Some (True, store1\<lparr>changed := True\<rparr>, upgraded v)"
    using assms(5,11,13,14) by (simp add: hsts_match_def hsts_is_scheme_valid_def add64_def upgraded_def)
  with s1 show ?thesis using assms(3,7) by (simp add: gethttp_hsts_def)
qed

theorem hsts_header_protects_witness:
  "\<exists>store store1 store2. hsts_inv store \<and>
     gethttp_hsts 100 store (test_url SCHEME_HTTPS ''localhost'' 443) (Some ''max-age=60'') = Some store1 \<and>
     hsts_match 160 store1 (test_url SCHEME_HTTP ''localhost'' 80) = Some (True, store2, upgraded (test_url SCHEME_HTTP ''localhost'' 80))"
proof -
  obtain store where s: "hsts_inv store" "\<And>h' p'. known store h' p' = None" "store_count store = 0" by (rule empty_store) blast
  have hdr: "parse_strict_transport_security (Some ''max-age=60'') = Some (60, False)" by code_simp
  have ip: "\<not> is_valid_ip_address ''localhost''" by code_simp
  have ns: "\<not> shadowed store h p" for h p using s(2) by (simp add: shadowed_def)
  show ?thesis
    using hsts_header_protects[OF s(1) _ hdr, of 100 "test_url SCHEME_HTTPS ''localhost'' 443"
        "test_url SCHEME_HTTP ''localhost'' 80" 160] s ip ns
    by (auto simp: test_url_def in_int64_def MAKE_EXPLICIT_PORT_def DEFAULT_HTTP_PORT_def DEFAULT_SSL_PORT_def)
qed

text \<open>
  What a header does to the store, on every branch: the sender's entry is removed by age
  0, replaced by a positive age (unless it was created in the same second), kept by a
  negative one; without an entry a new one is made unless the age is negative or the host is
  shadowed; the entries of all other hosts stay, and the result says whether an entry was
  created.
\<close>

theorem hsts_store_entry_correct:
  assumes "hsts_inv store" and "store_count store < 805306367" and "in_int64 (now + ma)" and "now \<noteq> -1"
    and "\<not> is_valid_ip_address host"
  shows "\<exists>b store'. hsts_store_entry now store SCHEME_HTTPS host port ma incl = Some (b, store') \<and> hsts_inv store' \<and>
    (b \<longleftrightarrow> known store (lower host) (MAKE_EXPLICIT_PORT SCHEME_HTTPS port) = None \<and>
          known store' (lower host) (MAKE_EXPLICIT_PORT SCHEME_HTTPS port) \<noteq> None) \<and>
    (\<forall>h p. known store' h p =
       (if h = lower host \<and> p = MAKE_EXPLICIT_PORT SCHEME_HTTPS port then entry_after now store h p ma incl
        else known store h p))"
proof -
  obtain store' where "hsts_store_entry now store SCHEME_HTTPS host port ma incl =
      Some (known store (lower host) (MAKE_EXPLICIT_PORT SCHEME_HTTPS port) = None \<and>
        entry_after now store (lower host) (MAKE_EXPLICIT_PORT SCHEME_HTTPS port) ma incl \<noteq> None, store')" "hsts_inv store'"
    "\<forall>h' p'. known store' h' p' = (if h' = lower host \<and> p' = MAKE_EXPLICIT_PORT SCHEME_HTTPS port
       then entry_after now store (lower host) (MAKE_EXPLICIT_PORT SCHEME_HTTPS port) ma incl else known store h' p')"
    using store_entry_ok[OF assms, of port incl] by blast
  then show ?thesis
    by (intro exI[of _ "known store (lower host) (MAKE_EXPLICIT_PORT SCHEME_HTTPS port) = None \<and>
        entry_after now store (lower host) (MAKE_EXPLICIT_PORT SCHEME_HTTPS port) ma incl \<noteq> None"] exI[of _ store'])
      simp
qed

theorem hsts_store_entry_correct_witness:
  "\<exists>store b store'. known store ''localhost'' 0 = Some (info 100 50 False) \<and>
     hsts_store_entry 120 store SCHEME_HTTPS ''LocalHost'' 443 0 True = Some (b, store') \<and> \<not> b \<and> known store' ''localhost'' 0 = None"
proof -
  obtain store where s: "hsts_inv store"
    "\<And>h' p'. known store h' p' = (if h' = ''localhost'' \<and> p' = 0 then Some (info 100 50 False) else None)" "store_count store \<le> 1"
    by (rule one_host_store[OF localhost_ok, of "info 100 50 False"]) blast
  have l: "lower ''LocalHost'' = ''localhost''" "\<not> is_valid_ip_address ''LocalHost''" by code_simp+
  have "store_count store < 805306367" "in_int64 (120 + 0)" using s(3) by (auto simp: in_int64_def)
  from hsts_store_entry_correct[OF s(1) this _ l(2), of 443 True] obtain b store' where
    "hsts_store_entry 120 store SCHEME_HTTPS ''LocalHost'' 443 0 True = Some (b, store')"
    "b \<longleftrightarrow> known store ''localhost'' 0 = None \<and> known store' ''localhost'' 0 \<noteq> None" "known store' ''localhost'' 0 = None"
    by (auto simp: l MAKE_EXPLICIT_PORT_def DEFAULT_SSL_PORT_def s(2) entry_after_def)
  with s(2) show ?thesis by (intro exI[of _ store] exI[of _ b] exI[of _ store']) simp
qed

text \<open>
  A host that is not known is shadowed when the last component of its name is a known
  host (say \<open>localhost\<close>) and no entry governs it. Then a header it sends over HTTPS changes
  nothing at all: the search returns the other host's entry without a match, so no entry is
  made and its plain HTTP URLs are not rewritten.
\<close>

theorem hsts_shadowed_unprotected:
  assumes "hsts_inv store" and "sums_fit store" and "u_scheme u = SCHEME_HTTPS"
    and "shadowed store (lower (u_host u)) (MAKE_EXPLICIT_PORT SCHEME_HTTPS (u_port u))"
    and "u_scheme v = SCHEME_HTTP" and "lower (u_host v) = lower (u_host u)"
    and "MAKE_EXPLICIT_PORT SCHEME_HTTP (u_port v) = MAKE_EXPLICIT_PORT SCHEME_HTTPS (u_port u)"
  shows "gethttp_hsts now store u hdr = Some store \<and> (\<exists>store'. hsts_match later store v = Some (False, store', v))"
proof -
  let ?h = "lower (u_host u)" and ?p = "MAKE_EXPLICIT_PORT SCHEME_HTTPS (u_port u)"
  have g: "governing store ?h ?p = None" using assms(4) by (simp add: shadowed_def)
  obtain e where "hsts_find_entry store (u_host u) ?p = Some (Some e, NO_MATCH, kh_of ?h ?p)"
    by (rule find_entry_cases[OF assms(1), of "u_host u" ?p]) (use assms(4) g in auto)
  then have "hsts_store_entry now store SCHEME_HTTPS (u_host u) (u_port u) ma incl = Some (False, store)" for ma incl
    by (simp add: hsts_store_entry_def Let_def)
  then have "gethttp_hsts now store u hdr = Some store"
    using assms(3) by (simp add: gethttp_hsts_def split: option.splits)
  moreover have "\<exists>store'. hsts_match later store v = Some (False, store', v)"
    using match_ok[OF assms(1,2), of v later] g assms(5-7) by auto
  ultimately show ?thesis by blast
qed

theorem hsts_shadowed_unprotected_witness:
  "\<exists>store store'. hsts_inv store \<and> known store ''localhost'' 0 = Some (info 100 50 False) \<and>
     gethttp_hsts 120 store (test_url SCHEME_HTTPS ''app.localhost'' 443) (Some ''max-age=60'') = Some store \<and>
     hsts_match 121 store (test_url SCHEME_HTTP ''app.localhost'' 80) = Some (False, store', test_url SCHEME_HTTP ''app.localhost'' 80)"
proof -
  obtain store where s: "hsts_inv store"
    "\<And>h' p'. known store h' p' = (if h' = ''localhost'' \<and> p' = 0 then Some (info 100 50 False) else None)"
    by (rule one_host_store[OF localhost_ok, of "info 100 50 False"]) blast
  have fit: "sums_fit store" using s(2) by (auto simp: sums_fit_def in_int64_def)
  have l: "lower ''app.localhost'' = ''app.localhost''" by code_simp
  have "shadowed store ''app.localhost'' 0" by (simp add: shadowed_def governing_def s(2) shares_def)
  with hsts_shadowed_unprotected[OF s(1) fit, of "test_url SCHEME_HTTPS ''app.localhost'' 443"
      "test_url SCHEME_HTTP ''app.localhost'' 80" 120 "Some ''max-age=60''" 121]
  obtain store' where "gethttp_hsts 120 store (test_url SCHEME_HTTPS ''app.localhost'' 443) (Some ''max-age=60'') = Some store"
    "hsts_match 121 store (test_url SCHEME_HTTP ''app.localhost'' 80) = Some (False, store', test_url SCHEME_HTTP ''app.localhost'' 80)"
    by (auto simp: l test_url_def MAKE_EXPLICIT_PORT_def DEFAULT_HTTP_PORT_def DEFAULT_SSL_PORT_def)
  with s show ?thesis by (intro exI[of _ store] exI[of _ store']) simp
qed

text \<open>
  An age above 9223372036854775807 is read as that value, and the addition of the age to
  the current time, with which a new entry is checked, then overflows: for a host name that
  is not known, on a positive clock, storing the header has no defined result.
\<close>

theorem hsts_huge_max_age_overflows:
  assumes "hsts_inv store" and "parse_strict_transport_security hdr = Some (9223372036854775807, incl)"
    and "0 < now" and "u_scheme u = SCHEME_HTTPS" and "\<not> is_valid_ip_address (u_host u)"
    and "\<forall>h p. known store h p = None"
  shows "gethttp_hsts now store u hdr = None"
proof -
  let ?p = "MAKE_EXPLICIT_PORT SCHEME_HTTPS (u_port u)"
  have "shares store ?p = (\<lambda>d. False)" by (simp add: shares_def assms(6) fun_eq_iff)
  then have "hsts_find_entry store (u_host u) ?p = Some (None, NO_MATCH, kh_of (lower (u_host u)) ?p)"
    using find_entry_ok[OF assms(1), of "u_host u" ?p] assms(6) by (simp add: find_None_iff[THEN iffD2])
  then have "hsts_store_entry now store SCHEME_HTTPS (u_host u) (u_port u) 9223372036854775807 incl = None"
    using assms(3,5)
    by (simp add: hsts_store_entry_def Let_def hsts_is_host_eligible_def hsts_is_scheme_valid_def hsts_is_host_name_valid_def
        hsts_add_entry_def hsts_new_entry_internal_def add64_def in_int64_def)
  with assms(2,4) show ?thesis by (simp add: gethttp_hsts_def)
qed

theorem hsts_huge_max_age_overflows_witness:
  "\<exists>store. hsts_inv store \<and>
     gethttp_hsts 100 store (test_url SCHEME_HTTPS ''localhost'' 443) (Some ''max-age=9999999999999999999'') = None"
proof -
  obtain store where s: "hsts_inv store" "\<And>h' p'. known store h' p' = None" by (rule empty_store) blast
  have hdr: "parse_strict_transport_security (Some ''max-age=9999999999999999999'') = Some (9223372036854775807, False)" by code_simp
  have ip: "\<not> is_valid_ip_address ''localhost''" by code_simp
  from hsts_huge_max_age_overflows[OF s(1) hdr, of 100 "test_url SCHEME_HTTPS ''localhost'' 443"] s ip
  show ?thesis by (auto simp: test_url_def)
qed

subsection \<open>The store over time\<close>

text \<open>
  C28. However a store has come about (opening any database file, rewriting URLs, receiving
  headers, saving and merging, in any order), its table is well formed, and every host it
  knows is a lower-case name that is no numeric address, with the default port written as 0.
\<close>

theorem hsts_reachable_invariant:
  assumes "hsts_reachable store"
  shows "hsts_inv store \<and>
    (\<forall>h p. known store h p \<noteq> None \<longrightarrow> lower h = h \<and> \<not> is_valid_ip_address h \<and> p \<noteq> 443)"
  using reachable_inv[OF assms] hsts_invD(2)[OF reachable_inv[OF assms]] by (auto simp: key_ok_def)

theorem hsts_reachable_invariant_witness:
  "\<exists>store. hsts_reachable store \<and> hsts_inv store"
proof -
  obtain t0 :: hsts_table where "hash_table_new 0 hsts_hash_func hsts_cmp_func = Some t0"
    using hash_table_new_0 by blast
  then have "hsts_store_open True None = Some (Some \<lparr>hs_table = t0, last_mtime = 0, changed = False\<rparr>)"
    by (simp add: hsts_store_open_def file_exists_p_def)
  then have "hsts_reachable \<lparr>hs_table = t0, last_mtime = 0, changed = False\<rparr>" by (rule hsts_reachable.opened)
  with hsts_reachable_invariant show ?thesis by blast
qed

definition merged_entry :: "hsts_store \<Rightarrow> string \<Rightarrow> int \<Rightarrow> hsts_kh_info \<Rightarrow> hsts_kh_info option" where
  "merged_entry store h p new =
     (case known store h p of
        Some e \<Rightarrow> Some (if created e < created new then new else e)
      | None \<Rightarrow>
          if governing store h p = None \<and> \<not> shadowed store h p \<and> \<not> is_valid_ip_address h \<and> 0 \<le> max_age new then Some new
          else None)"

lemma merge_ok:
  fixes port :: int and host :: string
  assumes inv: "hsts_inv store" and room: "store_count store < 805306367" and fit: "in_int64 (cr + ma)"
  defines "h \<equiv> lower host" and "p \<equiv> MAKE_EXPLICIT_PORT SCHEME_HTTPS port"
  shows "\<exists>b store'. hsts_store_merge store host port cr ma incl = Some (b, store') \<and>
    (\<forall>h' p'. known store' h' p' = (if h' = h \<and> p' = p then merged_entry store h p (info cr ma incl) else known store h' p'))"
proof (rule find_entry_cases[OF inv, of host p, folded h_def])
  fix e assume e: "known store h p = Some e" "hsts_find_entry store host p = Some (Some e, CONGRUENT_MATCH, kh_of h p)"
  then have "known store h p \<noteq> None" by simp
  then obtain t where t: "relink (hs_table store) (kh_of h p) (info cr ma incl) = Some t"
    "\<And>h' p'. known (store\<lparr>hs_table := t\<rparr>) h' p' = (if h' = h \<and> p' = p then Some (info cr ma incl) else known store h' p')"
    by (rule known_relink[OF inv, of h p "info cr ma incl"]) blast
  show ?thesis
  proof (cases "created e < cr")
    case True
    then show ?thesis using e t
      by (intro exI[of _ True] exI[of _ "store\<lparr>hs_table := t\<rparr>"]) (simp add: hsts_store_merge_def p_def[symmetric] merged_entry_def)
  next
    case False
    then show ?thesis using e
      by (intro exI[of _ False] exI[of _ store]) (auto simp: hsts_store_merge_def p_def[symmetric] merged_entry_def)
  qed
next
  fix e assume e: "known store h p = None" "governing store h p = Some e"
    "hsts_find_entry store host p = Some (Some e, SUPERDOMAIN_MATCH, kh_of h p)"
  then show ?thesis
    by (intro exI[of _ False] exI[of _ store]) (auto simp: hsts_store_merge_def p_def[symmetric] merged_entry_def)
next
  fix e assume e: "known store h p = None" "shadowed store h p"
    "hsts_find_entry store host p = Some (Some e, NO_MATCH, kh_of h p)"
  then show ?thesis
    by (intro exI[of _ False] exI[of _ store]) (auto simp: hsts_store_merge_def p_def[symmetric] merged_entry_def)
next
  assume e: "known store h p = None" "governing store h p = None" "\<not> shadowed store h p"
    "hsts_find_entry store host p = Some (None, NO_MATCH, kh_of h p)"
  have pp: "MAKE_EXPLICIT_PORT SCHEME_HTTPS p = p" by (simp add: p_def)
  obtain b s where "hsts_new_entry_internal store host p cr ma incl True True True = Some (b, s)"
    "\<And>h' p'. known s h' p' = (if h' = h \<and> p' = p \<and> \<not> is_valid_ip_address host \<and> 0 \<le> ma
       then Some (info cr ma incl) else known store h' p')"
    using new_entry_internal_ok[OF inv room fit, of True host p incl True] e(1) unfolding pp h_def[symmetric] by auto
  then show ?thesis using e
    by (intro exI[of _ b] exI[of _ s])
      (simp add: hsts_store_merge_def p_def[symmetric] hsts_new_entry_def merged_entry_def h_def is_valid_ip_lower)
qed

text \<open>
  Merging an entry that another process wrote keeps the newer of two entries of a host;
  for a host without an entry it adds one only if no super-domain governs the host, the host
  is not shadowed, it is a name and the age is not negative: otherwise the other process's
  entry is dropped.
\<close>

theorem hsts_store_merge_correct:
  assumes "hsts_inv store" and "store_count store < 805306367" and "in_int64 (cr + ma)"
  shows "\<exists>b store'. hsts_store_merge store host port cr ma incl = Some (b, store') \<and> hsts_inv store' \<and>
    (\<forall>h p. known store' h p = (if h = lower host \<and> p = MAKE_EXPLICIT_PORT SCHEME_HTTPS port
       then merged_entry store h p (info cr ma incl) else known store h p))"
  using merge_ok[OF assms, of host port incl] merge_inv[OF assms(1)]
  by (metis (no_types, lifting))

theorem hsts_store_merge_correct_witness:
  "\<exists>store b store'. known store ''localhost'' 0 = Some (info 100 50 True) \<and>
     hsts_store_merge store ''app.localhost'' 0 200 50 False = Some (b, store') \<and> known store' ''app.localhost'' 0 = None"
proof -
  obtain store where s: "hsts_inv store"
    "\<And>h' p'. known store h' p' = (if h' = ''localhost'' \<and> p' = 0 then Some (info 100 50 True) else None)" "store_count store \<le> 1"
    by (rule one_host_store[OF localhost_ok, of "info 100 50 True"]) blast
  have l: "lower ''app.localhost'' = ''app.localhost''" by code_simp
  have "store_count store < 805306367" "in_int64 (200 + 50)" using s(3) by (auto simp: in_int64_def)
  from hsts_store_merge_correct[OF s(1) this, of "''app.localhost''" 0 False] obtain b store' where
    "hsts_store_merge store ''app.localhost'' 0 200 50 False = Some (b, store')" "known store' ''app.localhost'' 0 = None"
    by (auto simp: l MAKE_EXPLICIT_PORT_def DEFAULT_SSL_PORT_def s(2) merged_entry_def governing_def shares_def)
  with s(2) show ?thesis by (intro exI[of _ store] exI[of _ b] exI[of _ store']) simp
qed

lemma entries_known:
  assumes "hsts_inv store"
  shows "distinct (map fst (ht_entries (hs_table store)))"
    "map_of (ht_entries (hs_table store)) (kh_of h p) = known store h p"
    "x \<in> set (ht_entries (hs_table store)) \<Longrightarrow> \<exists>h p. x = (kh_of h p, snd x) \<and> known store h p = Some (snd x)"
proof -
  let ?t = "hs_table store"
  note inv = hsts_invD(1)[OF assms(1)]
  show dist: "distinct (map fst (ht_entries ?t))"
    using sorted_wrt_distinct_keys[OF hsts_keys.tf_refl hsts_keys.keys_unique_sorted[OF ht_invD(11)[OF inv]]]
    by (simp add: ht_entries_def)
  have find: "ht_find ?t k = Some x \<longleftrightarrow> x \<in> set (ht_entries ?t) \<and> fst x = k" for k x
    using hsts_keys.ht_find_iff[OF inv] by (auto simp: hsts_cmp_eq)
  then have "map_of (ht_entries ?t) (kh_of h p) = Some e \<longleftrightarrow> known store h p = Some e" for e
    using dist by (force simp: known_def)
  then show "map_of (ht_entries ?t) (kh_of h p) = known store h p" by (metis not_None_eq)
  show "\<exists>h p. x = (kh_of h p, snd x) \<and> known store h p = Some (snd x)" if "x \<in> set (ht_entries ?t)"
  proof -
    obtain h p where x: "x = (kh_of h p, snd x)" by (metis hsts_kh.surjective old.unit.exhaust prod.collapse)
    then have "ht_find ?t (kh_of h p) = Some x" using that find[of "kh_of h p" x] by (metis fst_conv)
    with x show ?thesis by (metis known_def option.simps(9))
  qed
qed



end
