(* ===== verification/Wget_Numbers.thy ===== *)
theory Wget_Numbers
  imports C_Prelude
begin

section \<open>Printing of numbers (wget/src/utils.c)\<close>

text \<open>
  The open-coded decimal printer \<open>number_to_string\<close> with its \<open>DIGITS_<D>\<close> macros and the digit
  counter \<open>numdigit\<close>, and their equivalence with the plain decimal notation, which the
  comment in the code claims. Division and remainder of C truncate towards zero.
\<close>

definition WGINT_MAX :: int where
  "WGINT_MAX = 9223372036854775807"

definition cdiv10 :: "int \<Rightarrow> int" where
  \<comment> \<open>\<open>n / 10\<close>\<close>
  "cdiv10 n = (if n < 0 then - ((- n) div 10) else n div 10)"

function numdigit_loop :: "int \<Rightarrow> nat \<Rightarrow> nat" where
  "numdigit_loop number cnt = (if cdiv10 number \<noteq> 0 then numdigit_loop (cdiv10 number) (cnt + 1) else cnt)"
  by pat_completeness auto
termination
  by (relation "measure (\<lambda>(n, cnt). nat \<bar>n\<bar>)") (auto simp: cdiv10_def split: if_splits)

declare numdigit_loop.simps [simp del]

definition numdigit :: "int \<Rightarrow> nat" where
  "numdigit number = numdigit_loop number (if number < 0 then 2 else 1)"

fun DIGITS :: "nat \<Rightarrow> int \<Rightarrow> int \<Rightarrow> string" where
  \<comment> \<open>\<open>DIGITS_<D> (mask)\<close>; the first case is never used\<close>
  "DIGITS 0 msk n = []"
| "DIGITS (Suc 0) msk n = [char_of (nat (n div msk) + 48)]"
| "DIGITS (Suc d) msk n = char_of (nat (n div msk) + 48) # DIGITS d (msk div 10) (n mod msk)"

definition print_digits :: "int \<Rightarrow> string" where
  \<comment> \<open>the cascade of comparisons of \<open>number_to_string\<close>\<close>
  "print_digits n =
     (if n < 10 then DIGITS 1 1 n
      else if n < 100 then DIGITS 2 10 n
      else if n < 1000 then DIGITS 3 100 n
      else if n < 10000 then DIGITS 4 1000 n
      else if n < 100000 then DIGITS 5 10000 n
      else if n < 1000000 then DIGITS 6 100000 n
      else if n < 10000000 then DIGITS 7 1000000 n
      else if n < 100000000 then DIGITS 8 10000000 n
      else if n < 1000000000 then DIGITS 9 100000000 n
      else if n < 10*1000000000 then DIGITS 10 1000000000 n
      else if n < 100*1000000000 then DIGITS 11 (10*1000000000) n
      else if n < 1000*1000000000 then DIGITS 12 (100*1000000000) n
      else if n < 10000*1000000000 then DIGITS 13 (1000*1000000000) n
      else if n < 100000*1000000000 then DIGITS 14 (10000*1000000000) n
      else if n < 1000000*1000000000 then DIGITS 15 (100000*1000000000) n
      else if n < 10000000*1000000000 then DIGITS 16 (1000000*1000000000) n
      else if n < 100000000*1000000000 then DIGITS 17 (10000000*1000000000) n
      else if n < 1000000000*1000000000 then DIGITS 18 (100000000*1000000000) n
      else DIGITS 19 (1000000000*1000000000) n)"

definition number_to_string :: "int \<Rightarrow> string" where
  "number_to_string number =
     (if number < - WGINT_MAX then
        let last_digit_char = char_of (48 + nat ((- number) mod 10)) \<comment> \<open>\<open>'0' - n % 10\<close>\<close>
        in CHR ''-'' # print_digits (- cdiv10 number) @ [last_digit_char]
      else if number < 0 then CHR ''-'' # print_digits (- number)
      else print_digits number)"

subsection \<open>Facts\<close>

lemma print_nat_snoc: "10 \<le> n \<Longrightarrow> print_nat n = print_nat (n div 10) @ [char_of (48 + n mod 10)]"
  by (subst print_nat.simps) simp

lemma DIGITS_last:
  assumes "0 \<le> n" "n < 10 ^ (d + 2)"
  shows "DIGITS (d + 2) (10 ^ (d + 1)) n = DIGITS (d + 1) (10 ^ d) (n div 10) @ [char_of (48 + nat (n mod 10))]"
  using assms
proof (induction d arbitrary: n)
  case 0
  then show ?case by (simp add: numeral_2_eq_2 add.commute)
next
  case (Suc d)
  let ?m = "10 ^ (d + 1) :: int"
  have m: "n mod (10 * ?m) < 10 ^ (d + 2)" "0 \<le> n mod (10 * ?m)" by simp_all
  have dd: "(10 * ?m) div 10 = ?m" by simp
  have q: "n div (10 * ?m) = (n div 10) div ?m" by (rule zdiv_zmult2_eq) simp
  have s: "n mod (10 * ?m) = 10 * (n div 10 mod ?m) + n mod 10" by (rule zmod_zmult2_eq) simp
  have r: "n mod (10 * ?m) div 10 = (n div 10) mod ?m" "n mod (10 * ?m) mod 10 = n mod 10"
    unfolding s by (simp_all only: div_mult_self4 mod_mult_self4) (simp_all add: div_add1_eq)
  have "DIGITS (Suc d + 2) (10 ^ (Suc d + 1)) n = char_of (nat (n div (10 * ?m)) + 48) # DIGITS (d + 2) ?m (n mod (10 * ?m))"
    by simp
  also have "\<dots> = char_of (nat (n div (10 * ?m)) + 48) # DIGITS (d + 1) (10 ^ d) (n mod (10 * ?m) div 10)
      @ [char_of (48 + nat (n mod (10 * ?m) mod 10))]"
    using Suc.IH[OF m(2,1)] by simp
  also have "\<dots> = (char_of (nat ((n div 10) div ?m) + 48) # DIGITS (d + 1) (?m div 10) ((n div 10) mod ?m)) @ [char_of (48 + nat (n mod 10))]"
    unfolding q r by simp
  finally show ?case by simp
qed

lemma DIGITS_print_nat:
  assumes "0 \<le> n" "n < 10 ^ (d + 1)" "d = 0 \<or> 10 ^ d \<le> n"
  shows "DIGITS (d + 1) (10 ^ d) n = print_nat (nat n)"
  using assms
proof (induction d arbitrary: n)
  case 0
  then show ?case by (subst print_nat.simps) (simp add: add.commute)
next
  case (Suc d)
  have ge: "10 * 10 ^ d \<le> n" and lt: "n < 10 ^ (d + 2)" using Suc.prems by simp_all
  have "(1::int) \<le> 10 ^ d" by simp
  then have n10: "10 \<le> n" using ge by linarith
  have div: "0 \<le> n div 10" "n div 10 < 10 ^ (d + 1)" "d = 0 \<or> 10 ^ d \<le> n div 10"
    using Suc.prems(1) lt ge by (simp_all add: pos_imp_zdiv_nonneg_iff) linarith+
  have "nat n div 10 = nat (n div 10)" "nat n mod 10 = nat (n mod 10)"
    using Suc.prems(1) by (simp_all add: nat_div_distrib nat_mod_distrib)
  then have "print_nat (nat n) = print_nat (nat (n div 10)) @ [char_of (48 + nat (n mod 10))]"
    using print_nat_snoc[of "nat n"] n10 by simp
  with DIGITS_last[OF Suc.prems(1) lt] Suc.IH[OF div] show ?case by simp
qed

lemma print_digits_nat:
  assumes "0 \<le> n" "n \<le> WGINT_MAX"
  shows "print_digits n = print_nat (nat n)"
proof -
  have D: "n < 10 ^ (d + 1) \<Longrightarrow> d = 0 \<or> 10 ^ d \<le> n \<Longrightarrow> DIGITS (d + 1) (10 ^ d) n = print_nat (nat n)" for d
    by (rule DIGITS_print_nat[OF assms(1)])
  have D1: "n < 100 \<Longrightarrow> 10 \<le> n \<Longrightarrow> DIGITS 2 10 n = print_nat (nat n)"
    using D[of 1] by (simp add: numeral_2_eq_2 del: DIGITS.simps)
  have "n < 10000000000000000000" using assms(2) by (simp add: WGINT_MAX_def)
  then show ?thesis
    unfolding print_digits_def
    by (simp del: DIGITS.simps split del: if_split add: D[of 0, simplified] D1 D[of 2, simplified] D[of 3, simplified] D[of 4, simplified] D[of 5, simplified] D[of 6, simplified] D[of 7, simplified] D[of 8, simplified] D[of 9, simplified] D[of 10, simplified] D[of 11, simplified] D[of 12, simplified] D[of 13, simplified] D[of 14, simplified] D[of 15, simplified] D[of 16, simplified] D[of 17, simplified] D[of 18, simplified] cong: if_cong)
qed

lemma number_to_string_eq:
  assumes "in_int64 n"
  shows "number_to_string n = print_int n"
proof (cases "n < - WGINT_MAX")
  case True
  then have n: "n = -9223372036854775808" using assms by (simp add: in_int64_def WGINT_MAX_def)
  have "print_digits 922337203685477580 = print_nat 922337203685477580"
    using print_digits_nat[of 922337203685477580] by (simp add: WGINT_MAX_def)
  moreover have "print_nat 9223372036854775808 = print_nat 922337203685477580 @ [char_of (56::nat)]"
    using print_nat_snoc[of 9223372036854775808] by simp
  ultimately show ?thesis by (simp add: number_to_string_def n WGINT_MAX_def cdiv10_def print_int_def)
next
  case False
  then show ?thesis
    using assms print_digits_nat[of n] print_digits_nat[of "- n"]
    by (auto simp: number_to_string_def print_int_def in_int64_def WGINT_MAX_def)
qed

lemma numdigit_loop_eq: "numdigit_loop n cnt + 1 = cnt + length (print_nat (nat \<bar>n\<bar>))"
proof (induction n cnt rule: numdigit_loop.induct)
  case (1 n cnt)
  have abs: "nat \<bar>cdiv10 n\<bar> = nat \<bar>n\<bar> div 10" by (auto simp: cdiv10_def nat_div_distrib abs_if)
  show ?case
  proof (cases "cdiv10 n = 0")
    case True
    then have "nat \<bar>n\<bar> < 10" using abs by simp
    then show ?thesis using True by (subst numdigit_loop.simps, subst print_nat.simps) simp
  next
    case False
    then have "nat \<bar>n\<bar> div 10 \<noteq> 0" using abs by simp
    then have "print_nat (nat \<bar>n\<bar>) = print_nat (nat \<bar>cdiv10 n\<bar>) @ [char_of (48 + nat \<bar>n\<bar> mod 10)]"
      unfolding abs by (intro print_nat_snoc) (simp add: div_eq_0_iff)
    then show ?thesis using 1 False by (subst numdigit_loop.simps) simp
  qed
qed

lemma numdigit_eq: "numdigit n = length (print_int n)"
  using numdigit_loop_eq[of n 1] numdigit_loop_eq[of n 2] by (auto simp: numdigit_def print_int_def)

subsection \<open>Properties\<close>

text \<open>
  For every 64-bit number, the smallest one included, \<open>number_to_string\<close> prints what
  \<open>sprintf ("%lld")\<close> prints, and \<open>numdigit\<close> is the length of that text, which the callers allocate.
\<close>

theorem number_to_string_correct:
  assumes "in_int64 n"
  shows "number_to_string n = print_int n \<and> numdigit n = length (number_to_string n)"
  using number_to_string_eq[OF assms] by (simp add: numdigit_eq)

theorem number_to_string_correct_witness:
  "number_to_string (-9223372036854775808) = ''-9223372036854775808'' \<and> numdigit (-9223372036854775808) = 20"
proof -
  have "number_to_string (-9223372036854775808) = ''-9223372036854775808''" by code_simp
  with number_to_string_correct[of "-9223372036854775808"] show ?thesis by (simp add: in_int64_def)
qed

end
