(* ===== verification/Wget_Url.thy ===== *)
theory Wget_Url
  imports Wget_Url_Escape Wget_Host Wget_Numbers
begin

section \<open>Parsing and printing of URLs (wget/src/url.c)\<close>

text \<open>
  Schemes, \<open>url_parse\<close> with everything it calls, the printing function \<open>url_string\<close>, the full
  path, the mutators and the comparison of URLs. wget is built without IRI support here, so
  the recoding of \<open>url_parse\<close> is not compiled in and \<open>opt.enable_iri\<close> is false. The flag
  \<open>scm_disabled\<close> of the table of schemes, which \<open>scheme_disable\<close> sets, is the list of the
  disabled schemes. A failed assertion is the outer \<^term>\<open>None\<close>; the errors of \<open>url_parse\<close> are
  values of \<open>parse_error\<close>.
\<close>

subsection \<open>Schemes\<close>

fun scheme_name :: "url_scheme \<Rightarrow> string option" where
  "scheme_name SCHEME_HTTP = Some ''http''"
| "scheme_name SCHEME_HTTPS = Some ''https''"
| "scheme_name SCHEME_FTP = Some ''ftp''"
| "scheme_name SCHEME_FTPS = Some ''ftps''"
| "scheme_name SCHEME_INVALID = None"

fun scheme_leading_string :: "url_scheme \<Rightarrow> string option" where
  "scheme_leading_string SCHEME_HTTP = Some ''http://''"
| "scheme_leading_string SCHEME_HTTPS = Some ''https://''"
| "scheme_leading_string SCHEME_FTP = Some ''ftp://''"
| "scheme_leading_string SCHEME_FTPS = Some ''ftps://''"
| "scheme_leading_string SCHEME_INVALID = None"

fun scheme_default_port :: "url_scheme \<Rightarrow> int" where
  "scheme_default_port SCHEME_HTTP = DEFAULT_HTTP_PORT"
| "scheme_default_port SCHEME_HTTPS = DEFAULT_HTTPS_PORT"
| "scheme_default_port SCHEME_FTP = DEFAULT_FTP_PORT"
| "scheme_default_port SCHEME_FTPS = DEFAULT_FTP_PORT"
| "scheme_default_port SCHEME_INVALID = -1"

fun scm_has_params :: "url_scheme \<Rightarrow> bool" where
  "scm_has_params s = (s = SCHEME_FTP \<or> s = SCHEME_FTPS)"

fun scm_has_query :: "url_scheme \<Rightarrow> bool" where
  "scm_has_query s = (s = SCHEME_HTTP \<or> s = SCHEME_HTTPS)"

fun scm_has_fragment :: "url_scheme \<Rightarrow> bool" where
  "scm_has_fragment s = (s \<noteq> SCHEME_INVALID)"

definition supported_schemes :: "url_scheme list" where
  "supported_schemes = [SCHEME_HTTP, SCHEME_HTTPS, SCHEME_FTP, SCHEME_FTPS]"

definition scheme_disable :: "url_scheme list \<Rightarrow> url_scheme \<Rightarrow> url_scheme list" where
  "scheme_disable disabled scheme = scheme # disabled"

definition strncaseeq :: "string \<Rightarrow> string \<Rightarrow> bool" where
  \<comment> \<open>\<open>0 == c_strncasecmp (s, lit, strlen (lit))\<close>\<close>
  "strncaseeq s lit \<longleftrightarrow> lower (take (length lit) s) = lower lit"

fun scheme_search :: "url_scheme list \<Rightarrow> string \<Rightarrow> url_scheme list \<Rightarrow> url_scheme" where
  "scheme_search disabled url [] = SCHEME_INVALID"
| "scheme_search disabled url (s # ss) =
     (case scheme_leading_string s of
        None \<Rightarrow> SCHEME_INVALID
      | Some lead \<Rightarrow>
          if strncaseeq url lead then if \<not> List.member disabled s then s else SCHEME_INVALID
          else scheme_search disabled url ss)"

definition url_scheme_of :: "url_scheme list \<Rightarrow> string \<Rightarrow> url_scheme" where
  "url_scheme_of disabled url = scheme_search disabled url supported_schemes"

definition SCHEME_CHAR :: "char \<Rightarrow> bool" where
  "SCHEME_CHAR ch \<longleftrightarrow> c_isalnum ch \<or> ch = CHR ''-'' \<or> ch = CHR ''+''"

definition url_has_scheme :: "string \<Rightarrow> bool" where
  "url_has_scheme url =
     (if url = [] \<or> \<not> SCHEME_CHAR (hd url) then False
      else deref (dropWhile SCHEME_CHAR (tl url)) 0 = CHR '':'')"

definition url_valid_scheme :: "url_scheme list \<Rightarrow> string \<Rightarrow> bool" where
  "url_valid_scheme disabled url \<longleftrightarrow> url_scheme_of disabled url \<noteq> SCHEME_INVALID"

definition schemes_are_similar_p :: "url_scheme \<Rightarrow> url_scheme \<Rightarrow> bool" where
  "schemes_are_similar_p a b =
     (if a = b then True
      else if a = SCHEME_HTTP \<and> b = SCHEME_HTTPS \<or> a = SCHEME_HTTPS \<and> b = SCHEME_HTTP then True
      else False)"

subsection \<open>Credentials and prefixes\<close>

fun skip_credentials_loop :: "string \<Rightarrow> string option" where
  \<comment> \<open>the suffix after the at sign, if the loop reaches one\<close>
  "skip_credentials_loop [] = None"
| "skip_credentials_loop (c # p) =
     (if c_isalnum c then skip_credentials_loop p
      else if List.member ''-_.!~*'();:&=+$,'' c then skip_credentials_loop p
      else if c = CHR ''%'' \<and> c_isxdigit (deref p 0) \<and> c_isxdigit (deref p 1) then skip_credentials_loop (drop 2 p)
      else if c = CHR ''@'' then Some p
      else None)"

definition url_skip_credentials :: "string \<Rightarrow> string" where
  "url_skip_credentials url = (case skip_credentials_loop url of Some p \<Rightarrow> p | None \<Rightarrow> url)"

definition parse_credentials :: "string \<Rightarrow> (string \<times> string option) option" where
  \<comment> \<open>user and password; \<^term>\<open>None\<close> when it returns false\<close>
  "parse_credentials region =
     (if region = [] then None
      else
        case strchr region (CHR '':'') of
          None \<Rightarrow> Some (url_unescape region, None)
        | Some colon \<Rightarrow>
            if colon = region then None
            else Some (url_unescape (strdupdelim region colon), Some (url_unescape (tl colon))))"

definition atoi :: "string \<Rightarrow> int run" where
  \<comment> \<open>the C library function; undefined when the value does not fit\<close>
  "atoi s =
     (let p = skip_space s;
          neg = (deref p 0 = CHR ''-'');
          ds = takeWhile c_isdigit (if deref p 0 = CHR ''-'' \<or> deref p 0 = CHR ''+'' then tl p else p);
          v = (if neg then - digits_value ds else digits_value ds)
      in if in_int32 v then Some v else None)"

definition is_valid_port :: "string \<Rightarrow> bool run" where
  "is_valid_port p = do {
     a \<leftarrow> atoi p;
     let port = a mod 4294967296;
     if port = 0 \<or> port > 65535 then Some False
     else do {
       let digits = length (takeWhile c_isdigit p);
       Some (digits \<noteq> 0 \<and> (deref p digits = CHR ''/'' \<or> deref p digits = NUL)) } }"

definition maybe_prepend_scheme :: "url_scheme list \<Rightarrow> string \<Rightarrow> string option run" where
  "maybe_prepend_scheme disabled url =
     (if url_scheme_of disabled url \<noteq> SCHEME_INVALID then Some None
      else
        case strchr url (CHR '':'') of
          None \<Rightarrow> Some (Some (''http://'' @ url))
        | Some p \<Rightarrow>
            if p = url then Some None
            else if deref p 1 = CHR ''/'' \<and> deref p 2 = CHR ''/'' then Some None
            else do {
              valid \<leftarrow> is_valid_port (tl p);
              Some (if \<not> valid then None else Some (''http://'' @ url)) })"

subsection \<open>Paths\<close>

definition strpbrk_or_eos :: "string \<Rightarrow> string \<Rightarrow> string" where
  "strpbrk_or_eos s accept = dropWhile (\<lambda>c. \<not> List.member accept c) s"

definition lowercase_str :: "string \<Rightarrow> string \<times> bool" where
  "lowercase_str str = (map (\<lambda>c. if c_isupper c then c_tolower c else c) str, list_ex c_isupper str)"

definition init_seps :: "url_scheme \<Rightarrow> string" where
  "init_seps scheme =
     '':/'' @ (if scm_has_params scheme then '';'' else []) @ (if scm_has_query scheme then ''?'' else [])
       @ (if scm_has_fragment scheme then ''#'' else [])"

definition split_path :: "string \<Rightarrow> string \<times> string" where
  "split_path path =
     (case strrchr_pos path (CHR ''/'') of
        None \<Rightarrow> (url_unescape [], url_unescape path)
      | Some k \<Rightarrow> (url_unescape (take k path), url_unescape (drop (k + 1) path)))"

fun retreat :: "nat \<Rightarrow> nat \<Rightarrow> string \<Rightarrow> nat" where
  \<comment> \<open>\<open>for (; t > beg && t[-1] != '/'; t--)\<close>\<close>
  "retreat beg 0 path = 0"
| "retreat beg (Suc t) path = (if Suc t > beg \<and> path ! t \<noteq> CHR ''/'' then retreat beg t path else Suc t)"

function simplify_loop :: "url_scheme \<Rightarrow> string \<Rightarrow> nat \<Rightarrow> string \<Rightarrow> nat \<Rightarrow> string \<times> nat" where
  \<comment> \<open>the rest of the path from the hare on, the position of the hare, what the tortoise has left
      behind, and \<open>beg\<close>; copying an element over itself and skipping it are the same\<close>
  "simplify_loop scheme rest h out beg =
     (if rest = [] then (out, h)
      else if deref rest 0 = CHR ''.'' \<and> (deref rest 1 = CHR ''/'' \<or> deref rest 1 = NUL) then
        simplify_loop scheme (drop 2 rest) (h + 2) out beg
      else if deref rest 0 = CHR ''.'' \<and> deref rest 1 = CHR ''.'' \<and> (deref rest 2 = CHR ''/'' \<or> deref rest 2 = NUL)
          \<and> (length out > beg \<or> \<not> (scheme = SCHEME_FTP \<or> scheme = SCHEME_FTPS)) then
        simplify_loop scheme (drop 3 rest) (h + 3)
          (if length out > beg then take (retreat beg (length out - 1) out) out else out) beg
      else
        let beg = (if deref rest 0 = CHR ''.'' \<and> deref rest 1 = CHR ''.'' \<and> (deref rest 2 = CHR ''/'' \<or> deref rest 2 = NUL)
                   then length out + 3 else beg);
            n = length (takeWhile (\<lambda>c. c \<noteq> CHR ''/'') rest);
            n = (if n < length rest then n + 1 else n)
        in simplify_loop scheme (drop n rest) (h + n) (out @ take n rest) beg)"
  by pat_completeness auto
termination
  by (relation "measure (\<lambda>(scheme, rest, h, out, beg). length rest)") auto

declare simplify_loop.simps [simp del]

definition path_simplify :: "url_scheme \<Rightarrow> string \<Rightarrow> string \<times> bool" where
  "path_simplify scheme path =
     (let (out, h) = simplify_loop scheme path 0 [] 0 in (out, length out \<noteq> h))"

subsection \<open>The full path and the text of a URL\<close>

definition full_path_length :: "url_struct \<Rightarrow> nat" where
  "full_path_length u =
     1 + length (u_path u) + (case u_params u of None \<Rightarrow> 0 | Some el \<Rightarrow> 1 + length el)
       + (case u_query u of None \<Rightarrow> 0 | Some el \<Rightarrow> 1 + length el)"

definition full_path_write :: "url_struct \<Rightarrow> string" where
  "full_path_write u =
     CHR ''/'' # u_path u @ (case u_params u of None \<Rightarrow> [] | Some el \<Rightarrow> CHR '';'' # el)
       @ (case u_query u of None \<Rightarrow> [] | Some el \<Rightarrow> CHR ''?'' # el)"

definition url_full_path :: "url_struct \<Rightarrow> string run" where
  \<comment> \<open>\<^term>\<open>None\<close> when the text does not have the length that was allocated\<close>
  "url_full_path u = (if length (full_path_write u) = full_path_length u then Some (full_path_write u) else None)"

datatype url_auth_mode = URL_AUTH_SHOW | URL_AUTH_HIDE_PASSWD | URL_AUTH_HIDE

definition HIDDEN_PASSWORD :: string where
  "HIDDEN_PASSWORD = ''*password*''"

definition quote_host :: "string \<Rightarrow> string run" where
  "quote_host host = do {
     q \<leftarrow> url_escape_allow_passthrough host;
     Some (if \<not> list_ex (\<lambda>c. urlchr_test c urlchr_unsafe) host then host else unescape_single_char q (CHR '':'')) }"

definition quote_auth :: "url_struct \<Rightarrow> url_auth_mode \<Rightarrow> (string option \<times> string option) run" where
  \<comment> \<open>\<open>quoted_user\<close> and \<open>quoted_passwd\<close>\<close>
  "quote_auth u auth_mode =
     (case u_user u of
        None \<Rightarrow> Some (None, None)
      | Some user \<Rightarrow>
          if auth_mode = URL_AUTH_HIDE then Some (None, None)
          else do {
            quser \<leftarrow> url_escape_allow_passthrough user;
            (case u_passwd u of
               None \<Rightarrow> Some (Some quser, None)
             | Some passwd \<Rightarrow>
                 if auth_mode = URL_AUTH_HIDE_PASSWD then Some (Some quser, Some HIDDEN_PASSWORD)
                 else do {
                   qpasswd \<leftarrow> url_escape_allow_passthrough passwd;
                   Some (Some quser, Some qpasswd) }) })"

definition url_string :: "url_struct \<Rightarrow> url_auth_mode \<Rightarrow> string run" where
  "url_string u auth_mode = do {
     let scheme_port = scheme_default_port (u_scheme u);
     scheme_str \<leftarrow> scheme_leading_string (u_scheme u); \<comment> \<open>\<open>assert (scheme_str != NULL)\<close>\<close>
     (quoted_user, quoted_passwd) \<leftarrow> quote_auth u auth_mode;
     quoted_host \<leftarrow> quote_host (u_host u);
     let brackets = List.member quoted_host (CHR '':'');
     let sz = length scheme_str + length quoted_host + (if brackets then 2 else 0) + full_path_length u + 1
         + (if u_port u \<noteq> scheme_port then 1 + numdigit (u_port u) else 0)
         + (case quoted_user of
              None \<Rightarrow> 0
            | Some user \<Rightarrow> 1 + length user + (case quoted_passwd of None \<Rightarrow> 0 | Some passwd \<Rightarrow> 1 + length passwd));
     let result = scheme_str
         @ (case quoted_user of
              None \<Rightarrow> []
            | Some user \<Rightarrow> user @ (case quoted_passwd of None \<Rightarrow> [] | Some passwd \<Rightarrow> CHR '':'' # passwd) @ ''@'')
         @ (if brackets then ''['' else []) @ quoted_host @ (if brackets then '']'' else [])
         @ (if u_port u \<noteq> scheme_port then CHR '':'' # number_to_string (u_port u) else [])
         @ full_path_write u;
     if length result + 1 = sz then Some result else None }"

subsection \<open>Parsing\<close>

datatype parse_error =
    PE_UNSUPPORTED_SCHEME
  | PE_UNSUPPORTED_SCHEME_HTTPS
  | PE_UNSUPPORTED_SCHEME_FTPS
  | PE_MISSING_SCHEME
  | PE_INVALID_HOST_NAME
  | PE_BAD_PORT_NUMBER
  | PE_INVALID_USER_NAME
  | PE_UNTERMINATED_IPV6_ADDRESS
  | PE_INVALID_IPV6_ADDRESS

definition c_iscntrl :: "char \<Rightarrow> bool" where
  "c_iscntrl c \<longleftrightarrow> byte c < 32 \<or> byte c = 127"

definition scheme_error :: "string \<Rightarrow> parse_error" where
  "scheme_error url =
     (if \<not> url_has_scheme url then PE_MISSING_SCHEME
      else if strncaseeq url ''https:'' then PE_UNSUPPORTED_SCHEME_HTTPS
      else if strncaseeq url ''ftps:'' then PE_UNSUPPORTED_SCHEME_FTPS
      else PE_UNSUPPORTED_SCHEME)"

definition parse_host :: "string \<Rightarrow> string \<Rightarrow> parse_error + string \<times> string" where
  \<comment> \<open>the region of the host and the pointer after it\<close>
  "parse_host p seps =
     (if deref p 0 = CHR ''['' then
        case strchr (tl p) (CHR '']'') of
          None \<Rightarrow> Inl PE_UNTERMINATED_IPV6_ADDRESS
        | Some host_e \<Rightarrow>
            if \<not> is_valid_ipv6_address (strdupdelim (tl p) host_e) then Inl PE_INVALID_IPV6_ADDRESS
            else if tl host_e \<noteq> [] \<and> \<not> List.member seps (hd (tl host_e)) then Inl PE_INVALID_HOST_NAME
            else Inr (strdupdelim (tl p) host_e, tl host_e)
      else Inr (strdupdelim p (strpbrk_or_eos p seps), strpbrk_or_eos p seps))"

fun parse_port :: "string \<Rightarrow> int \<Rightarrow> parse_error + int" where
  \<comment> \<open>the loop over the digits of the port\<close>
  "parse_port [] port = Inr port"
| "parse_port (c # pp) port =
     (if \<not> c_isdigit c then Inl PE_BAD_PORT_NUMBER
      else
        let port = 10 * port + (int (byte c) - 48) in
        if port > 0xffff then Inl PE_BAD_PORT_NUMBER else parse_port pp port)"

definition GET_URL_PART :: "char \<Rightarrow> string \<Rightarrow> string \<Rightarrow> string option \<times> string" where
  \<comment> \<open>the region of the part, if it is there, and the pointer after it\<close>
  "GET_URL_PART sepchar p seps =
     (if deref p 0 = sepchar
      then (Some (strdupdelim (tl p) (strpbrk_or_eos (tl p) seps)), strpbrk_or_eos (tl p) seps)
      else (None, p))"

record url_parts =
  part_path :: "string option"
  part_params :: "string option"
  part_query :: "string option"
  part_fragment :: "string option"

definition get_parts :: "url_scheme \<Rightarrow> string \<Rightarrow> string \<Rightarrow> url_parts \<times> string" where
  \<comment> \<open>with \<open>seps\<close> after the slash; the second component is \<open>p\<close> at the end\<close>
  "get_parts scheme p seps =
     (let (path, p) = GET_URL_PART (CHR ''/'') p seps; seps = tl seps;
          (params, p, seps) =
            (if scm_has_params scheme then let (x, p) = GET_URL_PART (CHR '';'') p seps in (x, p, tl seps) else (None, p, seps));
          (query, p, seps) =
            (if scm_has_query scheme then let (x, p) = GET_URL_PART (CHR ''?'') p seps in (x, p, tl seps) else (None, p, seps));
          (fragment, p, seps) =
            (if scm_has_fragment scheme then let (x, p) = GET_URL_PART (CHR ''#'') p seps in (x, p, tl seps) else (None, p, seps))
      in (\<lparr>part_path = path, part_params = params, part_query = query, part_fragment = fragment\<rparr>, p))"

definition parse_authority :: "url_scheme \<Rightarrow> string \<Rightarrow> parse_error + string \<times> int \<times> url_parts \<times> string" where
  \<comment> \<open>from the host on: host, port, the other parts and \<open>p\<close> at the end\<close>
  "parse_authority scheme p =
     (case parse_host p (init_seps scheme) of
        Inl e \<Rightarrow> Inl e
      | Inr (host, p) \<Rightarrow>
          if host = [] then Inl PE_INVALID_HOST_NAME
          else
            let seps = tl (init_seps scheme);
                port_e = strpbrk_or_eos (tl p) seps;
                region = strdupdelim (tl p) port_e
            in case (if deref p 0 = CHR '':'' \<and> region \<noteq> [] then parse_port region 0
                     else Inr (scheme_default_port scheme)) of
                 Inl e \<Rightarrow> Inl e
               | Inr port \<Rightarrow>
                   let (parts, p) = get_parts scheme (if deref p 0 = CHR '':'' then port_e else p) (tl seps)
                   in Inr (host, port, parts, p))"

definition finish_url ::
  "url_scheme \<Rightarrow> string \<Rightarrow> string option \<Rightarrow> string option \<Rightarrow> string \<Rightarrow> int \<Rightarrow> url_parts \<Rightarrow> (parse_error + url_struct) run" where
  \<comment> \<open>from \<open>u = xnew0 (struct url)\<close> on\<close>
  "finish_url scheme url_encoded user passwd host port parts =
     (let path0 = (case part_path parts of None \<Rightarrow> [] | Some x \<Rightarrow> x);
          (path, path_modified) = path_simplify scheme path0;
          (dir, file) = split_path path;
          (host, host_modified) = lowercase_str host;
          escaped = List.member host (CHR ''%'');
          host = (if escaped then url_unescape host else host)
      in if escaped \<and> list_ex c_iscntrl host then Some (Inl PE_INVALID_HOST_NAME)
         else
           let u = \<lparr>u_url = [], u_scheme = scheme, u_host = host, u_port = port, u_path = path,
                 u_params = part_params parts, u_query = part_query parts, u_fragment = part_fragment parts,
                 u_dir = dir, u_file = file, u_user = user, u_passwd = passwd\<rparr>
           in if path_modified \<or> part_fragment parts \<noteq> None \<or> host_modified \<or> escaped \<or> path0 = [] then do {
                text \<leftarrow> url_string u URL_AUTH_SHOW;
                Some (Inr (u\<lparr>u_url := text\<rparr>)) }
              else Some (Inr (u\<lparr>u_url := url_encoded\<rparr>)))"

definition url_parse :: "url_scheme list \<Rightarrow> string \<Rightarrow> bool \<Rightarrow> (parse_error + url_struct) run" where
  "url_parse disabled url encode =
     (let scheme = url_scheme_of disabled url in
      case scheme_leading_string scheme of
        None \<Rightarrow> Some (Inl (scheme_error url))
      | Some lead \<Rightarrow> do {
          url_encoded \<leftarrow> (if encode then reencode_escapes url else Some url);
          let uname_b = drop (length lead) url_encoded;
          let p = url_skip_credentials uname_b;
          (case parse_authority scheme p of
             Inl e \<Rightarrow> Some (Inl e)
           | Inr (host, port, parts, rest) \<Rightarrow>
               if rest \<noteq> [] then None \<comment> \<open>\<open>assert (*p == 0)\<close>\<close>
               else if p \<noteq> uname_b then
                 case parse_credentials (butlast (strdupdelim uname_b p)) of
                   None \<Rightarrow> Some (Inl PE_INVALID_USER_NAME)
                 | Some (user, passwd) \<Rightarrow> finish_url scheme url_encoded (Some user) passwd host port parts
               else finish_url scheme url_encoded None None host port parts) })"

subsection \<open>Mutators\<close>

definition sync_path :: "url_struct \<Rightarrow> url_struct run" where
  "sync_path u = do {
     edir \<leftarrow> url_escape_dir (u_dir u);
     efile \<leftarrow> url_escape_1 (u_file u) (urlchr_unsafe OR urlchr_reserved);
     let newpath = (if edir = [] then efile else edir @ ''/'' @ efile);
     let u = u\<lparr>u_path := newpath\<rparr>;
     text \<leftarrow> url_string u URL_AUTH_SHOW;
     Some (u\<lparr>u_url := text\<rparr>) }"

definition url_set_dir :: "url_struct \<Rightarrow> string \<Rightarrow> url_struct run" where
  "url_set_dir u newdir = sync_path (u\<lparr>u_dir := newdir\<rparr>)"

definition url_set_file :: "url_struct \<Rightarrow> string \<Rightarrow> url_struct run" where
  "url_set_file u newfile = sync_path (u\<lparr>u_file := newfile\<rparr>)"

subsection \<open>Comparison\<close>

definition getchar_from_escaped_string :: "string \<Rightarrow> nat \<times> char" where
  \<comment> \<open>how far to advance, and the character; the argument is not empty\<close>
  "getchar_from_escaped_string p =
     (if deref p 0 = CHR ''%'' then
        if \<not> c_isxdigit (deref p 1) \<or> \<not> c_isxdigit (deref p 2) then (1, CHR ''%'')
        else
          let c = char_of (X2DIGITS_TO_NUM (deref p 1) (deref p 2)) in
          if URL_RESERVED_CHAR c then (1, CHR ''%'') else (3, c)
      else (1, deref p 0))"

function urls_equal_loop :: "string \<Rightarrow> string \<Rightarrow> bool" where
  "urls_equal_loop p q =
     (if p \<noteq> [] \<and> q \<noteq> [] \<and>
         c_tolower (snd (getchar_from_escaped_string p)) = c_tolower (snd (getchar_from_escaped_string q))
      then urls_equal_loop (drop (fst (getchar_from_escaped_string p)) p) (drop (fst (getchar_from_escaped_string q)) q)
      else p = [] \<and> q = [])"
  by pat_completeness auto
termination
  by (relation "measure (\<lambda>(p, q). length p)")
    (auto simp: getchar_from_escaped_string_def Let_def)

declare urls_equal_loop.simps [simp del]

definition are_urls_equal :: "string \<Rightarrow> string \<Rightarrow> bool" where
  "are_urls_equal u1 u2 = urls_equal_loop u1 u2"

end
