(* ===== verification/Wget_Url_Path.thy ===== *)
theory Wget_Url_Path
  imports Wget_Url
begin

section \<open>Simplification of paths\<close>

text \<open>
  The one-pass, in-place \<open>path_simplify\<close> against a reference on the list of path elements:
  an element is the text up to and including the next slash, \<open>.\<close> is dropped, and \<open>..\<close> removes
  the element before it or, in FTP paths, stays where there is none.
\<close>

subsection \<open>Elements\<close>

definition elem_len :: "string \<Rightarrow> nat" where
  "elem_len p = (let n = length (takeWhile (\<lambda>c. c \<noteq> CHR ''/'') p) in if n < length p then n + 1 else n)"

lemma elem_len_bounds: "p \<noteq> [] \<Longrightarrow> 0 < elem_len p" "elem_len p \<le> length p"
  by (auto simp: elem_len_def Let_def length_takeWhile_le)

function elements :: "string \<Rightarrow> string list" where
  "elements p = (if p = [] then [] else take (elem_len p) p # elements (drop (elem_len p) p))"
  by pat_completeness auto
termination
  by (relation "measure length") (auto simp: elem_len_bounds)

declare elements.simps [simp del]

definition slash_elem :: "string \<Rightarrow> bool" where
  "slash_elem e \<longleftrightarrow> (\<exists>x. e = x @ ''/'' \<and> CHR ''/'' \<notin> set x)"

definition is_dot :: "string \<Rightarrow> bool" where
  "is_dot e \<longleftrightarrow> e = ''.'' \<or> e = ''./''"

definition is_dotdot :: "string \<Rightarrow> bool" where
  "is_dotdot e \<longleftrightarrow> e = ''..'' \<or> e = ''../''"

fun resolve :: "bool \<Rightarrow> string list \<Rightarrow> string list \<Rightarrow> string list \<Rightarrow> string list" where
  \<comment> \<open>\<open>l\<close>: the leading \<open>..\<close> elements that an FTP path keeps, \<open>q\<close>: the elements that can be removed\<close>
  "resolve ftp l q [] = l @ q"
| "resolve ftp l q (e # es) =
     (if is_dot e then resolve ftp l q es
      else if is_dotdot e then
        if q \<noteq> [] then resolve ftp l (butlast q) es
        else if ftp then resolve ftp (l @ [e]) [] es
        else resolve ftp l q es
      else resolve ftp l (q @ [e]) es)"

definition is_ftp :: "url_scheme \<Rightarrow> bool" where
  "is_ftp s \<longleftrightarrow> s = SCHEME_FTP \<or> s = SCHEME_FTPS"

definition simplified :: "url_scheme \<Rightarrow> string \<Rightarrow> string" where
  "simplified s path = concat (resolve (is_ftp s) [] [] (elements path))"

lemma elements_Nil [simp]: "elements [] = []"
  by (simp add: elements.simps[of "[]"])

lemma elements_Cons: "p \<noteq> [] \<Longrightarrow> elements p = take (elem_len p) p # elements (drop (elem_len p) p)"
  by (simp add: elements.simps[of p])

lemma elem_len_slash: "CHR ''/'' \<notin> set x \<Longrightarrow> elem_len (x @ CHR ''/'' # r) = length x + 1"
proof -
  assume "CHR ''/'' \<notin> set x"
  then have "takeWhile (\<lambda>c. c \<noteq> CHR ''/'') (x @ CHR ''/'' # r) = x" by (subst takeWhile_append2) auto
  then show ?thesis by (simp add: elem_len_def)
qed

lemma elem_len_end: "CHR ''/'' \<notin> set x \<Longrightarrow> elem_len x = length x"
proof -
  assume "CHR ''/'' \<notin> set x"
  then have "takeWhile (\<lambda>c. c \<noteq> CHR ''/'') x = x" by (auto simp: takeWhile_eq_all_conv)
  then show ?thesis by (simp add: elem_len_def del: takeWhile_eq_all_conv)
qed

lemma split_elem:
  obtains (slash) x r where "p = x @ CHR ''/'' # r" "CHR ''/'' \<notin> set x" "elem_len p = length x + 1"
      "take (elem_len p) p = x @ ''/''" "drop (elem_len p) p = r"
  | (fin) "CHR ''/'' \<notin> set p" "elem_len p = length p" "take (elem_len p) p = p" "drop (elem_len p) p = []"
proof (cases "CHR ''/'' \<in> set p")
  case True
  then obtain x r where "p = x @ CHR ''/'' # r" "CHR ''/'' \<notin> set x" by (metis split_list_first)
  with slash[of x r] elem_len_slash[of x r] show thesis by simp
next
  case False
  with fin elem_len_end[of p] show thesis by simp
qed

lemma first_dot:
  assumes "cstring p" "p \<noteq> []"
  shows "deref p 0 = CHR ''.'' \<and> (deref p 1 = CHR ''/'' \<or> deref p 1 = NUL) \<longleftrightarrow> is_dot (take (elem_len p) p)"
    "is_dot (take (elem_len p) p) \<Longrightarrow> drop 2 p = drop (elem_len p) p"
proof -
  have "(deref p 0 = CHR ''.'' \<and> (deref p 1 = CHR ''/'' \<or> deref p 1 = NUL) \<longleftrightarrow> is_dot (take (elem_len p) p)) \<and>
      (is_dot (take (elem_len p) p) \<longrightarrow> drop 2 p = drop (elem_len p) p)"
  proof (rule split_elem[of p])
    fix x r assume p: "p = x @ CHR ''/'' # r" "CHR ''/'' \<notin> set x" "take (elem_len p) p = x @ ''/''" "drop (elem_len p) p = r"
    show ?thesis unfolding p(3,4) using assms(1) p(1,2)
      by (cases x rule: remdups_adj.cases) (auto simp: is_dot_def deref_def)
  next
    assume p: "CHR ''/'' \<notin> set p" "take (elem_len p) p = p" "drop (elem_len p) p = []"
    show ?thesis unfolding p(2,3) using assms p(1)
      by (cases p rule: remdups_adj.cases) (auto simp: is_dot_def deref_def)
  qed
  then show "deref p 0 = CHR ''.'' \<and> (deref p 1 = CHR ''/'' \<or> deref p 1 = NUL) \<longleftrightarrow> is_dot (take (elem_len p) p)"
    "is_dot (take (elem_len p) p) \<Longrightarrow> drop 2 p = drop (elem_len p) p" by blast+
qed

lemma first_dotdot:
  assumes "cstring p" "p \<noteq> []"
  shows "deref p 0 = CHR ''.'' \<and> deref p 1 = CHR ''.'' \<and> (deref p 2 = CHR ''/'' \<or> deref p 2 = NUL) \<longleftrightarrow> is_dotdot (take (elem_len p) p)"
    "is_dotdot (take (elem_len p) p) \<Longrightarrow> drop 3 p = drop (elem_len p) p"
proof -
  have "(deref p 0 = CHR ''.'' \<and> deref p 1 = CHR ''.'' \<and> (deref p 2 = CHR ''/'' \<or> deref p 2 = NUL) \<longleftrightarrow> is_dotdot (take (elem_len p) p)) \<and>
      (is_dotdot (take (elem_len p) p) \<longrightarrow> drop 3 p = drop (elem_len p) p)"
  proof (rule split_elem[of p])
    fix x r assume p: "p = x @ CHR ''/'' # r" "CHR ''/'' \<notin> set x" "take (elem_len p) p = x @ ''/''" "drop (elem_len p) p = r"
    consider "x = []" | a where "x = [a]" | a b where "x = [a, b]" | a b c y where "x = a # b # c # y" by (metis list.exhaust)
    then show ?thesis unfolding p(3,4) using assms(1) p(1,2)
      by cases (auto simp: is_dotdot_def deref_def numeral_2_eq_2 numeral_3_eq_3)
  next
    assume p: "CHR ''/'' \<notin> set p" "take (elem_len p) p = p" "drop (elem_len p) p = []"
    consider a where "p = [a]" | a b where "p = [a, b]" | a b c y where "p = a # b # c # y" using assms(2) by (metis list.exhaust)
    then show ?thesis unfolding p(2,3) using assms p(1)
      by cases (auto simp: is_dotdot_def deref_def numeral_2_eq_2 numeral_3_eq_3)
  qed
  then show "deref p 0 = CHR ''.'' \<and> deref p 1 = CHR ''.'' \<and> (deref p 2 = CHR ''/'' \<or> deref p 2 = NUL) \<longleftrightarrow> is_dotdot (take (elem_len p) p)"
    "is_dotdot (take (elem_len p) p) \<Longrightarrow> drop 3 p = drop (elem_len p) p" by blast+
qed

subsection \<open>Retreating by one element\<close>

lemma retreat_stop:
  assumes "\<forall>i. n \<le> i \<and> i < n + k \<longrightarrow> path ! i \<noteq> CHR ''/''" "beg \<le> n" "n = beg \<or> n \<noteq> 0 \<and> path ! (n - 1) = CHR ''/''"
  shows "retreat beg (n + k) path = n"
  using assms
proof (induction k)
  case 0
  then show ?case by (cases n) auto
next
  case (Suc k)
  then show ?case by auto
qed

lemma concat_last_slash: "\<forall>e\<in>set es. slash_elem e \<Longrightarrow> es \<noteq> [] \<Longrightarrow> concat es \<noteq> [] \<and> last (concat es) = CHR ''/''"
proof (induction es rule: rev_induct)
  case (snoc e es)
  then show ?case by (auto simp: slash_elem_def)
qed simp

lemma retreat_elem:
  assumes "\<forall>e\<in>set (l @ q). slash_elem e" "q \<noteq> []"
  defines "out \<equiv> concat (l @ q)"
  shows "take (retreat (length (concat l)) (length out - 1) out) out = concat (l @ butlast q)"
proof -
  let ?A = "concat (l @ butlast q)"
  have q: "q = butlast q @ [last q]" using assms(2) by simp
  obtain x where x: "last q = x @ ''/''" "CHR ''/'' \<notin> set x" using assms(1,2) last_in_set[of q] unfolding slash_elem_def by (metis UnCI set_append)
  have out: "out = ?A @ x @ ''/''" unfolding out_def by (subst q) (simp add: x(1))
  have A: "length ?A = length (concat l) \<or> length ?A \<noteq> 0 \<and> out ! (length ?A - 1) = CHR ''/''"
  proof (cases "butlast q = []")
    case False
    have "?A \<noteq> [] \<and> last ?A = CHR ''/''"
      using concat_last_slash[of "l @ butlast q"] assms(1) False by (auto dest: in_set_butlastD)
    then show ?thesis by (metis One_nat_def last_conv_nth length_greater_0_conv nat_less_le nth_append out diff_Suc_less)
  qed simp
  have "\<forall>i. length ?A \<le> i \<and> i < length ?A + length x \<longrightarrow> out ! i \<noteq> CHR ''/''"
    using x(2) by (auto simp: out nth_append dest: nth_mem)
  then have "retreat (length (concat l)) (length ?A + length x) out = length ?A"
    by (rule retreat_stop) (use A in auto)
  moreover have "length out - 1 = length ?A + length x" by (simp only: out length_append) simp
  moreover have "take (length ?A) out = ?A" by (simp only: out take_append) simp
  ultimately show ?thesis by simp
qed

subsection \<open>The loop computes the reference\<close>

lemma elem_nonempty: "slash_elem e \<Longrightarrow> e \<noteq> []"
  by (auto simp: slash_elem_def)

lemma simplify_loop_Nil: "simplify_loop s [] h out beg = (out, h)"
  by (simp add: simplify_loop.simps[of s "[]"])

lemma simplify_loop_dot:
  assumes "cstring p" "p \<noteq> []" "is_dot (take (elem_len p) p)"
  shows "simplify_loop s p h out beg = simplify_loop s (drop (elem_len p) p) (h + 2) out beg"
proof -
  have "deref p 0 = CHR ''.'' \<and> (deref p 1 = CHR ''/'' \<or> deref p 1 = NUL)" using first_dot(1)[OF assms(1,2)] assms(3) by blast
  then show ?thesis
    unfolding simplify_loop.simps[of s p] first_dot(2)[OF assms(1,2,3)] using assms(2) by simp
qed

lemma simplify_loop_dotdot:
  assumes "cstring p" "p \<noteq> []" "\<not> is_dot (take (elem_len p) p)" "is_dotdot (take (elem_len p) p)" "length out > beg \<or> \<not> is_ftp s"
  shows "simplify_loop s p h out beg = simplify_loop s (drop (elem_len p) p) (h + 3)
    (if length out > beg then take (retreat beg (length out - 1) out) out else out) beg"
proof -
  have "\<not> (deref p 0 = CHR ''.'' \<and> (deref p 1 = CHR ''/'' \<or> deref p 1 = NUL))" using first_dot(1)[OF assms(1,2)] assms(3) by blast
  moreover have "deref p 0 = CHR ''.'' \<and> deref p 1 = CHR ''.'' \<and> (deref p 2 = CHR ''/'' \<or> deref p 2 = NUL)"
    using first_dotdot(1)[OF assms(1,2)] assms(4) by blast
  ultimately show ?thesis
    unfolding simplify_loop.simps[of s p] first_dotdot(2)[OF assms(1,2,4)] using assms(2,5) by (simp add: is_ftp_def)
qed

lemma simplify_loop_plain:
  assumes "cstring p" "p \<noteq> []" "\<not> is_dot (take (elem_len p) p)" "\<not> (is_dotdot (take (elem_len p) p) \<and> (length out > beg \<or> \<not> is_ftp s))"
  shows "simplify_loop s p h out beg = simplify_loop s (drop (elem_len p) p) (h + elem_len p) (out @ take (elem_len p) p)
    (if is_dotdot (take (elem_len p) p) then length out + 3 else beg)"
proof -
  have "\<not> (deref p 0 = CHR ''.'' \<and> (deref p 1 = CHR ''/'' \<or> deref p 1 = NUL))" using first_dot(1)[OF assms(1,2)] assms(3) by blast
  moreover have "\<not> (deref p 0 = CHR ''.'' \<and> deref p 1 = CHR ''.'' \<and> (deref p 2 = CHR ''/'' \<or> deref p 2 = NUL)
      \<and> (length out > beg \<or> \<not> (s = SCHEME_FTP \<or> s = SCHEME_FTPS)))"
    using first_dotdot(1)[OF assms(1,2)] assms(4) unfolding is_ftp_def by blast
  moreover have "(if deref p 0 = CHR ''.'' \<and> deref p 1 = CHR ''.'' \<and> (deref p 2 = CHR ''/'' \<or> deref p 2 = NUL)
      then length out + 3 else beg) = (if is_dotdot (take (elem_len p) p) then length out + 3 else beg)"
    using first_dotdot(1)[OF assms(1,2)] by simp
  ultimately show ?thesis
    using assms(2) unfolding simplify_loop.simps[of s p h out beg] Let_def elem_len_def[unfolded Let_def, symmetric]
    by (simp only: if_False if_True)
qed

lemma simplify_loop_resolve:
  assumes "cstring rest" "out = concat (l @ q)" "rest \<noteq> [] \<longrightarrow> (\<forall>e\<in>set (l @ q). slash_elem e) \<and> beg = length (concat l)"
  shows "fst (simplify_loop s rest h out beg) = concat (resolve (is_ftp s) l q (elements rest))"
  using assms
proof (induction rest arbitrary: h out beg l q rule: length_induct)
  case (1 rest)
  show ?case
  proof (cases "rest = []")
    case True
    then show ?thesis using 1(3) by (simp add: simplify_loop_Nil)
  next
    case False
    let ?e = "take (elem_len rest) rest" and ?r = "drop (elem_len rest) rest"
    have els: "elements rest = ?e # elements ?r" by (rule elements_Cons[OF False])
    have wf: "\<forall>e\<in>set (l @ q). slash_elem e" and beg: "beg = length (concat l)" using 1(4) False by blast+
    have cs: "cstring ?r" using 1(2) by (rule cstring_drop)
    have len: "length ?r < length rest" using elem_len_bounds(1)[OF False] False by simp
    have q: "length out > beg \<longleftrightarrow> q \<noteq> []"
      using 1(3) beg wf elem_nonempty by (cases q) auto
    have e: "?r \<noteq> [] \<Longrightarrow> slash_elem ?e" by (rule split_elem[of rest]) (auto simp: slash_elem_def)
    note IH = 1(1)[rule_format, OF len cs]
    consider (dot) "is_dot ?e" | (pop) "\<not> is_dot ?e" "is_dotdot ?e" "q \<noteq> []"
      | (top) "\<not> is_dot ?e" "is_dotdot ?e" "q = []" "\<not> is_ftp s"
      | (lock) "\<not> is_dot ?e" "is_dotdot ?e" "q = []" "is_ftp s"
      | (plain) "\<not> is_dot ?e" "\<not> is_dotdot ?e" by blast
    then show ?thesis
    proof cases
      case dot
      with IH[of out l q beg "h + 2"] 1(3) wf beg show ?thesis
        by (simp add: els simplify_loop_dot[OF 1(2) False])
    next
      case pop
      have "take (retreat beg (length out - 1) out) out = concat (l @ butlast q)"
        unfolding beg 1(3) by (rule retreat_elem[OF wf pop(3)])
      moreover have "\<forall>e\<in>set (l @ butlast q). slash_elem e" using wf by (auto dest: in_set_butlastD)
      ultimately show ?thesis
        using IH[of "concat (l @ butlast q)" l "butlast q" beg "h + 3"] beg pop q
        by (simp add: els simplify_loop_dotdot[OF 1(2) False])
    next
      case top
      with IH[of out l q beg "h + 3"] 1(3) wf beg q show ?thesis
        by (simp add: els simplify_loop_dotdot[OF 1(2) False])
    next
      case lock
      have three: "?r \<noteq> [] \<Longrightarrow> ?e = ''../''" using e lock(2) by (auto simp: is_dotdot_def slash_elem_def)
      have "?r \<noteq> [] \<longrightarrow> (\<forall>e\<in>set ((l @ [?e]) @ []). slash_elem e) \<and> length out + 3 = length (concat (l @ [?e]))"
        using wf e three 1(3) lock(3) by auto
      with IH[of "out @ ?e" "l @ [?e]" "[]" "length out + 3" "h + elem_len rest"] lock 1(3) q show ?thesis
        by (simp add: els simplify_loop_plain[OF 1(2) False])
    next
      case plain
      have "?r \<noteq> [] \<longrightarrow> (\<forall>e\<in>set (l @ q @ [?e]). slash_elem e) \<and> beg = length (concat l)" using wf e beg by auto
      with IH[of "out @ ?e" l "q @ [?e]" beg "h + elem_len rest"] plain 1(3) show ?thesis
        by (simp add: els simplify_loop_plain[OF 1(2) False])
    qed
  qed
qed

lemma dots_length: "is_dot e \<Longrightarrow> length e \<le> 2" "is_dotdot e \<Longrightarrow> length e \<le> 3"
  by (auto simp: is_dot_def is_dotdot_def)

lemma length_elem: "length (take (elem_len p) p) = elem_len p"
  using elem_len_bounds(2)[of p] by simp

lemma simplify_loop_gap:
  assumes "cstring rest" "simplify_loop s rest h out beg = (out', h')"
  shows "out' = out @ rest \<and> h' = h + length rest \<or>
    length out' < length out + length rest \<and> int h' - int (length out') > int h - int (length out)"
  using assms
proof (induction rest arbitrary: h out beg rule: length_induct)
  case (1 rest)
  show ?case
  proof (cases "rest = []")
    case True
    then show ?thesis using 1(3) by (simp add: simplify_loop_Nil)
  next
    case False
    let ?e = "take (elem_len rest) rest" and ?r = "drop (elem_len rest) rest"
    have cs: "cstring ?r" using 1(2) by (rule cstring_drop)
    have n: "0 < elem_len rest" "elem_len rest \<le> length rest" using elem_len_bounds(1)[OF False] elem_len_bounds(2) by auto
    have len: "length ?r < length rest" using n(1) False by simp
    note IH = 1(1)[rule_format, OF len cs]
    consider (dot) "is_dot ?e" | (dd) "\<not> is_dot ?e" "is_dotdot ?e" "length out > beg \<or> \<not> is_ftp s"
      | (plain) "\<not> is_dot ?e" "\<not> (is_dotdot ?e \<and> (length out > beg \<or> \<not> is_ftp s))" by blast
    then show ?thesis
    proof cases
      case dot
      then have "simplify_loop s ?r (h + 2) out beg = (out', h')" using 1(3) simplify_loop_dot[OF 1(2) False] by simp
      from IH[OF this] n dots_length(1)[OF dot, unfolded length_elem] show ?thesis by auto
    next
      case dd
      let ?o = "if length out > beg then take (retreat beg (length out - 1) out) out else out"
      have "simplify_loop s ?r (h + 3) ?o beg = (out', h')" using 1(3) simplify_loop_dotdot[OF 1(2) False dd] by simp
      moreover have "length ?o \<le> length out" by simp
      ultimately show ?thesis using IH[of "h + 3" ?o beg] n dots_length(2)[OF dd(2), unfolded length_elem] by auto
    next
      case plain
      have "simplify_loop s ?r (h + elem_len rest) (out @ ?e) (if is_dotdot ?e then length out + 3 else beg) = (out', h')"
        using 1(3) simplify_loop_plain[OF 1(2) False plain] by simp
      from IH[OF this] n show ?thesis by auto
    qed
  qed
qed

lemma path_simplify_eq:
  assumes "cstring path"
  shows "path_simplify s path = (simplified s path, simplified s path \<noteq> path)"
proof -
  obtain out h where l: "simplify_loop s path 0 [] 0 = (out, h)" by fastforce
  have "out = simplified s path"
    using simplify_loop_resolve[OF assms, of "[]" "[]" "[]" 0 s 0] l by (simp add: simplified_def)
  moreover have "(length out \<noteq> h) = (out \<noteq> path)" using simplify_loop_gap[OF assms l] by auto
  ultimately show ?thesis using l by (simp add: path_simplify_def)
qed

subsection \<open>What is left\<close>

definition wf_elems :: "string list \<Rightarrow> bool" where
  "wf_elems es \<longleftrightarrow> (\<forall>e\<in>set (butlast es). slash_elem e) \<and> (\<forall>e\<in>set es. e \<noteq> [] \<and> CHR ''/'' \<notin> set (butlast e))"

lemma wf_elems_Cons: "wf_elems (e # es) \<longleftrightarrow> wf_elems es \<and> e \<noteq> [] \<and> CHR ''/'' \<notin> set (butlast e) \<and> (es = [] \<or> slash_elem e)"
  by (auto simp: wf_elems_def)

lemma wf_elements: "wf_elems (elements p)"
proof (induction p rule: elements.induct)
  case (1 p)
  show ?case
  proof (cases "p = []")
    case False
    have "elements (drop (elem_len p) p) = [] \<or> slash_elem (take (elem_len p) p)"
      by (rule split_elem[of p]) (auto simp: slash_elem_def)
    moreover have "take (elem_len p) p \<noteq> [] \<and> CHR ''/'' \<notin> set (butlast (take (elem_len p) p))"
      by (rule split_elem[of p]) (use False in \<open>auto simp: butlast_append dest: in_set_butlastD\<close>)
    ultimately show ?thesis using 1[OF False] by (simp add: elements_Cons[OF False] wf_elems_Cons)
  qed (simp add: wf_elems_def)
qed

lemma elements_concat: "wf_elems es \<Longrightarrow> elements (concat es) = es"
proof (induction es)
  case (Cons e es)
  then have w: "wf_elems es" "e \<noteq> []" "CHR ''/'' \<notin> set (butlast e)" "es = [] \<or> slash_elem e" by (auto simp: wf_elems_Cons)
  show ?case
  proof (cases "slash_elem e")
    case True
    then obtain x where x: "e = x @ ''/''" "CHR ''/'' \<notin> set x" by (auto simp: slash_elem_def)
    then have "elem_len (concat (e # es)) = length e" using elem_len_slash[of x "concat es"] by simp
    then show ?thesis using Cons.IH[OF w(1)] w(2) by (simp add: elements_Cons[of "e @ concat es"])
  next
    case False
    then have e: "es = []" "last e \<noteq> CHR ''/''" using w by (auto simp: slash_elem_def) (metis append_butlast_last_id)
    then have "CHR ''/'' \<notin> set e" using w(2,3) by (metis append_butlast_last_id in_set_conv_decomp_last last_snoc rotate1.simps(2) set_ConsD set_rotate1 append_self_conv butlast_append butlast_snoc in_set_conv_decomp list.distinct(1))
    then show ?thesis using e(1) w(2) elem_len_end[of e] by (simp add: elements_Cons[of e])
  qed
qed simp

lemma resolve_subseq: "subseq (resolve ftp l q es) (l @ q @ es)"
proof (induction ftp l q es rule: resolve.induct)
  case (2 ftp l q e es)
  have drop: "subseq (l @ q @ es) (l @ q @ e # es)" by (intro list_emb_append_mono subseq_order.refl list_emb_Cons)
  have pop: "subseq (l @ butlast q @ es) (l @ q @ e # es)"
    by (intro list_emb_append_mono subseq_order.refl list_emb_Cons prefix_imp_subseq prefixeq_butlast)
  show ?case
  proof (cases "is_dot e \<or> is_dotdot e \<and> q = [] \<and> \<not> ftp")
    case True
    then have "subseq (resolve ftp l q (e # es)) (l @ q @ es)" using 2 by auto
    then show ?thesis using drop by (rule subseq_order.trans)
  next
    case False
    show ?thesis
    proof (cases "is_dotdot e \<and> q \<noteq> []")
      case True
      then have "subseq (resolve ftp l q (e # es)) (l @ butlast q @ es)" using 2 False by auto
      then show ?thesis using pop by (rule subseq_order.trans)
    qed (use 2 False in auto)
  qed
qed simp

lemma resolve_set: "set (resolve ftp l q es) \<subseteq> set l \<union> set q \<union> set es"
proof (induction es arbitrary: l q)
  case (Cons e es)
  have b: "set (butlast q) \<subseteq> set q" by (auto dest: in_set_butlastD)
  consider "resolve ftp l q (e # es) = resolve ftp l q es" | "resolve ftp l q (e # es) = resolve ftp l (butlast q) es"
    | "resolve ftp l q (e # es) = resolve ftp (l @ [e]) [] es" | "resolve ftp l q (e # es) = resolve ftp l (q @ [e]) es"
    by (metis resolve.simps(2))
  then show ?case
    using Cons[of l q] Cons[of l "butlast q"] Cons[of "l @ [e]" "[]"] Cons[of l "q @ [e]"] b by cases auto
qed simp

lemma wf_subseq: "subseq xs ys \<Longrightarrow> wf_elems ys \<Longrightarrow> wf_elems xs"
proof (induction xs ys rule: list_emb.induct)
  case (list_emb_Nil ys)
  then show ?case by (simp add: wf_elems_def)
next
  case (list_emb_Cons xs ys y)
  then show ?case by (simp add: wf_elems_Cons)
next
  case (list_emb_Cons2 x y xs ys)
  then show ?case by (auto simp: wf_elems_Cons)
qed

lemma wf_resolve: "wf_elems (resolve ftp [] [] (elements p))"
  using wf_subseq[OF resolve_subseq[of ftp "[]" "[]" "elements p"]] wf_elements[of p] by simp

lemma resolve_no_dots:
  assumes "\<forall>e\<in>set q. \<not> is_dot e \<and> \<not> is_dotdot e"
  shows "\<forall>e\<in>set (resolve False [] q es). \<not> is_dot e \<and> \<not> is_dotdot e"
  using assms
proof (induction es arbitrary: q)
  case (Cons e es)
  have b: "\<forall>x\<in>set (butlast q). \<not> is_dot x \<and> \<not> is_dotdot x" using Cons.prems by (auto dest: in_set_butlastD)
  consider "resolve False [] q (e # es) = resolve False [] q es" | "resolve False [] q (e # es) = resolve False [] (butlast q) es"
    | "resolve False [] q (e # es) = resolve False [] (q @ [e]) es" "\<not> is_dot e" "\<not> is_dotdot e"
    by (metis resolve.simps(2))
  then show ?case
  proof cases
    case 1
    then show ?thesis using Cons.IH[OF Cons.prems] by (simp only:)
  next
    case 2
    then show ?thesis using Cons.IH[OF b] by (simp only:)
  next
    case 3
    then have "\<forall>x\<in>set (q @ [e]). \<not> is_dot x \<and> \<not> is_dotdot x" using Cons.prems by simp
    from Cons.IH[OF this] show ?thesis by (simp only: 3(1))
  qed
qed simp

lemma resolve_id: "\<forall>e\<in>set es. \<not> is_dot e \<and> \<not> is_dotdot e \<Longrightarrow> resolve ftp l q es = l @ q @ es"
  by (induction es arbitrary: q) auto

lemma elements_simplified: "elements (simplified s p) = resolve (is_ftp s) [] [] (elements p)"
  unfolding simplified_def by (rule elements_concat[OF wf_resolve])

lemma cstring_simplified: "cstring p \<Longrightarrow> cstring (simplified s p)"
proof -
  have "concat (elements p) = p" for p
    by (induction p rule: elements.induct) (subst elements.simps, auto)
  moreover have "set (concat (resolve (is_ftp s) [] [] (elements p))) \<subseteq> set (concat (elements p))"
    using resolve_set[of "is_ftp s" "[]" "[]" "elements p"] by auto
  ultimately show "cstring p \<Longrightarrow> cstring (simplified s p)"
    by (auto simp: cstring_def simplified_def)
qed

lemma simplified_no_dots:
  assumes "\<not> is_ftp s"
  shows "\<forall>e\<in>set (elements (simplified s p)). \<not> is_dot e \<and> \<not> is_dotdot e" "simplified s (simplified s p) = simplified s p"
proof -
  show nd: "\<forall>e\<in>set (elements (simplified s p)). \<not> is_dot e \<and> \<not> is_dotdot e"
    unfolding elements_simplified using resolve_no_dots[of "[]"] assms by simp
  show "simplified s (simplified s p) = simplified s p"
    using resolve_id[OF nd, of "is_ftp s" "[]" "[]"] elements_simplified[of s p]
    by (simp add: simplified_def[of s "simplified s p"]) (simp add: simplified_def)
qed

subsection \<open>Properties\<close>

text \<open>
  C31. The in-place \<open>path_simplify\<close> gives the path that the reference computes on the elements,
  and returns true exactly when this is a different path.
\<close>

theorem path_simplify_correct:
  assumes "cstring path"
  shows "path_simplify s path = (concat (resolve (is_ftp s) [] [] (elements path)),
    concat (resolve (is_ftp s) [] [] (elements path)) \<noteq> path)"
  using path_simplify_eq[OF assms] by (simp add: simplified_def)

theorem path_simplify_correct_witness:
  "path_simplify SCHEME_FTP ''../a/./b/../c'' = (''../a/c'', True)"
proof -
  have "cstring ''../a/./b/../c''" by code_simp
  moreover have "concat (resolve (is_ftp SCHEME_FTP) [] [] (elements ''../a/./b/../c'')) = ''../a/c''" by code_simp
  ultimately show ?thesis using path_simplify_correct[of "''../a/./b/../c''" SCHEME_FTP] by simp
qed

text \<open>
  A simplified HTTP path has no element \<open>.\<close> or \<open>..\<close> left, with or without a slash after
  it, so it never leads above the root of the server; simplifying it again changes nothing.
\<close>

theorem path_simplify_no_dots:
  assumes "cstring path" and "s \<noteq> SCHEME_FTP" and "s \<noteq> SCHEME_FTPS"
  shows "(\<forall>e\<in>set (elements (fst (path_simplify s path))). e \<notin> {''.'', ''./'', ''..'', ''../''}) \<and>
    path_simplify s (fst (path_simplify s path)) = (fst (path_simplify s path), False)"
proof -
  have "\<not> is_ftp s" using assms(2,3) by (simp add: is_ftp_def)
  note N = simplified_no_dots[OF this]
  show ?thesis
    using N(1)[of path] N(2)[of path]
    by (auto simp: path_simplify_eq[OF assms(1)] path_simplify_eq[OF cstring_simplified[OF assms(1)]] is_dot_def is_dotdot_def)
qed

theorem path_simplify_no_dots_witness:
  "fst (path_simplify SCHEME_HTTP ''../../etc/passwd'') = ''etc/passwd'' \<and>
   path_simplify SCHEME_HTTP ''etc/passwd'' = (''etc/passwd'', False)"
proof -
  have "cstring ''../../etc/passwd''" "fst (path_simplify SCHEME_HTTP ''../../etc/passwd'') = ''etc/passwd''" by code_simp+
  with path_simplify_no_dots[of "''../../etc/passwd''" SCHEME_HTTP] show ?thesis by simp
qed

end
