(* ===== verification/Wget_Url_Props.thy ===== *)
theory Wget_Url_Props
  imports Wget_Url_Path
begin

section \<open>URLs: the parser is total and what it returns is well formed\<close>

text \<open>
  \<open>url_parse\<close> never fails an assertion, and the structure it returns satisfies what the rest of
  the program takes for granted.
\<close>

subsection \<open>Separators\<close>

lemma strpbrk_end: "strpbrk_or_eos s acc = [] \<or> hd (strpbrk_or_eos s acc) \<in> set acc"
  using hd_dropWhile[of "\<lambda>c. \<not> List.member acc c" s] by (auto simp: strpbrk_or_eos_def List.member_iff)

lemma strpbrk_nothing [simp]: "strpbrk_or_eos s [] = []"
  by (simp add: strpbrk_or_eos_def List.member_iff)

lemma strpbrk_stop:
  assumes "set a \<inter> set acc = {}" "r = [] \<or> hd r \<in> set acc"
  shows "strpbrk_or_eos (a @ r) acc = r" "strdupdelim (a @ r) r = a"
proof -
  show "strdupdelim (a @ r) r = a" by simp
  have "dropWhile (\<lambda>c. \<not> List.member acc c) (a @ r) = dropWhile (\<lambda>c. \<not> List.member acc c) r"
    using assms(1) by (intro dropWhile_append2) (auto simp: List.member_iff)
  then show "strpbrk_or_eos (a @ r) acc = r"
    using assms(2) by (cases r) (auto simp: strpbrk_or_eos_def List.member_iff)
qed

lemma set_strpbrk: "set (strpbrk_or_eos s acc) \<subseteq> set s"
  by (auto simp: strpbrk_or_eos_def dest: set_dropWhileD)

lemma set_strdupdelim: "set (strdupdelim a b) \<subseteq> set a"
  by (auto simp: strdupdelim_def dest: in_set_takeD)

lemma get_part_end:
  "snd (GET_URL_PART c p seps) = p \<and> deref p 0 \<noteq> c \<or>
   snd (GET_URL_PART c p seps) = [] \<or> hd (snd (GET_URL_PART c p seps)) \<in> set seps"
  using strpbrk_end[of "tl p" seps] by (auto simp: GET_URL_PART_def)

lemma seps_http: "init_seps s = '':/?#''" if "s = SCHEME_HTTP \<or> s = SCHEME_HTTPS"
  using that by (auto simp: init_seps_def)

lemma seps_ftp: "init_seps s = '':/;#''" if "s = SCHEME_FTP \<or> s = SCHEME_FTPS"
  using that by (auto simp: init_seps_def)

lemma get_parts_end:
  assumes "s \<noteq> SCHEME_INVALID" "p = [] \<or> hd p \<in> set (tl (init_seps s))"
  shows "snd (get_parts s p (tl (tl (init_seps s)))) = []"
proof -
  obtain x where x: "init_seps s = [CHR '':'', CHR ''/'', x, CHR ''#'']" "x = CHR ''?'' \<and> scm_has_query s \<and> \<not> scm_has_params s
      \<or> x = CHR '';'' \<and> scm_has_params s \<and> \<not> scm_has_query s"
    using assms(1) by (cases s) (auto simp: init_seps_def)
  let ?p1 = "snd (GET_URL_PART (CHR ''/'') p [x, CHR ''#''])" and ?p2 = "\<lambda>q. snd (GET_URL_PART x q [CHR ''#''])"
    and ?p3 = "\<lambda>q. snd (GET_URL_PART (CHR ''#'') q [])"
  have "snd (get_parts s p (tl (tl (init_seps s)))) = ?p3 (?p2 ?p1)"
    using x assms(1) by (auto simp: get_parts_def Let_def split: prod.splits)
  moreover have "?p1 = [] \<or> hd ?p1 \<in> {x, CHR ''#''}"
    using get_part_end[of "CHR ''/''" p "[x, CHR ''#'']"] assms(2) x(1) by (cases p) auto
  moreover have "q = [] \<or> hd q \<in> {x, CHR ''#''} \<Longrightarrow> ?p2 q = [] \<or> hd (?p2 q) = CHR ''#''" for q
    using get_part_end[of x q "[CHR ''#'']"] by (cases q) auto
  moreover have "q = [] \<or> hd q = CHR ''#'' \<Longrightarrow> ?p3 q = []" for q
    by (cases q) (auto simp: GET_URL_PART_def)
  ultimately show ?thesis by metis
qed

lemma parse_host_end:
  assumes "parse_host p seps = Inr (host, r)"
  shows "r = [] \<or> hd r \<in> set seps" "set host \<subseteq> set p"
proof -
  show "r = [] \<or> hd r \<in> set seps"
    using assms strpbrk_end[of p seps]
    by (auto simp: parse_host_def List.member_iff split: if_splits option.splits)
  have "set (tl p) \<subseteq> set p" by (cases p) auto
  then show "set host \<subseteq> set p"
    using assms set_strdupdelim by (fastforce simp: parse_host_def split: if_splits option.splits)
qed

lemma parse_port_range:
  "parse_port ds port = Inr n \<Longrightarrow> 0 \<le> port \<Longrightarrow> port \<le> 65535 \<Longrightarrow> 0 \<le> n \<and> n \<le> 65535"
  by (induction ds port rule: parse_port.induct) (auto simp: Let_def c_isdigit_def split: if_splits)

lemma default_port_range: "s \<noteq> SCHEME_INVALID \<Longrightarrow> 0 \<le> scheme_default_port s \<and> scheme_default_port s \<le> 65535"
  by (cases s) (auto simp: DEFAULT_HTTP_PORT_def DEFAULT_HTTPS_PORT_def DEFAULT_FTP_PORT_def)

lemma parse_authority_ok:
  assumes "s \<noteq> SCHEME_INVALID" "parse_authority s p = Inr (host, port, parts, rest)"
  shows "rest = []" "host \<noteq> []" "0 \<le> port \<and> port \<le> 65535" "set host \<subseteq> set p"
    "\<exists>q. parts = fst (get_parts s q (tl (tl (init_seps s)))) \<and> set q \<subseteq> set p"
proof -
  obtain r where r: "parse_host p (init_seps s) = Inr (host, r)" "host \<noteq> []"
    using assms(2) by (auto simp: parse_authority_def Let_def split: sum.splits if_splits)
  let ?seps = "tl (init_seps s)"
  let ?q = "if deref r 0 = CHR '':'' then strpbrk_or_eos (tl r) ?seps else r"
  have g: "get_parts s ?q (tl ?seps) = (parts, rest)" and
    port: "port = scheme_default_port s \<or> (\<exists>ds. parse_port ds 0 = Inr port)"
    using assms(2) r by (auto simp: parse_authority_def Let_def split: sum.splits if_splits prod.splits)
  have hd: "init_seps s = CHR '':'' # ?seps" by (simp add: init_seps_def)
  have "?q = [] \<or> hd ?q \<in> set ?seps"
  proof (cases "deref r 0 = CHR '':''")
    case True
    then show ?thesis using strpbrk_end[of "tl r" ?seps] by simp
  next
    case False
    then show ?thesis using parse_host_end(1)[OF r(1)] hd by (cases r) (auto, metis set_ConsD)
  qed
  from get_parts_end[OF assms(1) this] g show "rest = []" by simp
  show "host \<noteq> []" by (rule r(2))
  show "0 \<le> port \<and> port \<le> 65535" using port parse_port_range[of _ 0 port] default_port_range[OF assms(1)] by auto
  show "set host \<subseteq> set p" by (rule parse_host_end(2)[OF r(1)])
  have "set r \<subseteq> set p"
  proof -
    have "set (tl p) \<subseteq> set p" "set (tl x) \<subseteq> set x" for x :: string by (cases p; auto) (cases x; auto)
    moreover have "strchr x c = Some y \<Longrightarrow> set y \<subseteq> set x" for x c y by (induction x) (auto split: if_splits)
    ultimately show ?thesis
      using r(1) set_strpbrk by (fastforce simp: parse_host_def split: if_splits option.splits)
  qed
  moreover have "set ?q \<subseteq> set r" using set_strpbrk[of "tl r" ?seps] by (cases r) auto
  ultimately show "\<exists>q. parts = fst (get_parts s q (tl (tl (init_seps s)))) \<and> set q \<subseteq> set p"
    using g by (intro exI[of _ ?q]) auto
qed

subsection \<open>The parser returns\<close>

lemma quote_host_ok: "\<exists>q. quote_host h = Some q"
  by (simp add: quote_host_def url_escape_allow_passthrough_def)

lemma quote_auth_ok: "\<exists>a b. quote_auth u m = Some (a, b)"
  by (auto simp: quote_auth_def url_escape_allow_passthrough_def split: option.splits)

lemma full_path_length_eq: "length (full_path_write u) = full_path_length u"
  by (simp add: full_path_write_def full_path_length_def split: option.splits)

lemma url_string_ok:
  assumes "scheme_leading_string (u_scheme u) = Some lead" "in_int64 (u_port u)"
    "quote_auth u m = Some (qu, qp)" "quote_host (u_host u) = Some qh"
  shows "url_string u m = Some (lead
         @ (case qu of None \<Rightarrow> [] | Some user \<Rightarrow> user @ (case qp of None \<Rightarrow> [] | Some passwd \<Rightarrow> CHR '':'' # passwd) @ ''@'')
         @ (if List.member qh (CHR '':'') then ''['' else []) @ qh @ (if List.member qh (CHR '':'') then '']'' else [])
         @ (if u_port u \<noteq> scheme_default_port (u_scheme u) then CHR '':'' # print_int (u_port u) else [])
         @ full_path_write u)"
  using assms(1,3,4) number_to_string_eq[OF assms(2)] numdigit_eq[of "u_port u"]
  by (auto simp: url_string_def Let_def full_path_length_eq split: option.splits)

lemma url_string_total:
  assumes "u_scheme u \<noteq> SCHEME_INVALID" "in_int64 (u_port u)"
  shows "\<exists>t. url_string u m = Some t"
proof -
  obtain lead where "scheme_leading_string (u_scheme u) = Some lead" using assms(1) by (cases "u_scheme u") auto
  then show ?thesis using url_string_ok[OF _ assms(2)] quote_auth_ok quote_host_ok by blast
qed

lemma port_in_int64: "0 \<le> port \<Longrightarrow> port \<le> 65535 \<Longrightarrow> in_int64 port"
  by (simp add: in_int64_def)

lemma lowercase_str_eq: "lowercase_str s = (lower s, list_ex c_isupper s)"
  by (auto simp: lowercase_str_def lower_def c_tolower_def)

lemma finish_url_cases:
  fixes parts :: url_parts and host :: string
  assumes "s \<noteq> SCHEME_INVALID" "0 \<le> port \<and> port \<le> 65535"
  defines "path0 \<equiv> (case part_path parts of None \<Rightarrow> [] | Some x \<Rightarrow> x)"
  defines "h \<equiv> (if CHR ''%'' \<in> set (lower host) then url_unescape (lower host) else lower host)"
  obtains (bad) "finish_url s enc user passwd host port parts = Some (Inl PE_INVALID_HOST_NAME)" "list_ex c_iscntrl h"
  | (ok) tx where "finish_url s enc user passwd host port parts = Some (Inr \<lparr>u_url = tx, u_scheme = s, u_host = h, u_port = port,
        u_path = fst (path_simplify s path0), u_params = part_params parts, u_query = part_query parts, u_fragment = part_fragment parts,
        u_dir = fst (split_path (fst (path_simplify s path0))), u_file = snd (split_path (fst (path_simplify s path0))),
        u_user = user, u_passwd = passwd\<rparr>)" "CHR ''%'' \<in> set (lower host) \<Longrightarrow> \<not> list_ex c_iscntrl h"
proof -
  let ?u = "\<lparr>u_url = [], u_scheme = s, u_host = h, u_port = port, u_path = fst (path_simplify s path0),
    u_params = part_params parts, u_query = part_query parts, u_fragment = part_fragment parts,
    u_dir = fst (split_path (fst (path_simplify s path0))), u_file = snd (split_path (fst (path_simplify s path0))),
    u_user = user, u_passwd = passwd\<rparr>"
  obtain t where t: "url_string ?u URL_AUTH_SHOW = Some t"
    using url_string_total[of ?u] assms(1,2) port_in_int64 by auto
  obtain pm where pm: "path_simplify s path0 = (fst (path_simplify s path0), pm)" by (metis surj_pair fst_conv)
  obtain d f where df: "split_path (fst (path_simplify s path0)) = (d, f)" by fastforce
  show thesis
  proof (cases "CHR ''%'' \<in> set (lower host) \<and> list_ex c_iscntrl h")
    case True
    then show thesis
      by (intro bad) (auto simp: finish_url_def Let_def lowercase_str_eq List.member_iff h_def split: prod.splits)
  next
    case False
    have "finish_url s enc user passwd host port parts =
      (if pm \<or> part_fragment parts \<noteq> None \<or> list_ex c_isupper host \<or> CHR ''%'' \<in> set (lower host) \<or> path0 = []
       then Some (Inr (?u\<lparr>u_url := t\<rparr>)) else Some (Inr (?u\<lparr>u_url := enc\<rparr>)))"
      using False t df pm
      by (auto simp: finish_url_def Let_def lowercase_str_eq List.member_iff h_def path0_def split: prod.splits option.splits)
    then show thesis
      using ok[of t] ok[of enc] False by (auto split: if_splits)
  qed
qed

lemma scheme_search_valid:
  "scheme_search dis url ss = s \<Longrightarrow> s \<noteq> SCHEME_INVALID \<Longrightarrow> s \<notin> set dis"
  by (induction ss) (auto simp: List.member_iff split: option.splits if_splits)

lemma skip_credentials_set: "skip_credentials_loop p = Some r \<Longrightarrow> set r \<subseteq> set p"
proof (induction p rule: skip_credentials_loop.induct)
  case (2 c p)
  have "set (drop 2 p) \<subseteq> set p" by (rule set_drop_subset)
  then show ?case using 2 by (auto split: if_splits)
qed simp

lemma url_parse_cases:
  obtains (error) e where "url_parse dis url enc = Some (Inl e)"
  | (finish) s t user passwd host port parts where
      "s = url_scheme_of dis url" "s \<noteq> SCHEME_INVALID" "s \<notin> set dis" "t = (if enc then reencode_loop url else url)"
      "host \<noteq> []" "0 \<le> port \<and> port \<le> 65535" "set host \<subseteq> set t"
      "\<exists>q. parts = fst (get_parts s q (tl (tl (init_seps s)))) \<and> set q \<subseteq> set t"
      "url_parse dis url enc = finish_url s t user passwd host port parts"
proof (cases "scheme_leading_string (url_scheme_of dis url)")
  case None
  then show thesis by (intro error) (simp add: url_parse_def)
next
  case (Some lead)
  define s where "s = url_scheme_of dis url"
  have s: "s \<noteq> SCHEME_INVALID" using Some by (auto simp: s_def)
  then have nd: "s \<notin> set dis" using scheme_search_valid[OF refl, of dis url supported_schemes] by (simp add: s_def url_scheme_of_def)
  define t where "t = (if enc then reencode_loop url else url)"
  define b where "b = drop (length lead) t"
  define p where "p = url_skip_credentials b"
  have "set p \<subseteq> set b" using skip_credentials_set[of b] by (auto simp: p_def url_skip_credentials_def split: option.splits)
  moreover have "set b \<subseteq> set t" unfolding b_def by (rule set_drop_subset)
  ultimately have pt: "set p \<subseteq> set t" by blast
  have eq: "url_parse dis url enc =
      (case parse_authority s p of
         Inl e \<Rightarrow> Some (Inl e)
       | Inr (host, port, parts, rest) \<Rightarrow>
           if rest \<noteq> [] then None
           else if p \<noteq> b then
             case parse_credentials (butlast (strdupdelim b p)) of
               None \<Rightarrow> Some (Inl PE_INVALID_USER_NAME)
             | Some (user, passwd) \<Rightarrow> finish_url s t (Some user) passwd host port parts
           else finish_url s t None None host port parts)"
    using Some unfolding url_parse_def Let_def p_def b_def t_def s_def[symmetric] by (cases enc) (simp_all add: s_def)
  show thesis
  proof (cases "parse_authority s p")
    case (Inl e)
    then show thesis using eq by (intro error) simp
  next
    case (Inr v)
    then obtain host port parts rest where v: "parse_authority s p = Inr (host, port, parts, rest)" by (cases v) auto
    note A = parse_authority_ok[OF s v]
    have parts: "\<exists>q. parts = fst (get_parts s q (tl (tl (init_seps s)))) \<and> set q \<subseteq> set t" using A(5) pt by blast
    have fin: thesis if "url_parse dis url enc = finish_url s t user passwd host port parts" for user passwd
      by (rule finish[OF s_def s nd t_def A(2,3) _ parts that]) (use A(4) pt in blast)
    show thesis
      using eq v A(1) fin error by (cases "p = b"; cases "parse_credentials (butlast (strdupdelim b p))") auto
  qed
qed

lemma unescape_not_Nil: "s \<noteq> [] \<Longrightarrow> url_unescape_1 s m \<noteq> []"
  by (cases s) (auto simp: url_unescape_1.simps(2) Let_def)

lemma cntrl_escaped: "c_iscntrl c \<Longrightarrow> URL_UNSAFE_CHAR c \<and> \<not> URL_RESERVED_CHAR c \<and> c \<noteq> CHR ''%''"
  by (auto simp: c_iscntrl_def URL_UNSAFE_CHAR_iff URL_RESERVED_CHAR_iff)

lemma hex_not_cntrl: "x < 16 \<Longrightarrow> \<not> c_iscntrl (XNUM_TO_DIGIT x)"
  using hex_digit[of x] by (auto simp: c_iscntrl_def c_isxdigit_def c_isdigit_def)

lemma reencode_no_cntrl: "c \<in> set (reencode_loop s) \<Longrightarrow> \<not> c_iscntrl c"
proof (induction s)
  case (Cons x s)
  have "\<not> c_iscntrl d" if "d \<in> set (percent_encode x)" for d
  proof -
    have "byte x < 16 * 16" using byte_less_256[of x] by linarith
    then have "byte x div 16 < 16" by (rule less_mult_imp_div_less)
    then show ?thesis
      using that hex_not_cntrl[of "byte x div 16"] hex_not_cntrl[of "byte x mod 16"]
      by (auto simp: percent_encode_def c_iscntrl_def)
  qed
  moreover have "\<not> c_iscntrl x" if "\<not> char_needs_escaping (x # s)"
    using that cntrl_escaped[of x] by (auto simp: char_needs_escaping_def)
  ultimately show ?case using Cons by (auto split: if_splits)
qed simp

lemma cstring_reencode: "cstring s \<Longrightarrow> cstring (reencode_loop s)"
  by (induction s) auto

lemma get_parts_fields:
  defines "ps s q \<equiv> fst (get_parts s q (tl (tl (init_seps s))))"
  shows "part_params (ps s q) \<noteq> None \<Longrightarrow> s = SCHEME_FTP \<or> s = SCHEME_FTPS"
    "part_query (ps s q) \<noteq> None \<Longrightarrow> s = SCHEME_HTTP \<or> s = SCHEME_HTTPS"
    "part_path (ps s q) = Some x \<Longrightarrow> set x \<subseteq> set q"
proof -
  show "part_params (ps s q) \<noteq> None \<Longrightarrow> s = SCHEME_FTP \<or> s = SCHEME_FTPS"
    "part_query (ps s q) \<noteq> None \<Longrightarrow> s = SCHEME_HTTP \<or> s = SCHEME_HTTPS"
    by (auto simp: ps_def get_parts_def Let_def split: prod.splits if_splits)
  assume "part_path (ps s q) = Some x"
  then have "x = strdupdelim (tl q) (strpbrk_or_eos (tl q) (tl (tl (init_seps s))))"
    by (auto simp: ps_def get_parts_def Let_def GET_URL_PART_def split: prod.splits if_splits)
  moreover have "set (tl q) \<subseteq> set q" by (cases q) auto
  ultimately show "set x \<subseteq> set q" using set_strdupdelim by fastforce
qed

subsection \<open>Properties of the parser\<close>

lemma url_parse_returns: "\<exists>r. url_parse disabled url encode = Some r"
proof (rule url_parse_cases[of disabled url encode])
  fix s t user passwd host port parts
  assume "s \<noteq> SCHEME_INVALID" "0 \<le> port \<and> port \<le> (65535 :: int)"
    "url_parse disabled url encode = finish_url s t user passwd host port parts"
  then show ?thesis by (metis finish_url_cases)
qed blast

lemma url_parse_printable:
  assumes "url_parse disabled url encode = Some (Inr u)"
  shows "\<exists>t. url_string u m = Some t"
proof (rule url_parse_cases[of disabled url encode])
  fix s t user passwd host port parts
  assume F: "s \<noteq> SCHEME_INVALID" "0 \<le> port \<and> port \<le> (65535 :: int)"
    "url_parse disabled url encode = finish_url s t user passwd host port parts"
  show ?thesis
  proof (rule finish_url_cases[OF F(1,2), of t user passwd host parts])
    fix tx
    assume "finish_url s t user passwd host port parts = Some (Inr \<lparr>u_url = tx, u_scheme = s,
      u_host = (if CHR ''%'' \<in> set (lower host) then url_unescape (lower host) else lower host), u_port = port,
      u_path = fst (path_simplify s (case part_path parts of None \<Rightarrow> [] | Some x \<Rightarrow> x)), u_params = part_params parts,
      u_query = part_query parts, u_fragment = part_fragment parts,
      u_dir = fst (split_path (fst (path_simplify s (case part_path parts of None \<Rightarrow> [] | Some x \<Rightarrow> x)))),
      u_file = snd (split_path (fst (path_simplify s (case part_path parts of None \<Rightarrow> [] | Some x \<Rightarrow> x)))),
      u_user = user, u_passwd = passwd\<rparr>)"
    with assms F have "u_scheme u \<noteq> SCHEME_INVALID" "in_int64 (u_port u)" using port_in_int64 by auto
    then show ?thesis by (rule url_string_total)
  qed (use assms F(3) in simp)
qed (use assms in simp)

text \<open>
  C32. Parsing any text returns: no assertion fails, neither the one that the whole text was
  consumed nor the one on the length of the rebuilt URL.
\<close>

theorem url_parse_total: "\<exists>r. url_parse disabled url encode = Some r"
  by (rule url_parse_returns)

text \<open>
  C30. A URL that is parsed successfully has a supported scheme that is not disabled, a
  host that is not empty, a port of 16 bits, a path that further simplification leaves alone
  (and hence no dot elements, outside FTP) split into directory and file, parameters only for
  FTP and a query only for HTTP; if the text was re-encoded first, no control character is in
  the host.
\<close>

theorem url_parse_sound:
  assumes "cstring url" and "url_parse disabled url encode = Some (Inr u)"
  shows "u_scheme u \<noteq> SCHEME_INVALID \<and> u_scheme u \<notin> set disabled \<and> u_host u \<noteq> [] \<and>
    0 \<le> u_port u \<and> u_port u \<le> 65535 \<and>
    (\<not> is_ftp (u_scheme u) \<longrightarrow> path_simplify (u_scheme u) (u_path u) = (u_path u, False)) \<and>
    (u_dir u, u_file u) = split_path (u_path u) \<and>
    (u_params u \<noteq> None \<longrightarrow> is_ftp (u_scheme u)) \<and> (u_query u \<noteq> None \<longrightarrow> \<not> is_ftp (u_scheme u)) \<and>
    (encode \<longrightarrow> \<not> list_ex c_iscntrl (u_host u))"
proof (rule url_parse_cases[of disabled url encode])
  fix s t user passwd host port parts
  assume F: "s \<noteq> SCHEME_INVALID" "s \<notin> set disabled" "t = (if encode then reencode_loop url else url)"
    "host \<noteq> []" "0 \<le> port \<and> port \<le> 65535" "set host \<subseteq> set t"
    "\<exists>q. parts = fst (get_parts s q (tl (tl (init_seps s)))) \<and> set q \<subseteq> set t"
    "url_parse disabled url encode = finish_url s t user passwd host port parts"
  have t: "cstring t" using F(3) assms(1) cstring_reencode by simp
  obtain q where q: "parts = fst (get_parts s q (tl (tl (init_seps s))))" "set q \<subseteq> set t" using F(7) by blast
  let ?p0 = "case part_path parts of None \<Rightarrow> [] | Some x \<Rightarrow> x"
  let ?h = "if CHR ''%'' \<in> set (lower host) then url_unescape (lower host) else lower host"
  have p0: "cstring ?p0"
  proof (cases "part_path parts")
    case (Some x)
    then have "set x \<subseteq> set t" using get_parts_fields(3)[of s q x] q by auto
    then show ?thesis using Some t by (auto simp: cstring_def)
  qed simp
  have path: "path_simplify s (fst (path_simplify s ?p0)) = (fst (path_simplify s ?p0), False)" if "\<not> is_ftp s"
    using simplified_no_dots(2)[OF that, of ?p0] by (simp add: path_simplify_eq[OF p0] path_simplify_eq[OF cstring_simplified[OF p0]])
  have h: "?h \<noteq> []" using F(4) unescape_not_Nil[of "lower host" 0] by (auto simp: url_unescape_def lower_def)
  have lc: "c_iscntrl (c_tolower c) \<longleftrightarrow> c_iscntrl c" for c
    by (rule tolower_cases[of c]) (auto simp: c_iscntrl_def)
  have nc: "\<not> list_ex c_iscntrl (lower host)" if encode
    using F(3,6) that reencode_no_cntrl[of _ url] lc by (auto simp: list_ex_iff lower_def)
  show ?thesis
    by (rule finish_url_cases[OF F(1,5), of t user passwd host parts])
      (use F(1,2,5,8) assms(2) path h nc get_parts_fields(1,2)[of s q] q(1) in \<open>auto simp: is_ftp_def\<close>)
qed (use assms(2) in auto)

theorem url_parse_sound_witness:
  "\<exists>u. url_parse [] ''http://Host:8080/a/../b?q'' True = Some (Inr u) \<and> u_port u \<le> 65535 \<and>
     path_simplify SCHEME_HTTP (u_path u) = (u_path u, False) \<and> u_scheme u = SCHEME_HTTP"
proof -
  let ?s = "''http://Host:8080/a/../b?q''"
  let ?u = "\<lparr>u_url = ''http://host:8080/b?q'', u_scheme = SCHEME_HTTP, u_host = ''host'', u_port = 8080, u_path = ''b'',
    u_params = None, u_query = Some ''q'', u_fragment = None, u_dir = [], u_file = ''b'', u_user = None, u_passwd = None\<rparr>"
  have p: "url_parse [] ?s True = Some (Inr ?u)" by code_simp
  have "cstring ?s" by code_simp
  from url_parse_sound[OF this p] p show ?thesis by (intro exI[of _ ?u]) (simp add: is_ftp_def)
qed

end
