(* ===== verification/Wget_Url_Roundtrip.thy ===== *)
theory Wget_Url_Roundtrip
  imports Wget_Url_Props
begin

section \<open>URLs: printing and parsing are inverse\<close>

text \<open>
  Printing a canonical URL with \<open>url_string\<close> and parsing the text with \<open>url_parse\<close> gives the
  URL back; a host name decoded from an escaped slash is the exception.
\<close>

subsection \<open>Canonical URLs\<close>

definition host_char :: "char \<Rightarrow> bool" where
  "host_char c \<longleftrightarrow> c_isdigit c \<or> c_islower c \<or> c = CHR ''-'' \<or> c = CHR ''.'' \<or> c = CHR ''_''"

definition canonical_url :: "url_struct \<Rightarrow> bool" where
  "canonical_url u \<longleftrightarrow>
     (u_scheme u = SCHEME_HTTP \<or> u_scheme u = SCHEME_HTTPS) \<and>
     u_host u \<noteq> [] \<and> (\<forall>c\<in>set (u_host u). host_char c) \<and> 0 \<le> u_port u \<and> u_port u \<le> 65535 \<and>
     cstring (u_path u) \<and> encode_count (u_path u) = 0 \<and> set (u_path u) \<inter> {CHR ''?'', CHR ''#''} = {} \<and>
     path_simplify (u_scheme u) (u_path u) = (u_path u, False) \<and>
     u_params u = None \<and> (case u_query u of None \<Rightarrow> True | Some q \<Rightarrow> encode_count q = 0 \<and> CHR ''#'' \<notin> set q) \<and>
     u_fragment u = None \<and> (u_dir u, u_file u) = split_path (u_path u) \<and> u_user u = None \<and> u_passwd u = None"

lemma host_char_safe:
  assumes "host_char c"
  shows "\<not> urlchr_test c urlchr_unsafe" "\<not> URL_UNSAFE_CHAR c" "c \<notin> set '':/?#[@%''" "\<not> c_isupper c"
    "c_isalnum c \<or> List.member ''-_.!~*'();:&=+$,'' c"
proof -
  have "byte c \<in> {48..57} \<or> byte c \<in> {97..122} \<or> c = CHR ''-'' \<or> c = CHR ''.'' \<or> c = CHR ''_''"
    using assms by (auto simp: host_char_def c_isdigit_def c_islower_def)
  then show u: "\<not> URL_UNSAFE_CHAR c" and "c \<notin> set '':/?#[@%''" "\<not> c_isupper c"
    by (auto simp: URL_UNSAFE_CHAR_iff c_isupper_def)
  then show "\<not> urlchr_test c urlchr_unsafe" by (simp add: URL_UNSAFE_CHAR_def)
  show "c_isalnum c \<or> List.member ''-_.!~*'();:&=+$,'' c"
    using assms by (auto simp: host_char_def c_isalnum_def List.member_iff)
qed

lemma encode_count_append: "encode_count a = 0 \<Longrightarrow> encode_count (a @ b) = encode_count b"
proof (induction a)
  case (Cons c a)
  have "char_needs_escaping (c # a @ b) \<longleftrightarrow> char_needs_escaping (c # a)" if "\<not> char_needs_escaping (c # a)"
  proof (cases "c = CHR ''%''")
    case True
    then have "c_isxdigit (deref a 0)" "c_isxdigit (deref a 1)" using that by (auto simp: char_needs_escaping_def numeral_2_eq_2)
    moreover have "\<not> c_isxdigit NUL" by (simp add: c_isxdigit_def c_isdigit_def)
    ultimately have "1 < length a" by (auto simp: deref_def split: if_splits)
    then have "deref (a @ b) 0 = deref a 0" "deref (a @ b) 1 = deref a 1" by (auto simp: deref_def nth_append)
    then show ?thesis by (simp add: char_needs_escaping_def numeral_2_eq_2)
  qed (simp add: char_needs_escaping_def)
  then show ?case using Cons by (auto split: if_splits)
qed simp

lemma encode_count_safe: "\<forall>c\<in>set s. c \<noteq> CHR ''%'' \<and> (URL_UNSAFE_CHAR c \<longrightarrow> URL_RESERVED_CHAR c) \<Longrightarrow> encode_count s = 0"
  by (induction s) (auto simp: char_needs_escaping_def)

lemma skip_none:
  assumes "\<forall>c\<in>set a. c_isalnum c \<or> List.member ''-_.!~*'();:&=+$,'' c"
  shows "skip_credentials_loop (a @ CHR ''/'' # r) = None"
  using assms
proof (induction a)
  case Nil
  show ?case by (simp add: c_isalnum_def c_isdigit_def c_islower_def c_isupper_def List.member_iff)
qed auto

lemma parse_port_snoc:
  "parse_port (ds @ [c]) p = (case parse_port ds p of Inl e \<Rightarrow> Inl e | Inr q \<Rightarrow> parse_port [c] q)"
  by (induction ds p rule: parse_port.induct) (auto simp: Let_def)

lemma parse_port_print: "n \<le> 65535 \<Longrightarrow> parse_port (print_nat n) 0 = Inr (int n)"
proof (induction n rule: print_nat.induct)
  case (1 n)
  show ?case
  proof (cases "n < 10")
    case True
    then show ?thesis by (subst print_nat.simps) (simp add: c_isdigit_def byte_char_of)
  next
    case False
    have "parse_port (print_nat (n div 10)) 0 = Inr (int (n div 10))" using 1 False by simp
    moreover have "10 * int (n div 10) + int (n mod 10) = int n" by (metis of_nat_add of_nat_mult of_nat_numeral mult_div_mod_eq)
    moreover have "n mod 10 < 10" by simp
    ultimately show ?thesis using False 1(2)
      by (subst print_nat.simps) (simp add: parse_port_snoc Let_def c_isdigit_def byte_char_of)
  qed
qed

subsection \<open>The text of a canonical URL\<close>

definition url_port_text :: "url_struct \<Rightarrow> string" where
  "url_port_text u =
     (if u_port u \<noteq> scheme_default_port (u_scheme u) then CHR '':'' # print_nat (nat (u_port u)) else [])"

definition query_text :: "string option \<Rightarrow> string" where
  "query_text q = (case q of None \<Rightarrow> [] | Some q \<Rightarrow> CHR ''?'' # q)"

lemma http_lead:
  assumes "s = SCHEME_HTTP \<or> s = SCHEME_HTTPS"
  obtains lead where "scheme_leading_string s = Some lead" "encode_count lead = 0"
    "\<And>dis r. s \<notin> set dis \<Longrightarrow> url_scheme_of dis (lead @ r) = s"
proof -
  have e: "encode_count ''http://'' = 0" "encode_count ''https://'' = 0" by code_simp+
  have l: "lower ''https:/'' \<noteq> lower ''http://''" by code_simp
  from assms e that show thesis
    by (elim disjE) (auto simp: url_scheme_of_def supported_schemes_def strncaseeq_def l List.member_iff simp del: lower_append)
qed

lemma canonical_string:
  assumes "canonical_url u" "scheme_leading_string (u_scheme u) = Some lead"
  shows "url_string u m = Some (lead @ u_host u @ url_port_text u @ CHR ''/'' # u_path u @ query_text (u_query u))"
proof -
  have h: "\<forall>c\<in>set (u_host u). host_char c" "0 \<le> u_port u" "u_port u \<le> 65535" "u_user u = None" "u_params u = None"
    using assms(1) by (auto simp: canonical_url_def)
  have nil: "filter (\<lambda>c. urlchr_test c urlchr_unsafe) (u_host u) = []"
    using h(1) host_char_safe(1) by (auto simp: filter_empty_conv)
  have "quote_host (u_host u) = Some (u_host u)"
    using nil host_char_safe(1) h(1)
    by (auto simp: quote_host_def url_escape_allow_passthrough_def url_escape_1_def list_ex_iff)
  moreover have "\<not> List.member (u_host u) (CHR '':'')"
    using h(1) host_char_safe(3) by (auto simp: List.member_iff)
  ultimately show ?thesis
    using url_string_ok[OF assms(2) port_in_int64[OF h(2,3)], of m None None "u_host u"] h(2,4,5)
    by (auto simp: quote_auth_def url_port_text_def query_text_def full_path_write_def print_int_def split: option.splits)
qed

lemma port_text_digits: "c \<in> set (url_port_text u) \<Longrightarrow> c = CHR '':'' \<or> c_isdigit c"
  using print_nat_digits by (auto simp: url_port_text_def split: if_splits)

lemma digit_safe:
  assumes "c_isdigit c"
  shows "\<not> URL_UNSAFE_CHAR c" "c \<notin> set '':/?#[@%''" "c_isalnum c"
  using assms by (auto simp: c_isdigit_def URL_UNSAFE_CHAR_iff c_isalnum_def)

lemma canonical_prefix_encoded:
  assumes "canonical_url u" "encode_count lead = 0"
  shows "encode_count (lead @ u_host u @ url_port_text u @ ''/'') = 0"
proof -
  have r: "URL_RESERVED_CHAR (CHR '':'')" by code_simp
  have "encode_count (u_host u) = 0"
    using assms(1) host_char_safe(2,3) by (intro encode_count_safe) (auto simp: canonical_url_def)
  moreover have "encode_count (url_port_text u) = 0"
    using port_text_digits digit_safe r by (intro encode_count_safe) fastforce
  moreover have "encode_count ''/'' = 0" by code_simp
  ultimately show ?thesis using assms(2) encode_count_append by auto
qed

lemma canonical_encoded:
  assumes "canonical_url u" "encode_count lead = 0"
  shows "encode_count (lead @ u_host u @ url_port_text u @ CHR ''/'' # u_path u @ query_text (u_query u)) = 0"
proof -
  have "encode_count ''?'' = 0" by code_simp
  then have "encode_count (query_text (u_query u)) = 0"
    using assms(1) encode_count_append[of "''?''"] by (auto simp: canonical_url_def query_text_def split: option.splits)
  then have "encode_count (u_path u @ query_text (u_query u)) = 0"
    using assms(1) encode_count_append by (simp add: canonical_url_def)
  then show ?thesis
    using encode_count_append[OF canonical_prefix_encoded[OF assms], of "u_path u @ query_text (u_query u)"] by simp
qed

lemma canonical_parts:
  assumes "s = SCHEME_HTTP \<or> s = SCHEME_HTTPS" "set path \<inter> {CHR ''?'', CHR ''#''} = {}"
    "case q of None \<Rightarrow> True | Some q \<Rightarrow> CHR ''#'' \<notin> set q"
  shows "get_parts s (CHR ''/'' # path @ query_text q) ''?#'' =
    (\<lparr>part_path = Some path, part_params = None, part_query = q, part_fragment = None\<rparr>, [])"
proof -
  have "strpbrk_or_eos (path @ query_text q) ''?#'' = query_text q"
    using assms(2) by (intro strpbrk_stop) (auto simp: query_text_def split: option.splits)
  moreover have "strpbrk_or_eos x ''#'' = []" if "q = Some x" for x
    using strpbrk_stop(1)[of x "''#''" "[]"] assms(3) that by auto
  moreover have "strdupdelim x [] = x" for x by (simp add: strdupdelim_def)
  moreover have "\<not> scm_has_params s" "scm_has_query s" "scm_has_fragment s" using assms(1) by auto
  ultimately show ?thesis
    by (cases q) (auto simp: get_parts_def GET_URL_PART_def Let_def query_text_def split: prod.splits)
qed

lemma canonical_skip:
  assumes "canonical_url u"
  shows "url_skip_credentials (u_host u @ url_port_text u @ CHR ''/'' # r) = u_host u @ url_port_text u @ CHR ''/'' # r"
proof -
  have "\<forall>c\<in>set (u_host u @ url_port_text u). c_isalnum c \<or> List.member ''-_.!~*'();:&=+$,'' c"
    using assms host_char_safe(5) port_text_digits digit_safe(3) by (fastforce simp: canonical_url_def List.member_iff)
  then show ?thesis using skip_none[of "u_host u @ url_port_text u" r] by (simp add: url_skip_credentials_def)
qed

lemma canonical_host_port:
  assumes "canonical_url u"
  shows "parse_authority (u_scheme u) (u_host u @ url_port_text u @ CHR ''/'' # r) =
    Inr (u_host u, u_port u, get_parts (u_scheme u) (CHR ''/'' # r) ''?#'')"
proof -
  have C: "u_scheme u = SCHEME_HTTP \<or> u_scheme u = SCHEME_HTTPS" "u_host u \<noteq> []" "\<forall>c\<in>set (u_host u). host_char c"
      "0 \<le> u_port u" "u_port u \<le> 65535"
    using assms by (auto simp: canonical_url_def)
  let ?r = "CHR ''/'' # r"
  have host: "parse_host (u_host u @ url_port_text u @ ?r) '':/?#'' = Inr (u_host u, url_port_text u @ ?r)"
  proof -
    have "strpbrk_or_eos (u_host u @ (url_port_text u @ ?r)) '':/?#'' = url_port_text u @ ?r"
      using C(3) host_char_safe(3) by (intro strpbrk_stop) (fastforce simp: url_port_text_def split: if_splits)+
    moreover have "deref (u_host u @ url_port_text u @ ?r) 0 \<noteq> CHR ''[''"
      using C(2,3) host_char_safe(3) by (cases "u_host u") auto
    ultimately show ?thesis by (simp add: parse_host_def)
  qed
  obtain parts rest where parts: "get_parts (u_scheme u) ?r ''?#'' = (parts, rest)" by fastforce
  show ?thesis
  proof (cases "u_port u = scheme_default_port (u_scheme u)")
    case True
    then have "url_port_text u = []" by (simp add: url_port_text_def)
    then show ?thesis using True host C(2) parts
      by (simp add: parse_authority_def seps_http[OF C(1)] Let_def)
  next
    case False
    let ?d = "print_nat (nat (u_port u))"
    have "strpbrk_or_eos (?d @ ?r) ''/?#'' = ?r"
      using print_nat_digits[of "nat (u_port u)"] digit_safe(2) by (intro strpbrk_stop) fastforce+
    moreover have "parse_port ?d 0 = Inr (u_port u)" using parse_port_print[of "nat (u_port u)"] C(4,5) by simp
    moreover have "url_port_text u = CHR '':'' # ?d" using False by (simp add: url_port_text_def)
    ultimately show ?thesis using host C(2) parts
      by (simp add: parse_authority_def seps_http[OF C(1)] Let_def)
  qed
qed

lemma canonical_authority:
  assumes "canonical_url u"
  shows "parse_authority (u_scheme u) (u_host u @ url_port_text u @ CHR ''/'' # u_path u @ query_text (u_query u)) =
    Inr (u_host u, u_port u,
      \<lparr>part_path = Some (u_path u), part_params = None, part_query = u_query u, part_fragment = None\<rparr>, [])"
proof -
  have "set (u_path u) \<inter> {CHR ''?'', CHR ''#''} = {}" "case u_query u of None \<Rightarrow> True | Some q \<Rightarrow> CHR ''#'' \<notin> set q"
      "u_scheme u = SCHEME_HTTP \<or> u_scheme u = SCHEME_HTTPS"
    using assms by (auto simp: canonical_url_def split: option.splits)
  then show ?thesis by (simp add: canonical_host_port[OF assms] canonical_parts)
qed

lemma canonical_finish:
  assumes "canonical_url u" "url_string u URL_AUTH_SHOW = Some t"
  shows "finish_url (u_scheme u) t None None (u_host u) (u_port u)
      \<lparr>part_path = Some (u_path u), part_params = None, part_query = u_query u, part_fragment = None\<rparr> =
    Some (Inr (u\<lparr>u_url := t\<rparr>))"
proof -
  have C: "\<forall>c\<in>set (u_host u). host_char c" "path_simplify (u_scheme u) (u_path u) = (u_path u, False)"
      "split_path (u_path u) = (u_dir u, u_file u)" "u_params u = None" "u_fragment u = None" "u_user u = None" "u_passwd u = None"
    using assms(1) by (auto simp: canonical_url_def)
  have up: "\<not> list_ex c_isupper (u_host u)" using C(1) host_char_safe(4) by (auto simp: list_ex_iff)
  have low: "lower (u_host u) = u_host u"
    using C(1) host_char_safe(4) by (auto simp: lower_def c_tolower_def intro!: map_idI)
  have pc: "\<not> List.member (u_host u) (CHR ''%'')" using C(1) host_char_safe(3) by (auto simp: List.member_iff)
  have same: "url_string (u\<lparr>u_url := []\<rparr>) URL_AUTH_SHOW = url_string u URL_AUTH_SHOW"
  proof -
    have "canonical_url (u\<lparr>u_url := []\<rparr>)" using assms(1) by (simp add: canonical_url_def)
    moreover obtain lead where "scheme_leading_string (u_scheme u) = Some lead"
      using http_lead[of "u_scheme u"] assms(1) by (auto simp: canonical_url_def)
    ultimately show ?thesis using canonical_string[OF assms(1)] canonical_string[of "u\<lparr>u_url := []\<rparr>"] by (simp add: url_port_text_def)
  qed
  have u: "\<lparr>u_url = [], u_scheme = u_scheme u, u_host = u_host u, u_port = u_port u, u_path = u_path u, u_params = None,
      u_query = u_query u, u_fragment = None, u_dir = u_dir u, u_file = u_file u, u_user = None, u_passwd = None\<rparr> = u\<lparr>u_url := []\<rparr>"
    using C by simp
  show ?thesis
    unfolding finish_url_def Let_def lowercase_str_eq low url_parts.simps option.case C(2,3) prod.case
    using pc up same assms(2) u by (simp only: if_False if_True u) simp
qed

text \<open>
  C33. Printing a canonical HTTP or HTTPS URL and parsing the text gives the URL back, every
  field of it, whether or not the text is re-encoded first: the text is its own normal form.
\<close>

theorem url_parse_string:
  assumes "canonical_url u" "u_scheme u \<notin> set disabled"
  shows "\<exists>t. url_string u URL_AUTH_SHOW = Some t \<and>
    url_parse disabled t encode = Some (Inr (u\<lparr>u_url := t\<rparr>))"
proof -
  have s: "u_scheme u = SCHEME_HTTP \<or> u_scheme u = SCHEME_HTTPS" using assms(1) by (simp add: canonical_url_def)
  obtain lead where L: "scheme_leading_string (u_scheme u) = Some lead" "encode_count lead = 0"
    "\<And>dis r. u_scheme u \<notin> set dis \<Longrightarrow> url_scheme_of dis (lead @ r) = u_scheme u" using http_lead[OF s] by blast
  let ?a = "u_host u @ url_port_text u" and ?p = "u_path u @ query_text (u_query u)"
  let ?t = "lead @ ?a @ CHR ''/'' # ?p"
  have str: "url_string u URL_AUTH_SHOW = Some ?t" using canonical_string[OF assms(1) L(1)] by simp
  have enc: "reencode_loop ?t = ?t" using canonical_encoded[OF assms(1) L(2)] encode_count_0 by simp
  have skip: "url_skip_credentials (?a @ CHR ''/'' # ?p) = ?a @ CHR ''/'' # ?p"
    using canonical_skip[OF assms(1)] by simp
  have "url_parse disabled ?t encode = Some (Inr (u\<lparr>u_url := ?t\<rparr>))"
    using canonical_finish[OF assms(1) str] canonical_authority[OF assms(1)] L(1) L(3)[OF assms(2)] enc skip
    by (simp add: url_parse_def Let_def)
  then show ?thesis using str by blast
qed

theorem url_parse_string_witness:
  "\<exists>t. url_parse [SCHEME_FTP] t True = Some (Inr \<lparr>u_url = t, u_scheme = SCHEME_HTTPS, u_host = ''a.example'', u_port = 8443,
     u_path = ''d/f%2Fg'', u_params = None, u_query = Some ''q=/'', u_fragment = None, u_dir = ''d'', u_file = ''f/g'',
     u_user = None, u_passwd = None\<rparr>)"
proof -
  let ?u = "\<lparr>u_url = [], u_scheme = SCHEME_HTTPS, u_host = ''a.example'', u_port = 8443,
     u_path = ''d/f%2Fg'', u_params = None, u_query = Some ''q=/'', u_fragment = None, u_dir = ''d'', u_file = ''f/g'',
     u_user = None, u_passwd = None\<rparr>"
  have "canonical_url ?u" by code_simp
  from url_parse_string[OF this, of "[SCHEME_FTP]" True] show ?thesis by auto
qed

text \<open>
  An escaped slash in a host name is decoded and stays in the host that is looked up and
  connected to, but is not escaped when the URL is printed: the URL's own text names another
  host and another path.
\<close>

theorem escaped_slash_in_host:
  "case url_parse [] ''http://a%2fb.example/x'' True of
     Some (Inr u) \<Rightarrow> u_host u = ''a/b.example'' \<and> u_path u = ''x'' \<and> u_url u = ''http://a/b.example/x'' \<and>
       (case url_parse [] (u_url u) True of Some (Inr v) \<Rightarrow> u_host v = ''a'' \<and> u_path v = ''b.example/x'' | _ \<Rightarrow> False)
   | _ \<Rightarrow> False"
  by code_simp

end
