(* ===== verification/Wget_Url_Merge.thy ===== *)
theory Wget_Url_Merge
  imports Wget_Url_Roundtrip
begin

section \<open>Resolving links (wget/src/url.c)\<close>

text \<open>
  \<open>uri_merge\<close> combines the URL of a document with a link found in it. Pointers into \<open>base\<close> are
  positions: \<open>end\<close> and \<open>start_insert\<close> of the code are numbers of characters, and copying
  \<open>span\<close> characters is \<^const>\<open>take\<close>. The theorems relate it to the reference resolution: the
  merged text keeps the scheme and the authority of the base for every link without an
  authority of its own.
\<close>

definition path_end :: "url_scheme list \<Rightarrow> string \<Rightarrow> nat" where
  \<comment> \<open>the position where the path of \<open>url\<close> ends\<close>
  "path_end disabled url =
     (let scheme = url_scheme_of disabled url;
          scheme = (if scheme = SCHEME_INVALID then SCHEME_HTTP else scheme);
          seps = drop 2 (init_seps scheme)
      in length (strdupdelim url (strpbrk_or_eos url seps)))"

definition memchr :: "string \<Rightarrow> nat \<Rightarrow> char \<Rightarrow> nat \<Rightarrow> nat option" where
  \<comment> \<open>the first position of \<open>c\<close> in \<open>s\<close> from \<open>pos\<close> on and before \<open>e\<close>\<close>
  "memchr s pos c e =
     (let k = pos + length (takeWhile (\<lambda>x. x \<noteq> c) (drop pos (take e s)))
      in if k < min e (length s) then Some k else None)"

definition find_last_char :: "string \<Rightarrow> nat \<Rightarrow> char \<Rightarrow> nat option" where
  "find_last_char b e c = strrchr_pos (take e b) c"

definition net_path_insert :: "string \<Rightarrow> nat \<Rightarrow> nat" where
  \<comment> \<open>\<open>start_insert\<close> for a link that begins with two slashes\<close>
  "net_path_insert base e =
     (case memchr base 0 (CHR ''/'') e of
        Some slash \<Rightarrow> if deref base (slash + 1) = CHR ''/'' then slash else 0
      | None \<Rightarrow> 0)"

definition abs_path_insert :: "string \<Rightarrow> nat \<Rightarrow> nat" where
  \<comment> \<open>\<open>start_insert\<close> for a link that begins with one slash; the search is run again after the
      first double slash\<close>
  "abs_path_insert base e =
     (let slash = memchr base 0 (CHR ''/'') e;
          (slash, seen_slash_slash) =
            (case slash of
               Some k \<Rightarrow>
                 if deref base (k + 1) = CHR ''/'' then (memchr base (k + 2) (CHR ''/'') e, True) else (slash, False)
             | None \<Rightarrow> (slash, False))
      in case (slash, seen_slash_slash) of
           (None, False) \<Rightarrow> 0
         | (None, True) \<Rightarrow> e
         | (Some k, False) \<Rightarrow> 0
         | (Some k, True) \<Rightarrow> k)"

definition rel_path_insert :: "string \<Rightarrow> nat \<Rightarrow> string" where
  \<comment> \<open>what is kept of \<open>base\<close> for a relative link: \<open>span\<close> characters, the last one replaced by a
      slash when \<open>need_explicit_slash\<close>\<close>
  "rel_path_insert base e =
     (case find_last_char base e (CHR ''/'') of
        None \<Rightarrow> []
      | Some k \<Rightarrow>
          if k \<ge> 2 \<and> base ! (k - 2) = CHR '':'' \<and> base ! (k - 1) = CHR ''/''
          then take e base @ ''/''
          else take (k + 1) base)"

definition uri_merge :: "url_scheme list \<Rightarrow> string \<Rightarrow> string \<Rightarrow> string" where
  "uri_merge disabled base link =
     (if url_has_scheme link then link
      else
        let e = path_end disabled base in
        if link = [] then base
        else if deref link 0 = CHR ''?'' then take e base @ link
        else if deref link 0 = CHR ''#'' then
          (case strchr base (CHR ''#'') of None \<Rightarrow> base | Some end1 \<Rightarrow> strdupdelim base end1) @ link
        else if deref link 0 = CHR ''/'' \<and> deref link 1 = CHR ''/'' then take (net_path_insert base e) base @ link
        else if deref link 0 = CHR ''/'' then take (abs_path_insert base e) base @ link
        else rel_path_insert base e @ link)"

subsection \<open>Reference resolution\<close>

definition dir_of :: "string \<Rightarrow> string" where
  \<comment> \<open>the path up to and including its last slash\<close>
  "dir_of path = (case strrchr_pos path (CHR ''/'') of None \<Rightarrow> [] | Some k \<Rightarrow> take (k + 1) path)"

definition resolve_link :: "string \<Rightarrow> string \<Rightarrow> string \<Rightarrow> string \<Rightarrow> string \<Rightarrow> string" where
  \<comment> \<open>the base is \<open>lead @ auth @ path @ rest\<close>; the link has no scheme\<close>
  "resolve_link lead auth path rest link =
     (if link = [] then lead @ auth @ path @ rest
      else if hd link = CHR ''?'' then lead @ auth @ path @ link
      else if hd link = CHR ''#'' then lead @ auth @ path @ takeWhile (\<lambda>c. c \<noteq> CHR ''#'') rest @ link
      else if prefix ''//'' link then butlast (butlast lead) @ link
      else if hd link = CHR ''/'' then lead @ auth @ link
      else lead @ auth @ (if path = [] then ''/'' else dir_of path) @ link)"

lemma memchr_found:
  assumes "c \<notin> set m" "length a + length m < e"
  shows "memchr (a @ m @ c # r) (length a) c e = Some (length a + length m)"
  using assms by (simp add: memchr_def takeWhile_until take_Cons')

lemma memchr_none:
  assumes "c \<notin> set m"
  shows "memchr (a @ m @ r) (length a) c (length a + length m) = None"
  using assms by (simp add: memchr_def takeWhile_until)

text \<open>A base URL with a supported scheme, cut at its separators.\<close>

definition base_parts :: "url_scheme list \<Rightarrow> string \<Rightarrow> string \<Rightarrow> string \<Rightarrow> string \<Rightarrow> bool" where
  "base_parts disabled lead auth path rest \<longleftrightarrow>
     (\<exists>s. scheme_leading_string s = Some lead \<and> s \<notin> set disabled \<and>
        set (auth @ path) \<inter> set (drop 2 (init_seps s)) = {} \<and>
        (rest = [] \<or> hd rest \<in> set (drop 2 (init_seps s)))) \<and>
     CHR ''/'' \<notin> set auth \<and> (path = [] \<or> hd path = CHR ''/'')"

lemma lead_scheme:
  assumes "scheme_leading_string s = Some lead"
  obtains nm where "lead = nm @ ''://''" "CHR ''/'' \<notin> set nm" "CHR '':'' \<notin> set nm" "set lead \<inter> set (drop 2 (init_seps s)) = {}"
    "\<And>dis r. s \<notin> set dis \<Longrightarrow> url_scheme_of dis (lead @ r) = s" "s \<noteq> SCHEME_INVALID"
proof -
  have l: "lower ''https:/'' \<noteq> lower ''http://''" "lower ''ftp://'' \<noteq> lower ''http:/''" "lower ''ftps://'' \<noteq> lower ''http://''"
     "lower ''ftps://'' \<noteq> lower ''https:/''" "lower ''ftps:/'' \<noteq> lower ''ftp://''" by code_simp+
  have f: "\<not> strncaseeq (''ftp://'' @ r) ''http://''" "\<not> strncaseeq (''ftp://'' @ r) ''https://''"
     "\<not> strncaseeq (''ftps://'' @ r) ''http://''" "\<not> strncaseeq (''ftps://'' @ r) ''https://''" for r
    by (auto simp: strncaseeq_def lower_Cons c_tolower_def c_isupper_def)
  show thesis
  proof (cases s)
    case SCHEME_HTTP
    then show thesis using assms by (intro that[of "''http''"]) (auto simp: init_seps_def url_scheme_of_def supported_schemes_def strncaseeq_def List.member_iff)
  next
    case SCHEME_HTTPS
    then show thesis using assms l by (intro that[of "''https''"]) (auto simp: init_seps_def url_scheme_of_def supported_schemes_def strncaseeq_def List.member_iff simp del: lower_append)
  next
    case SCHEME_FTP
    then show thesis using assms f by (intro that[of "''ftp''"]) (auto simp: init_seps_def url_scheme_of_def supported_schemes_def List.member_iff strncaseeq_def[of _ "''ftp://''"])
  next
    case SCHEME_FTPS
    then show thesis using assms f l by (intro that[of "''ftps''"]) (auto simp: init_seps_def url_scheme_of_def supported_schemes_def List.member_iff strncaseeq_def[of _ "''ftp://''"] strncaseeq_def[of _ "''ftps://''"] simp del: lower_append)
  qed (use assms in auto)
qed

lemma path_end_parts:
  assumes "base_parts disabled lead auth path rest"
  shows "path_end disabled (lead @ auth @ path @ rest) = length (lead @ auth @ path)"
proof -
  from assms obtain s where s: "scheme_leading_string s = Some lead" "s \<notin> set disabled"
    "set (auth @ path) \<inter> set (drop 2 (init_seps s)) = {}" "rest = [] \<or> hd rest \<in> set (drop 2 (init_seps s))"
    by (auto simp: base_parts_def)
  obtain nm where L: "set lead \<inter> set (drop 2 (init_seps s)) = {}" "\<And>dis r. s \<notin> set dis \<Longrightarrow> url_scheme_of dis (lead @ r) = s" "s \<noteq> SCHEME_INVALID"
    using lead_scheme[OF s(1)] by metis
  have "strpbrk_or_eos ((lead @ auth @ path) @ rest) (drop 2 (init_seps s)) = rest"
    using s(3,4) L(1) by (intro strpbrk_stop) auto
  then show ?thesis using L(2)[OF s(2)] L(3) strdupdelim_append[of "lead @ auth @ path" rest] by (simp add: path_end_def Let_def)
qed

lemma net_insert:
  assumes "CHR ''/'' \<notin> set nm"
  shows "take (net_path_insert (nm @ ''://'' @ r) (length (nm @ ''://'') + k)) (nm @ ''://'' @ r) = nm @ '':''"
  using memchr_found[of "CHR ''/''" "nm @ '':''" "[]" "length (nm @ ''://'') + k" "CHR ''/'' # r"] assms
  by (simp add: net_path_insert_def deref_def nth_append)

lemma abs_insert:
  assumes "CHR ''/'' \<notin> set nm" "CHR ''/'' \<notin> set auth" "path = [] \<or> hd path = CHR ''/''"
  shows "abs_path_insert (nm @ ''://'' @ auth @ path @ rest) (length (nm @ ''://'' @ auth @ path)) = length (nm @ ''://'' @ auth)"
proof -
  let ?b = "nm @ ''://'' @ auth @ path @ rest" and ?e = "length (nm @ ''://'' @ auth @ path)"
  have m1: "memchr ?b 0 (CHR ''/'') ?e = Some (length nm + 1)"
    using memchr_found[of "CHR ''/''" "nm @ '':''" "[]" ?e "CHR ''/'' # auth @ path @ rest"] assms(1) by simp
  have d: "deref ?b (length nm + 1 + 1) = CHR ''/''" by (simp add: deref_def nth_append)
  have l: "length (nm @ ''://'') = length nm + 1 + 2" by simp
  show ?thesis
  proof (cases path)
    case Nil
    have "memchr ?b (length nm + 1 + 2) (CHR ''/'') ?e = None"
      using memchr_none[OF assms(2), of "nm @ ''://''" rest] Nil by (simp add: add.assoc)
    then show ?thesis using m1 d Nil by (simp add: abs_path_insert_def Let_def)
  next
    case (Cons x p)
    then have "memchr ?b (length nm + 1 + 2) (CHR ''/'') ?e = Some (length (nm @ ''://'' @ auth))"
      using memchr_found[OF assms(2), of "nm @ ''://''" ?e "p @ rest"] assms(3) by (simp add: add.assoc)
    then show ?thesis using m1 d by (simp add: abs_path_insert_def Let_def)
  qed
qed

lemma suffix_two: "suffix [a, b] x \<longleftrightarrow> 2 \<le> length x \<and> x ! (length x - 2) = a \<and> x ! (length x - 1) = b"
proof (cases x rule: rev_cases)
  case (snoc y d)
  show ?thesis
  proof (cases y rule: rev_cases)
    case (snoc z c)
    then show ?thesis using \<open>x = y @ [d]\<close> by (auto simp: suffix_def nth_append)
  qed (use snoc in \<open>auto simp: suffix_def\<close>)
qed simp

lemma rel_insert_last:
  assumes "CHR ''/'' \<notin> set f"
  shows "rel_path_insert (x @ CHR ''/'' # f @ rest) (length (x @ CHR ''/'' # f)) =
    (if suffix '':/'' x then x @ CHR ''/'' # f @ ''/'' else x @ ''/'')"
proof -
  let ?b = "x @ CHR ''/'' # f @ rest"
  have tk: "take (length (x @ CHR ''/'' # f)) ?b = x @ CHR ''/'' # f" by simp
  have nth: "2 \<le> length x \<Longrightarrow> ?b ! (length x - 2) = x ! (length x - 2) \<and> ?b ! (length x - 1) = x ! (length x - 1)"
    by (auto simp: nth_append)
  show ?thesis
    unfolding rel_path_insert_def find_last_char_def tk strrchr_pos_app[OF assms] suffix_two
    using nth by auto
qed

lemma rel_insert:
  assumes "CHR ''/'' \<notin> set auth" "path = [] \<or> hd path = CHR ''/''" "\<not> suffix ''://'' (auth @ dir_of path)"
  shows "rel_path_insert (nm @ ''://'' @ auth @ path @ rest) (length (nm @ ''://'' @ auth @ path)) =
    nm @ ''://'' @ auth @ (if path = [] then ''/'' else dir_of path)"
proof (cases "path = []")
  case True
  then show ?thesis using rel_insert_last[OF assms(1), of "nm @ '':/''" rest] by (simp add: suffix_def)
next
  case False
  then have "CHR ''/'' \<in> set path" using assms(2) by (cases path) auto
  then obtain d f where path: "path = d @ CHR ''/'' # f" "CHR ''/'' \<notin> set f" by (meson split_list_last)
  have dir: "dir_of path = d @ ''/''" using path strrchr_pos_app[of "CHR ''/''" f d] by (simp add: dir_of_def)
  have "\<not> suffix '':/'' (nm @ ''://'' @ auth @ d)"
  proof
    assume s: "suffix '':/'' (nm @ ''://'' @ auth @ d)"
    have "\<not> suffix '':/'' (auth @ d)" using assms(3) dir by (auto simp: suffix_def)
    moreover have "suffix (auth @ d) (nm @ ''://'' @ auth @ d)" by (metis append.assoc suffixI)
    ultimately have "length (auth @ d) < 2" using suffix_length_suffix[OF s] by fastforce
    then consider "auth @ d = []" | c where "auth @ d = [c]" by (cases "auth @ d") (auto simp: less_Suc_eq)
    then show False using s by cases (auto simp: suffix_two nth_append)
  qed
  then show ?thesis using rel_insert_last[OF path(2), of "nm @ ''://'' @ auth @ d" rest] path dir False by simp
qed

lemma merge_pieces:
  fixes lead auth path rest :: string
  assumes "base_parts disabled lead auth path rest"
  defines "B \<equiv> lead @ auth @ path @ rest" and "e \<equiv> length (lead @ auth @ path)"
  shows "path_end disabled B = e" "take e B = lead @ auth @ path"
    "take (net_path_insert B e) B = butlast (butlast lead)" "take (abs_path_insert B e) B = lead @ auth"
    "(case strchr B (CHR ''#'') of None \<Rightarrow> B | Some p \<Rightarrow> strdupdelim B p) = lead @ auth @ path @ takeWhile (\<lambda>c. c \<noteq> CHR ''#'') rest"
    "\<not> suffix ''://'' (auth @ dir_of path) \<Longrightarrow> rel_path_insert B e = lead @ auth @ (if path = [] then ''/'' else dir_of path)"
proof -
  obtain s where s: "scheme_leading_string s = Some lead" "set (auth @ path) \<inter> set (drop 2 (init_seps s)) = {}"
    and P: "CHR ''/'' \<notin> set auth" "path = [] \<or> hd path = CHR ''/''"
    using assms(1) by (auto simp: base_parts_def)
  obtain nm where L: "lead = nm @ ''://''" "CHR ''/'' \<notin> set nm" "set lead \<inter> set (drop 2 (init_seps s)) = {}" "s \<noteq> SCHEME_INVALID"
    using lead_scheme[OF s(1)] by metis
  have "CHR ''#'' \<in> set (drop 2 (init_seps s))" using L(4) by (cases s) (auto simp: init_seps_def)
  then show "(case strchr B (CHR ''#'') of None \<Rightarrow> B | Some p \<Rightarrow> strdupdelim B p) = lead @ auth @ path @ takeWhile (\<lambda>c. c \<noteq> CHR ''#'') rest"
    using s(2) L(3) strchr_cut[of "CHR ''#''" "lead @ auth @ path" rest] unfolding append.assoc B_def by fastforce
  show "path_end disabled B = e" "take e B = lead @ auth @ path"
    "take (net_path_insert B e) B = butlast (butlast lead)" "take (abs_path_insert B e) B = lead @ auth"
    using net_insert[OF L(2), of "auth @ path @ rest" "length (auth @ path)"] abs_insert[OF L(2) P, of rest]
      path_end_parts[OF assms(1)]
    by (simp_all add: B_def e_def L(1) butlast_append add.assoc take_Cons' del: One_nat_def)
  show "\<not> suffix ''://'' (auth @ dir_of path) \<Longrightarrow> rel_path_insert B e = lead @ auth @ (if path = [] then ''/'' else dir_of path)"
    using rel_insert[OF P, of nm rest] by (simp add: B_def e_def L(1))
qed

lemma two_slashes: "prefix ''//'' link \<longleftrightarrow> deref link 0 = CHR ''/'' \<and> deref link 1 = CHR ''/''"
  by (cases link rule: remdups_adj.cases) auto

text \<open>
  C34. Resolving a link without a scheme against a base URL cut into scheme, authority, path
  and rest is the reference resolution: a query or a fragment replaces those of the base, a
  net path keeps the scheme only, an absolute path keeps scheme and authority, and a
  relative one also the directory of the path, unless that directory itself ends in
  \<open>://\<close>; a link with a scheme is taken as it is.
\<close>

theorem uri_merge_correct:
  assumes "base_parts disabled lead auth path rest"
    and "\<not> suffix ''://'' (auth @ dir_of path)"
  shows "uri_merge disabled (lead @ auth @ path @ rest) link =
    (if url_has_scheme link then link else resolve_link lead auth path rest link)"
  using merge_pieces[OF assms(1)] assms(2) two_slashes[of link]
  by (cases link) (auto simp: uri_merge_def resolve_link_def Let_def)

theorem uri_merge_correct_witness:
  "uri_merge [] ''http://host:80/a/b?q#f'' ''../x'' = ''http://host:80/a/../x'' \<and>
   uri_merge [] ''http://host:80/a/b?q#f'' ''#g'' = ''http://host:80/a/b?q#g'' \<and>
   uri_merge [] ''http://host:80/a/b?q#f'' ''//other/x'' = ''http://other/x''"
proof -
  have "base_parts [] ''http://'' ''host:80'' ''/a/b'' ''?q#f''"
    unfolding base_parts_def by (intro conjI exI[of _ SCHEME_HTTP]) (auto simp: init_seps_def)
  moreover have "\<not> suffix ''://'' (''host:80'' @ dir_of ''/a/b'')" by code_simp
  ultimately have m: "uri_merge [] ''http://host:80/a/b?q#f'' link =
      (if url_has_scheme link then link else resolve_link ''http://'' ''host:80'' ''/a/b'' ''?q#f'' link)" for link
    using uri_merge_correct[of "[]" "''http://''" "''host:80''" "''/a/b''" "''?q#f''" link] by simp
  have "resolve_link ''http://'' ''host:80'' ''/a/b'' ''?q#f'' ''../x'' = ''http://host:80/a/../x''"
    "resolve_link ''http://'' ''host:80'' ''/a/b'' ''?q#f'' ''#g'' = ''http://host:80/a/b?q#g''"
    "resolve_link ''http://'' ''host:80'' ''/a/b'' ''?q#f'' ''//other/x'' = ''http://other/x''"
    "\<not> url_has_scheme ''../x''" "\<not> url_has_scheme ''#g''" "\<not> url_has_scheme ''//other/x''" by code_simp+
  then show ?thesis by (simp add: m)
qed

text \<open>
  A base whose directory ends in \<open>://\<close> (an archived copy of another site, say) is taken for
  one without a path: the last element of its path is kept and becomes a directory.
\<close>

theorem merge_below_nested_url:
  "uri_merge [] ''http://archive.example/web/http://site.example'' ''page'' =
     ''http://archive.example/web/http://site.example/page'' \<and>
   resolve_link ''http://'' ''archive.example'' ''/web/http://site.example'' [] ''page'' =
     ''http://archive.example/web/http://page''"
  by code_simp

subsection \<open>Links stay on the host\<close>

lemma reencode_loop_append: "encode_count a = 0 \<Longrightarrow> reencode_loop (a @ b) = a @ reencode_loop b"
proof (induction a)
  case (Cons c a)
  have "\<not> char_needs_escaping (c # a)" "encode_count a = 0" using Cons.prems by (auto split: if_splits)
  moreover have "\<not> char_needs_escaping (c # a @ b)"
    using encode_count_append[OF Cons.prems, of b] encode_count_append[OF calculation(2), of b] by (auto split: if_splits)
  ultimately show ?case using Cons.IH by simp
qed simp

lemma parse_same_host:
  assumes "canonical_url u" "scheme_leading_string (u_scheme u) = Some lead"
    and "url_parse disabled (lead @ u_host u @ url_port_text u @ CHR ''/'' # r) encode = Some (Inr v)"
    and "u_scheme u \<notin> set disabled"
  shows "u_scheme v = u_scheme u \<and> u_host v = u_host u \<and> u_port v = u_port u"
proof -
  have s: "u_scheme u = SCHEME_HTTP \<or> u_scheme u = SCHEME_HTTPS" and p: "0 \<le> u_port u \<and> u_port u \<le> 65535"
    and h: "\<forall>c\<in>set (u_host u). host_char c"
    using assms(1) by (auto simp: canonical_url_def)
  have ns: "u_scheme u \<noteq> SCHEME_INVALID" using s by auto
  have L: "encode_count lead = 0" "url_scheme_of disabled (lead @ x) = u_scheme u" for x
    using http_lead[OF s] assms(2,4) by (metis option.inject)+
  let ?a = "lead @ u_host u @ url_port_text u"
  have "encode_count (?a @ ''/'') = 0" using canonical_prefix_encoded[OF assms(1) L(1)] by simp
  then have enc: "reencode_loop ((?a @ ''/'') @ r) = (?a @ ''/'') @ reencode_loop r" by (rule reencode_loop_append)
  define r' where "r' = (if encode then reencode_loop r else r)"
  obtain parts rest where g: "get_parts (u_scheme u) (CHR ''/'' # r') ''?#'' = (parts, rest)" by fastforce
  have "rest = [] \<Longrightarrow> url_parse disabled (?a @ CHR ''/'' # r) encode =
      finish_url (u_scheme u) (?a @ CHR ''/'' # r') None None (u_host u) (u_port u) parts"
    "rest \<noteq> [] \<Longrightarrow> url_parse disabled (?a @ CHR ''/'' # r) encode = None"
    using enc L(2) assms(2) canonical_skip[OF assms(1), of r'] canonical_host_port[OF assms(1), of r'] g
    by (auto simp: url_parse_def Let_def r'_def)
  then have f: "finish_url (u_scheme u) (?a @ CHR ''/'' # r') None None (u_host u) (u_port u) parts = Some (Inr v)"
    using assms(3) by (cases "rest = []") auto
  have low: "lower (u_host u) = u_host u"
    using h host_char_safe(4) by (auto simp: lower_def c_tolower_def intro!: map_idI)
  have "CHR ''%'' \<notin> set (u_host u)" using h host_char_safe(3) by auto
  then show ?thesis
    using finish_url_cases[OF ns p, of "?a @ CHR ''/'' # r'" None None "u_host u" parts] f low by fastforce
qed

lemma merge_keeps_root:
  assumes "base_parts disabled lead auth (CHR ''/'' # p) rest" "\<not> url_has_scheme link" "\<not> prefix ''//'' link"
  shows "\<exists>r. uri_merge disabled (lead @ auth @ (CHR ''/'' # p) @ rest) link = lead @ auth @ CHR ''/'' # r"
proof -
  define path where "path = CHR ''/'' # p"
  have sl: "path = [] \<or> hd path = CHR ''/''" "path \<noteq> []" by (auto simp: path_def)
  then obtain d f where df: "path = d @ CHR ''/'' # f" "CHR ''/'' \<notin> set f" by (metis list.set_sel(1) split_list_last)
  define B where "B = lead @ auth @ path @ rest"
  define e where "e = length (lead @ auth @ path)"
  have "rel_path_insert B e = lead @ auth @ path @ ''/'' \<or> rel_path_insert B e = lead @ auth @ d @ ''/''"
    using rel_insert_last[OF df(2), of "lead @ auth @ d" rest] by (simp add: B_def e_def df(1))
  moreover have "\<exists>r. d @ ''/'' = CHR ''/'' # r" using df(1) by (cases d) (auto simp: path_def)
  ultimately have "\<exists>r. rel_path_insert B e = lead @ auth @ CHR ''/'' # r" by (auto simp: path_def)
  then obtain r where r: "rel_path_insert B e = lead @ auth @ CHR ''/'' # r" by blast
  note M = merge_pieces(1,2,4,5)[OF assms(1)[folded path_def], folded B_def e_def]
  have m: "uri_merge disabled B link =
    (if link = [] then B else if deref link 0 = CHR ''?'' then lead @ auth @ path @ link
     else if deref link 0 = CHR ''#'' then (lead @ auth @ path @ takeWhile (\<lambda>c. c \<noteq> CHR ''#'') rest) @ link
     else if deref link 0 = CHR ''/'' then (lead @ auth) @ link else (lead @ auth @ CHR ''/'' # r) @ link)"
    using assms(2,3) unfolding uri_merge_def Let_def M two_slashes r by simp
  have "deref link 0 = CHR ''/'' \<Longrightarrow> \<exists>l. link = CHR ''/'' # l" by (cases link) auto
  then show ?thesis unfolding path_def[symmetric] B_def[symmetric] m by (auto simp: B_def path_def)
qed

text \<open>
  A link without a scheme that does not begin with two slashes cannot leave the host:
  whatever else it contains, resolved against the text of a canonical URL and parsed it gives
  a URL with the same scheme, host and port.
\<close>

theorem relative_link_same_host:
  assumes "canonical_url u" "u_scheme u \<notin> set disabled" "url_string u URL_AUTH_SHOW = Some base"
    and "\<not> url_has_scheme link" "\<not> prefix ''//'' link"
    and "url_parse disabled (uri_merge disabled base link) encode = Some (Inr v)"
  shows "u_scheme v = u_scheme u \<and> u_host v = u_host u \<and> u_port v = u_port u"
proof -
  have s: "u_scheme u = SCHEME_HTTP \<or> u_scheme u = SCHEME_HTTPS" using assms(1) by (simp add: canonical_url_def)
  obtain lead where L: "scheme_leading_string (u_scheme u) = Some lead" using s by auto
  let ?auth = "u_host u @ url_port_text u"
  have b: "base = lead @ ?auth @ (CHR ''/'' # u_path u) @ query_text (u_query u)"
    by (rule option.inject[THEN iffD1]) (simp only: assms(3)[symmetric] canonical_string[OF assms(1) L] append_Cons append.assoc)
  have "c \<notin> set ''/?#''" if "c \<in> set (u_host u)" for c
    using assms(1) host_char_safe(3)[of c] that by (auto simp: canonical_url_def)
  moreover have "c \<notin> set ''/?#''" if "c \<in> set (url_port_text u)" for c
    using port_text_digits[OF that] digit_safe(2)[of c] by auto
  ultimately have "set ?auth \<inter> set ''/?#'' = {}" unfolding set_append by blast
  moreover have "set (u_path u) \<inter> set ''?#'' = {}" using assms(1) by (simp add: canonical_url_def)
  moreover have "query_text (u_query u) = [] \<or> hd (query_text (u_query u)) \<in> set ''?#''"
    by (auto simp: query_text_def split: option.splits)
  ultimately have bp: "base_parts disabled lead ?auth (CHR ''/'' # u_path u) (query_text (u_query u))"
    unfolding base_parts_def using assms(2) L by (intro conjI exI[of _ "u_scheme u"]) (simp_all add: seps_http[OF s] Int_Un_distrib2 set_append)
  from merge_keeps_root[OF bp assms(4,5)]
  obtain r where m: "uri_merge disabled base link = lead @ u_host u @ url_port_text u @ CHR ''/'' # r"
    unfolding b append.assoc by blast
  show ?thesis by (rule parse_same_host[OF assms(1) L assms(6)[unfolded m] assms(2)])
qed

theorem relative_link_same_host_witness:
  "\<exists>v. url_parse [] (uri_merge [] ''http://a.example/d/'' ''user@evil.example:1/%2e%2e/x'') True = Some (Inr v) \<and>
     u_host v = ''a.example'' \<and> u_port v = 80"
proof -
  let ?u = "\<lparr>u_url = [], u_scheme = SCHEME_HTTP, u_host = ''a.example'', u_port = 80,
     u_path = ''d/'', u_params = None, u_query = None, u_fragment = None, u_dir = ''d'', u_file = [],
     u_user = None, u_passwd = None\<rparr>"
  let ?v = "\<lparr>u_url = ''http://a.example/d/user@evil.example:1/%2e%2e/x'', u_scheme = SCHEME_HTTP, u_host = ''a.example'', u_port = 80,
     u_path = ''d/user@evil.example:1/%2e%2e/x'', u_params = None, u_query = None, u_fragment = None,
     u_dir = ''d/user@evil.example:1/..'', u_file = ''x'', u_user = None, u_passwd = None\<rparr>"
  have c: "canonical_url ?u" by code_simp
  have b: "url_string ?u URL_AUTH_SHOW = Some ''http://a.example/d/''" by code_simp
  have l: "\<not> url_has_scheme ''user@evil.example:1/%2e%2e/x''" "\<not> prefix ''//'' ''user@evil.example:1/%2e%2e/x''" by code_simp+
  have p: "url_parse [] (uri_merge [] ''http://a.example/d/'' ''user@evil.example:1/%2e%2e/x'') True = Some (Inr ?v)" by code_simp
  have d: "u_scheme ?u \<notin> set []" by simp
  from relative_link_same_host[OF c d b l p] p show ?thesis by (intro exI[of _ ?v]) simp
qed

end
