(* ===== verification/Wget_Url_File.thy ===== *)
theory Wget_Url_File
  imports Wget_Url_Merge Wget_Hsts
begin

section \<open>Local file names (wget/src/url.c, utils.c)\<close>

text \<open>
  \<open>url_file_name\<close> chooses the file a URL is saved in. The growable strings of the code are the
  text before their tail; what the operating system answers (\<open>pathconf\<close>, \<open>stat\<close>, \<open>lstat\<close>) and
  the conversion of \<open>iconv\<close> are parameters. A growable whose tail is moved over bytes that
  nobody wrote is \<^term>\<open>None\<close>.
\<close>

subsection \<open>Options and environment\<close>

datatype restrict_os = restrict_unix | restrict_vms | restrict_windows

datatype restrict_case = restrict_no_case_restriction | restrict_lowercase | restrict_uppercase

record file_options =
  restrict_files_os :: restrict_os
  restrict_files_ctrl :: bool
  restrict_files_nonascii :: bool
  restrict_files_case :: restrict_case
  cut_dirs :: int
  dirstruct :: bool
  protocol_directories :: bool
  add_hostdir :: bool
  dir_prefix :: "string option"
  default_page :: "string option"
  noclobber :: bool
  always_rest :: bool
  timestamping :: bool
  output_document :: bool
  backups :: int

datatype pathconf_result = PATHCONF int | PATHCONF_ENOENT \<comment> \<open>a negative number is an error other than ENOENT, or no limit\<close>

datatype iconv_result =
    ICONV_OK string \<comment> \<open>the whole input was converted; the bytes written\<close>
  | ICONV_STOP \<comment> \<open>EINVAL, EILSEQ, an inexact conversion or any other error but E2BIG\<close>
  | ICONV_E2BIG nat string \<comment> \<open>how much of the input was used up, and the bytes written\<close>

record file_env =
  pathconf :: "string \<Rightarrow> pathconf_result" \<comment> \<open>for \<open>_PC_NAME_MAX\<close>\<close>
  stat :: "string \<Rightarrow> file_state option"
  lstat_S_ISDIR :: "string \<Rightarrow> bool option"
  iconv :: "(nat \<Rightarrow> string \<Rightarrow> nat \<Rightarrow> iconv_result) option"
    \<comment> \<open>\<^term>\<open>None\<close>: \<open>iconv_open\<close> fails; the calls made so far, the input and \<open>outlen\<close>\<close>

definition ALLOW_CLOBBER :: "file_options \<Rightarrow> bool" where
  "ALLOW_CLOBBER opt \<longleftrightarrow>
     noclobber opt \<or> always_rest opt \<or> timestamping opt \<or> dirstruct opt \<or> output_document opt \<or> backups opt > 0"

subsection \<open>Characters that a file name cannot have\<close>

definition filechr_not_unix :: nat where "filechr_not_unix = 1"

definition filechr_not_vms :: nat where "filechr_not_vms = 2"

definition filechr_not_windows :: nat where "filechr_not_windows = 4"

definition filechr_control :: nat where "filechr_control = 8"

definition filechr_table :: "nat list" where
  "filechr_table =
    (let U = filechr_not_unix; V = filechr_not_vms; W = filechr_not_windows; C = filechr_control;
         UVWC = U OR V OR W OR C; UW = U OR W; VC = V OR C; VW = V OR W in
    [UVWC, VC, VC, VC,  VC, VC, VC, VC,
       VC, VC, VC, VC,  VC, VC, VC, VC,
       VC, VC, VC, VC,  VC, VC, VC, VC,
       VC, VC, VC, VC,  VC, VC, VC, VC,
        0,  0,  W,  0,   0,  0,  0,  0,
        0,  0, VW,  0,   0,  0,  0, UW,
        0,  0,  0,  0,   0,  0,  0,  0,
        0,  0,  W,  0,   W,  0,  W, VW,
        0,  0,  0,  0,   0,  0,  0,  0,
        0,  0,  0,  0,   0,  0,  0,  0,
        0,  0,  0,  0,   0,  0,  0,  0,
        0,  0,  0,  0,   W,  0,  0,  0,
        0,  0,  0,  0,   0,  0,  0,  0,
        0,  0,  0,  0,   0,  0,  0,  0,
        0,  0,  0,  0,   0,  0,  0,  0,
        0,  0,  0,  0,   W,  0,  0,  C] @ replicate 128 0)"

definition FILE_CHAR_TEST :: "file_options \<Rightarrow> char \<Rightarrow> nat \<Rightarrow> bool" where
  "FILE_CHAR_TEST opt c msk \<longleftrightarrow>
     restrict_files_nonascii opt \<and> byte c \<ge> 128 \<or> (filechr_table ! byte c) AND msk \<noteq> 0"

definition FN_PORT_SEP :: "file_options \<Rightarrow> char" where
  "FN_PORT_SEP opt = (if restrict_files_os opt \<noteq> restrict_windows then CHR '':'' else CHR ''+'')"

definition FN_QUERY_SEP_STR :: "file_options \<Rightarrow> string" where
  "FN_QUERY_SEP_STR opt =
     (if restrict_files_os opt \<noteq> restrict_vms \<and> restrict_files_os opt \<noteq> restrict_windows then ''?'' else ''@'')"

subsection \<open>The limit on the length of a name\<close>

function max_length_loop :: "file_env \<Rightarrow> string \<Rightarrow> int" where
  "max_length_loop env p =
     (case pathconf env (if p \<noteq> [] then p else ''.'') of
        PATHCONF ret \<Rightarrow> ret
      | PATHCONF_ENOENT \<Rightarrow>
          if p = [] \<or> p = ''/'' then -1
          else
            max_length_loop env
              (case strrchr_pos p (CHR ''/'') of
                 Some 0 \<Rightarrow> ''/''
               | Some d \<Rightarrow> take d p
               | None \<Rightarrow> []))"
  by pat_completeness auto
termination
proof (relation "measure (length \<circ> snd)", goal_cases)
  case (2 env p)
  then have "p \<noteq> []" "p \<noteq> ''/''" by auto
  moreover have "2 \<le> length p" if "strrchr_pos p (CHR ''/'') = Some 0"
    using that strrchr_pos_Some[OF that] calculation by (cases p rule: remdups_adj.cases) auto
  ultimately show ?case using strrchr_pos_Some(1)[of p "CHR ''/''"] by (auto split: option.splits nat.splits)
qed simp

declare max_length_loop.simps [simp del]

definition get_max_length :: "file_env \<Rightarrow> string \<Rightarrow> int" where
  "get_max_length env path = (let ret = max_length_loop env path in if ret < 0 then 0 else ret)"

definition CHOMP_BUFFER :: int where
  "CHOMP_BUFFER = 19"

definition long_to_int :: "int \<Rightarrow> int" where
  \<comment> \<open>assignment of a \<open>long\<close> to an \<open>int\<close>\<close>
  "long_to_int x = (x + 2147483648) mod 4294967296 - 2147483648"

subsection \<open>Quoting a path element\<close>

fun quote_loop :: "file_options \<Rightarrow> nat \<Rightarrow> string \<Rightarrow> nat \<Rightarrow> nat \<Rightarrow> string" where
  \<comment> \<open>what is written at the tail; \<open>i\<close> characters are there already\<close>
  "quote_loop opt msk [] i outlen = []"
| "quote_loop opt msk (c # p) i outlen =
     (if \<not> FILE_CHAR_TEST opt c msk then
        if i = outlen then [] else c # quote_loop opt msk p (i + 1) outlen
      else if i + 3 > outlen then []
      else [CHR ''%'', XNUM_TO_DIGIT (byte c div 16), XNUM_TO_DIGIT (byte c mod 16)] @ quote_loop opt msk p (i + 3) outlen)"

definition file_mask :: "file_options \<Rightarrow> nat" where
  "file_mask opt =
     (let msk =
        (if restrict_files_os opt = restrict_unix then filechr_not_unix
         else if restrict_files_os opt = restrict_vms then filechr_not_vms
         else filechr_not_windows)
      in if restrict_files_ctrl opt then msk OR filechr_control else msk)"

definition restrict_char :: "file_options \<Rightarrow> char \<Rightarrow> char" where
  "restrict_char opt c =
     (if restrict_files_case opt = restrict_lowercase then c_tolower c
      else if restrict_files_case opt = restrict_uppercase then c_toupper c
      else c)"

definition append_uri_pathel :: "file_options \<Rightarrow> file_env \<Rightarrow> string \<Rightarrow> bool \<Rightarrow> string \<Rightarrow> string run" where
  "append_uri_pathel opt env el escaped dest =
     (let msk = file_mask opt;
          el = (if escaped then url_unescape el else el);
          el = (if el = ''..'' then ''%2E%2E'' else el);
          quoted = length (filter (\<lambda>c. FILE_CHAR_TEST opt c msk) el);
          outlen = length el + 2 * quoted;
          max_length = long_to_int (get_max_length env dest) - CHOMP_BUFFER;
          outlen = (if max_length > 0 \<and> int outlen > max_length then nat max_length else outlen);
          written = (if quoted = 0 then take outlen el else quote_loop opt msk el 0 outlen)
      in if length written < outlen then None \<comment> \<open>the tail is moved over bytes that were not written\<close>
         else Some (dest @ map (restrict_char opt) written))"

subsection \<open>Conversion to the local character set\<close>

definition write_at :: "char option list \<Rightarrow> nat \<Rightarrow> string \<Rightarrow> char option list run" where
  \<comment> \<open>writing into the allocated buffer; \<^term>\<open>None\<close> when it is too small\<close>
  "write_at buf s w =
     (if s + length w > length buf then None else Some (take s buf @ map Some w @ drop (s + length w) buf))"

fun read_string :: "char option list \<Rightarrow> string run" where
  \<comment> \<open>the C string at the start of the buffer; \<^term>\<open>None\<close> when a byte of it was never written\<close>
  "read_string [] = None"
| "read_string (None # buf) = None"
| "read_string (Some c # buf) = (if c = NUL then Some [] else map_option (\<lambda>s. c # s) (read_string buf))"

partial_function (option) convert_loop ::
  "(nat \<Rightarrow> string \<Rightarrow> nat \<Rightarrow> iconv_result) \<Rightarrow> string \<Rightarrow> nat \<Rightarrow> string \<Rightarrow> char option list \<Rightarrow> nat \<Rightarrow> nat \<Rightarrow> string run" where
  \<comment> \<open>with \<open>fname\<close>, \<open>converted_fname\<close>, \<open>done\<close> and \<open>len\<close>; at the head of the loop \<open>outlen\<close> is
      \<open>len\<close> and \<open>s\<close> is \<open>converted_fname + done\<close>\<close>
  "convert_loop cd orig_fname k fname buf dn len =
     (case cd k fname len of
        ICONV_STOP \<Rightarrow> Some orig_fname
      | ICONV_OK w \<Rightarrow> do {
          buf \<leftarrow> write_at buf dn w;
          let outlen = int len - int (length w);
          let pos = int len - outlen - int dn;
          if pos < 0 \<or> pos \<ge> int (length buf) then None else read_string (buf[nat pos := Some NUL]) }
      | ICONV_E2BIG n w \<Rightarrow> do {
          buf \<leftarrow> write_at buf dn w;
          let fname = drop n fname;
          let dn = len;
          let len = dn + length fname * 2;
          let buf = take (len + 1) buf @ replicate (len + 1 - length buf) None;
          convert_loop cd orig_fname (k + 1) fname buf dn len })"

declare convert_loop.simps [code]

definition convert_fname :: "file_env \<Rightarrow> string \<Rightarrow> string run" where
  "convert_fname env fname =
     (case iconv env of
        None \<Rightarrow> Some fname
      | Some cd \<Rightarrow>
          convert_loop cd fname 0 fname (replicate (length fname * 2 + 1) None) 0 (length fname * 2))"

subsection \<open>The file name\<close>

function dir_structure_loop :: "file_options \<Rightarrow> file_env \<Rightarrow> int \<Rightarrow> string \<Rightarrow> string \<Rightarrow> string run" where
  "dir_structure_loop opt env cutd pathel dest =
     (case strchr pathel (CHR ''/'') of
        None \<Rightarrow> Some dest
      | Some next \<Rightarrow>
          if cutd > 0 then dir_structure_loop opt env (cutd - 1) (tl next) dest
          else if pathel = next then dir_structure_loop opt env (cutd - 1) (tl next) dest
          else do {
            dest \<leftarrow> append_uri_pathel opt env (strdupdelim pathel next) True (if dest \<noteq> [] then dest @ ''/'' else dest);
            dir_structure_loop opt env (cutd - 1) (tl next) dest })"
  by pat_completeness auto
termination
  by (relation "measure (\<lambda>(opt, env, cutd, pathel, dest). length pathel)") (auto dest: strchr_shorter)

declare dir_structure_loop.simps [simp del]

definition append_dir_structure :: "file_options \<Rightarrow> file_env \<Rightarrow> url_struct \<Rightarrow> string \<Rightarrow> string run" where
  "append_dir_structure opt env u dest = dir_structure_loop opt env (cut_dirs opt) (u_path u) dest"

definition file_non_directory_p :: "file_env \<Rightarrow> string \<Rightarrow> bool" where
  "file_non_directory_p env path = (case lstat_S_ISDIR env path of None \<Rightarrow> False | Some d \<Rightarrow> \<not> d)"

function unique_loop :: "file_env \<Rightarrow> string \<Rightarrow> int \<Rightarrow> string" where
  "unique_loop env template cnt =
     (let name = template @ number_to_string cnt in
      if file_exists_p (stat env name) \<and> cnt + 1 < 999999 then unique_loop env template (cnt + 1) else name)"
  by pat_completeness auto
termination
  by (relation "measure (\<lambda>(env, template, cnt). nat (999999 - cnt))") auto

declare unique_loop.simps [simp del]

definition unique_name_1 :: "file_env \<Rightarrow> string \<Rightarrow> string" where
  "unique_name_1 env pre = unique_loop env (pre @ ''.'') 1"

definition unique_name_passthrough :: "file_env \<Rightarrow> string \<Rightarrow> string" where
  "unique_name_passthrough env f = (if file_exists_p (stat env f) then unique_name_1 env f else f)"

definition host_directory :: "file_options \<Rightarrow> url_struct \<Rightarrow> string" where
  \<comment> \<open>the name of the host's directory, the part of \<open>url_file_name\<close> under \<open>opt.add_hostdir\<close>\<close>
  "host_directory opt u =
     (if u_host u \<noteq> ''..'' then u_host u else ''%2E%2E'')
       @ (if u_port u \<noteq> scheme_default_port (u_scheme u) then FN_PORT_SEP opt # number_to_string (u_port u) else [])"

definition url_directory :: "file_options \<Rightarrow> file_env \<Rightarrow> url_struct \<Rightarrow> string run" where
  \<comment> \<open>\<open>temp_fnres\<close> after the part of \<open>url_file_name\<close> under \<open>opt.dirstruct\<close>\<close>
  "url_directory opt env u =
     (if dirstruct opt then do {
        t \<leftarrow> (if protocol_directories opt then scheme_name (u_scheme u) else Some []);
        let t = (if add_hostdir opt then (if t \<noteq> [] then t @ ''/'' else t) @ host_directory opt u else t);
        append_dir_structure opt env u t }
      else Some [])"

definition url_file_name :: "file_options \<Rightarrow> file_env \<Rightarrow> url_struct \<Rightarrow> string option \<Rightarrow> string run" where
  "url_file_name opt env u replaced_filename = do {
     let index_filename = (case default_page opt of None \<Rightarrow> ''index.html'' | Some p \<Rightarrow> p);
     let fnres = (case dir_prefix opt of None \<Rightarrow> [] | Some d \<Rightarrow> d);
     temp_fnres \<leftarrow> url_directory opt env u;
     let fname_len_check =
       (case replaced_filename of
          None \<Rightarrow>
            (let u_file = (if u_file u \<noteq> [] then u_file u else index_filename) in
             case u_query u of None \<Rightarrow> u_file | Some query \<Rightarrow> u_file @ FN_QUERY_SEP_STR opt @ query)
        | Some r \<Rightarrow> r);
     let temp_fnres = (if temp_fnres \<noteq> [] then temp_fnres @ ''/'' else temp_fnres);
     temp_fnres \<leftarrow> append_uri_pathel opt env fname_len_check True temp_fnres;
     temp_fnres \<leftarrow> convert_fname env temp_fnres;
     let fnres = (if fnres \<noteq> [] then fnres @ ''/'' else fnres);
     let fname = fnres @ temp_fnres;
     if ALLOW_CLOBBER opt \<and> \<not> (file_exists_p (stat env fname) \<and> \<not> file_non_directory_p env fname) then Some fname
     else Some (unique_name_passthrough env fname) }"

end
