(* ===== verification/Wget_Url_File_Props.thy ===== *)
theory Wget_Url_File_Props
  imports Wget_Url_File
begin

section \<open>Local file names stay below the directory prefix\<close>

text \<open>
  The name chosen for a URL is relative to the directory prefix and has no element \<open>..\<close>,
  whatever the server put in the path, the query or a replacement name; the host name is the
  one part that is not quoted.
\<close>

subsection \<open>Relative names without parent elements\<close>

fun slash_elems :: "string \<Rightarrow> string list" where
  "slash_elems [] = [[]]"
| "slash_elems (c # s) =
     (if c = CHR ''/'' then [] # slash_elems s
      else case slash_elems s of e # es \<Rightarrow> (c # e) # es | [] \<Rightarrow> [[c]])"

definition confined :: "string \<Rightarrow> bool" where
  "confined s \<longleftrightarrow> cstring s \<and> (s = [] \<or> hd s \<noteq> CHR ''/'') \<and> ''..'' \<notin> set (slash_elems s)"

lemma slash_elems_ne [simp]: "slash_elems s \<noteq> []"
  by (cases s) (auto split: list.splits)

lemma slash_elems_join: "slash_elems (a @ CHR ''/'' # b) = slash_elems a @ slash_elems b"
  by (induction a) (auto split: list.splits)

lemma slash_elems_single: "CHR ''/'' \<notin> set e \<Longrightarrow> slash_elems e = [e]"
  by (induction e) auto

lemma slash_elems_append: "CHR ''/'' \<notin> set x \<Longrightarrow> slash_elems (s @ x) = butlast (slash_elems s) @ [last (slash_elems s) @ x]"
  by (induction s) (auto simp: slash_elems_single split: list.splits)

lemma confined_join:
  assumes "confined d" "CHR ''/'' \<notin> set e" "cstring e" "e \<noteq> ''..''"
  shows "confined ((if d \<noteq> [] then d @ ''/'' else d) @ e)"
  using assms by (cases e) (auto simp: confined_def slash_elems_join slash_elems_single)

lemma confined_suffix:
  assumes "confined s" "CHR ''/'' \<notin> set x" "x \<noteq> []" "last x \<noteq> CHR ''.''" "cstring x"
  shows "confined (s @ x)"
proof -
  have "''..'' \<noteq> y @ x" for y
    using assms(3,4) by (metis last.simps last_appendR list.distinct(1))
  moreover have "''..'' \<notin> set (butlast (slash_elems s))" using assms(1) by (auto simp: confined_def dest: in_set_butlastD)
  ultimately have "''..'' \<notin> set (slash_elems (s @ x))" by (simp add: slash_elems_append[OF assms(2)])
  moreover have "hd x \<noteq> CHR ''/''" using assms(2,3) by (cases x) auto
  ultimately show ?thesis using assms(1,3,5) by (auto simp: confined_def hd_append)
qed

subsection \<open>Quoted elements\<close>

lemma separator_tested:
  assumes "restrict_files_os opt \<noteq> restrict_vms" "c = CHR ''/'' \<or> c = NUL"
  shows "FILE_CHAR_TEST opt c (file_mask opt)"
proof -
  have "\<forall>n\<in>{47, 0}. \<forall>m\<in>{1, 1 OR 8, 4, 4 OR 8}. (filechr_table ! n) AND m \<noteq> 0" by code_simp
  then show ?thesis using assms
    by (cases "restrict_files_os opt")
      (auto simp: FILE_CHAR_TEST_def file_mask_def filechr_not_unix_def filechr_not_windows_def filechr_control_def)
qed

lemma restrict_char_fix:
  assumes "byte d < 65"
  shows "restrict_char opt c = d \<longleftrightarrow> c = d"
proof -
  have "c_toupper c = d \<longleftrightarrow> c = d"
    using assms byte_char_of by (auto simp: c_toupper_def c_islower_def)
  then show ?thesis using tolower_nonletter[OF assms] by (simp add: restrict_char_def)
qed

lemma restrict_separator: "c = CHR ''/'' \<or> c = NUL \<Longrightarrow> c \<in> restrict_char opt ` A \<longleftrightarrow> c \<in> A"
  using restrict_char_fix[of c opt] by (auto simp: image_iff eq_commute)

lemma restrict_dot [simp]: "restrict_char opt c = CHR ''.'' \<longleftrightarrow> c = CHR ''.''"
  using restrict_char_fix[of "CHR ''.''" opt c] by simp

lemma quote_loop_untested:
  assumes "FILE_CHAR_TEST opt c msk" "\<not> c_isxdigit c" "c \<noteq> CHR ''%''"
  shows "c \<notin> set (quote_loop opt msk s i n)"
  using assms
proof (induction opt msk s i n rule: quote_loop.induct)
  case (2 opt msk x p i outlen)
  have "byte x div 16 < 16" "byte x mod 16 < 16" using byte_less_256[of x] by linarith simp
  then have "XNUM_TO_DIGIT (byte x div 16) \<noteq> c" "XNUM_TO_DIGIT (byte x mod 16) \<noteq> c"
    using hex_digit "2.prems"(2) by metis+
  then show ?case using 2 by (auto split: if_splits)
qed simp

lemma quote_loop_length: "i \<le> n \<Longrightarrow> i + length (quote_loop opt msk s i n) \<le> n"
proof (induction opt msk s i n rule: quote_loop.induct)
  case (2 opt msk c p i outlen)
  show ?case
  proof (cases "FILE_CHAR_TEST opt c msk")
    case True
    then show ?thesis using 2 by (auto simp: not_less)
  next
    case False
    then show ?thesis using 2 by (cases "i = outlen") auto
  qed
qed simp

definition name_limit :: "file_env \<Rightarrow> string \<Rightarrow> int" where
  "name_limit env dest = long_to_int (get_max_length env dest) - CHOMP_BUFFER"

lemma pathel_cases:
  assumes "append_uri_pathel opt env el True dest = Some dest'"
  obtains e el' where "dest' = dest @ map (restrict_char opt) e" "el' = (if url_unescape el = ''..'' then ''%2E%2E'' else url_unescape el)"
    "(\<exists>n. e = take n el') \<and> filter (\<lambda>c. FILE_CHAR_TEST opt c (file_mask opt)) el' = [] \<or>
      filter (\<lambda>c. FILE_CHAR_TEST opt c (file_mask opt)) el' \<noteq> [] \<and> (\<exists>n. e = quote_loop opt (file_mask opt) el' 0 n)"
    "0 < name_limit env dest \<and> int (length e) = name_limit env dest \<or>
      length e \<ge> length el' + 2 * length (filter (\<lambda>c. FILE_CHAR_TEST opt c (file_mask opt)) el')"
proof -
  define el' where "el' = (if url_unescape el = ''..'' then ''%2E%2E'' else url_unescape el)"
  define q where "q = filter (\<lambda>c. FILE_CHAR_TEST opt c (file_mask opt)) el'"
  define n where "n = (if name_limit env dest > 0 \<and> int (length el' + 2 * length q) > name_limit env dest
    then nat (name_limit env dest) else length el' + 2 * length q)"
  define w where "w = (if length q = 0 then take n el' else quote_loop opt (file_mask opt) el' 0 n)"
  have s: "(if length w < n then None else Some (dest @ map (restrict_char opt) w)) = Some dest'"
    using assms unfolding append_uri_pathel_def Let_def w_def n_def q_def name_limit_def el'_def if_True by simp
  have "length w \<le> n" using quote_loop_length[of 0 n] by (simp add: w_def)
  with s have L: "length w = n" "dest' = dest @ map (restrict_char opt) w" by (auto split: if_splits)
  show thesis
  proof (rule that[OF L(2) el'_def])
    show "0 < name_limit env dest \<and> int (length w) = name_limit env dest \<or>
        length w \<ge> length el' + 2 * length (filter (\<lambda>c. FILE_CHAR_TEST opt c (file_mask opt)) el')"
      unfolding L(1) q_def[symmetric] by (auto simp: n_def)
    show "(\<exists>n. w = take n el') \<and> filter (\<lambda>c. FILE_CHAR_TEST opt c (file_mask opt)) el' = [] \<or>
      filter (\<lambda>c. FILE_CHAR_TEST opt c (file_mask opt)) el' \<noteq> [] \<and> (\<exists>n. w = quote_loop opt (file_mask opt) el' 0 n)"
      unfolding L(1) q_def[symmetric] by (auto simp: w_def)
  qed
qed

lemma pathel_confined:
  assumes "append_uri_pathel opt env el True dest = Some dest'" "restrict_files_os opt \<noteq> restrict_vms"
    and "name_limit env dest \<noteq> 2"
  obtains e where "dest' = dest @ e" "CHR ''/'' \<notin> set e" "cstring e" "e \<noteq> ''..''"
proof -
  from assms(1) obtain e el' where E: "dest' = dest @ map (restrict_char opt) e"
    "el' = (if url_unescape el = ''..'' then ''%2E%2E'' else url_unescape el)"
    "(\<exists>n. e = take n el') \<and> filter (\<lambda>c. FILE_CHAR_TEST opt c (file_mask opt)) el' = [] \<or>
      filter (\<lambda>c. FILE_CHAR_TEST opt c (file_mask opt)) el' \<noteq> [] \<and> (\<exists>n. e = quote_loop opt (file_mask opt) el' 0 n)"
    "0 < name_limit env dest \<and> int (length e) = name_limit env dest \<or>
      length e \<ge> length el' + 2 * length (filter (\<lambda>c. FILE_CHAR_TEST opt c (file_mask opt)) el')"
    by (rule pathel_cases)
  have sep: "c \<notin> set e" if c: "c = CHR ''/'' \<or> c = NUL" for c
    using E(3)
  proof
    note T = separator_tested[OF assms(2) c]
    assume a: "(\<exists>n. e = take n el') \<and> filter (\<lambda>c. FILE_CHAR_TEST opt c (file_mask opt)) el' = []"
    then have "c \<notin> set el'" using T by (auto simp: filter_empty_conv)
    then show ?thesis using a by (auto dest: in_set_takeD)
  next
    have "\<not> c_isxdigit c" "c \<noteq> CHR ''%''" using c by (auto simp: c_isxdigit_def c_isdigit_def)
    moreover assume "filter (\<lambda>c. FILE_CHAR_TEST opt c (file_mask opt)) el' \<noteq> [] \<and> (\<exists>n. e = quote_loop opt (file_mask opt) el' 0 n)"
    ultimately show ?thesis using quote_loop_untested[OF separator_tested[OF assms(2) c]] by blast
  qed
  have sl: "CHR ''/'' \<notin> set (map (restrict_char opt) e)" "cstring (map (restrict_char opt) e)"
    using sep by (simp_all add: restrict_separator cstring_def)
  have "e \<noteq> ''..''"
  proof
    assume e: "e = ''..''"
    let ?q = "filter (\<lambda>c. FILE_CHAR_TEST opt c (file_mask opt)) el'"
    have "length e = 2" using e by simp
    then have "length el' + 2 * length ?q \<le> 2" using E(4) assms(3) by linarith
    then have l: "length el' \<le> 2" "length ?q = 0 \<or> length el' = 0" by linarith+
    have "quote_loop opt (file_mask opt) [] 0 n \<noteq> e" for n using e by simp
    then obtain n where n: "e = take n el'" using E(3) l(2) by auto
    have "length (take n el') = 2" using \<open>length e = 2\<close> unfolding n by simp
    then have "take n el' = el'" using l(1) by simp
    then have "el' = ''..''" using e n by simp
    then show False using E(2) by (simp split: if_splits)
  qed
  moreover have "map (restrict_char opt) e = ''..'' \<Longrightarrow> e = ''..''"
    by (simp add: map_eq_Cons_conv)
  ultimately show thesis using that[OF E(1) sl] by blast
qed

lemma dir_structure_confined:
  assumes "dir_structure_loop opt env cutd pathel dest = Some dest'" "confined dest"
    "restrict_files_os opt \<noteq> restrict_vms" "\<forall>d. name_limit env d \<noteq> 2"
  shows "confined dest'"
  using assms
proof (induction opt env cutd pathel dest rule: dir_structure_loop.induct)
  case (1 opt env cutd pathel dest)
  show ?case
  proof (cases "strchr pathel (CHR ''/'')")
    case None
    then show ?thesis using "1.prems" by (simp add: dir_structure_loop.simps)
  next
    case (Some nxt)
    let ?d = "if dest \<noteq> [] then dest @ ''/'' else dest"
    show ?thesis
    proof (cases "cutd > 0 \<or> pathel = nxt")
      case True
      then have "dir_structure_loop opt env (cutd - 1) (tl nxt) dest = Some dest'"
        using "1.prems"(1) Some by (subst (asm) dir_structure_loop.simps) (auto split: if_splits)
      then show ?thesis using "1.IH"(1,2)[OF Some] True "1.prems" by blast
    next
      case False
      then obtain d where d: "append_uri_pathel opt env (strdupdelim pathel nxt) True ?d = Some d"
          "dir_structure_loop opt env (cutd - 1) (tl nxt) d = Some dest'"
        using "1.prems"(1) Some by (subst (asm) dir_structure_loop.simps) (auto split: if_splits bind_splits)
      obtain e where "d = ?d @ e" "CHR ''/'' \<notin> set e" "cstring e" "e \<noteq> ''..''"
        using pathel_confined[OF d(1) "1.prems"(3)] "1.prems"(4) by blast
      then have "confined d" using confined_join[OF "1.prems"(2)] by simp
      then show ?thesis using "1.IH"(3)[OF Some _ _ _ d(2)] False d "1.prems"(3,4) by blast
    qed
  qed
qed

subsection \<open>The whole name\<close>

lemma print_int_no_slash: "CHR ''/'' \<notin> set (print_int n)" "CHR ''.'' \<notin> set (print_int n)" "print_int n \<noteq> []" "cstring (print_int n)"
proof -
  show "CHR ''/'' \<notin> set (print_int n)" "CHR ''.'' \<notin> set (print_int n)" "cstring (print_int n)"
    using print_int_chars[of "CHR ''/''" n] print_int_chars[of "CHR ''.''" n] print_int_chars[of NUL n] by (auto simp: c_isdigit_def cstring_def)
  show "print_int n \<noteq> []" by (simp add: print_int_def)
qed

lemma host_directory_confined:
  assumes "CHR ''/'' \<notin> set (u_host u)" "cstring (u_host u)" "in_int64 (u_port u)"
  shows "CHR ''/'' \<notin> set (host_directory opt u)" "cstring (host_directory opt u)" "host_directory opt u \<noteq> ''..''"
proof -
  let ?h = "if u_host u \<noteq> ''..'' then u_host u else ''%2E%2E''"
  have sep: "FN_PORT_SEP opt \<noteq> CHR ''/''" "FN_PORT_SEP opt \<notin> set ''..''" "FN_PORT_SEP opt \<noteq> NUL" by (auto simp: FN_PORT_SEP_def)
  show "CHR ''/'' \<notin> set (host_directory opt u)" "cstring (host_directory opt u)"
    using assms sep print_int_no_slash by (auto simp: host_directory_def number_to_string_eq)
  have "?h @ FN_PORT_SEP opt # x \<noteq> ''..''" for x
  proof
    assume "?h @ FN_PORT_SEP opt # x = ''..''"
    then have "FN_PORT_SEP opt \<in> set ''..''" by (metis in_set_conv_decomp)
    then show False using sep(2) by blast
  qed
  then show "host_directory opt u \<noteq> ''..''" unfolding host_directory_def by auto
qed

lemma url_directory_confined:
  assumes "url_directory opt env u = Some t" "CHR ''/'' \<notin> set (u_host u)" "cstring (u_host u)" "in_int64 (u_port u)"
    "restrict_files_os opt \<noteq> restrict_vms" "\<forall>d. name_limit env d \<noteq> 2"
  shows "confined t"
proof (cases "dirstruct opt")
  case True
  then obtain s where s: "(if protocol_directories opt then scheme_name (u_scheme u) else Some []) = Some s"
    "dir_structure_loop opt env (cut_dirs opt) (u_path u)
      (if add_hostdir opt then (if s \<noteq> [] then s @ ''/'' else s) @ host_directory opt u else s) = Some t"
    using assms(1) by (auto simp: url_directory_def append_dir_structure_def Let_def bind_eq_Some_conv)
  have "confined s" using s(1) by (cases "u_scheme u") (auto simp: confined_def split: if_splits)
  then have "confined (if add_hostdir opt then (if s \<noteq> [] then s @ ''/'' else s) @ host_directory opt u else s)"
    using confined_join host_directory_confined[OF assms(2-4)] by simp
  then show ?thesis using dir_structure_confined[OF s(2) _ assms(5,6)] by blast
qed (use assms(1) in \<open>simp add: url_directory_def confined_def\<close>)

lemma unique_loop_form: "0 \<le> n \<Longrightarrow> n \<le> 999999 \<Longrightarrow> \<exists>m. 0 \<le> m \<and> unique_loop env template n = template @ print_int m"
proof (induction env template n rule: unique_loop.induct)
  case (1 env template n)
  then have "number_to_string n = print_int n" by (intro number_to_string_eq) (simp add: in_int64_def)
  then show ?case using 1 by (subst unique_loop.simps) (auto simp: Let_def)
qed

lemma unique_name_form:
  "unique_name_passthrough env f = f \<or> (\<exists>m. unique_name_passthrough env f = f @ ''.'' @ print_int m)"
  using unique_loop_form[of 1 env "f @ ''.''"] by (auto simp: unique_name_passthrough_def unique_name_1_def)

definition same_charset :: "file_env \<Rightarrow> bool" where
  \<comment> \<open>the local character set is the remote one: what \<open>iconv\<close> converts it leaves as it is\<close>
  "same_charset env \<longleftrightarrow> (case iconv env of None \<Rightarrow> True | Some cd \<Rightarrow> \<forall>k s n. length s \<le> n \<longrightarrow> cd k s n = ICONV_OK s \<or> cd k s n = ICONV_STOP)"

lemma read_string_written:
  assumes "cstring w"
  shows "read_string (map Some w @ Some NUL # r) = Some w"
  using assms by (induction w) auto

lemma convert_first:
  assumes "iconv env = Some cd" "cd 0 s (length s * 2) = ICONV_OK w" "length w \<le> length s * 2" "cstring w"
  shows "convert_fname env s = Some w"
proof -
  define n where "n = length s * 2"
  have r: "replicate (n + 1) None = replicate (length w) None @ None # replicate (n - length w) (None :: char option)"
    using assms(3) by (simp add: n_def flip: replicate_Suc replicate_add)
  have "write_at (replicate (n + 1) None) 0 w = Some (map Some w @ None # replicate (n - length w) None)"
    using assms(3) unfolding r by (simp add: write_at_def n_def)
  moreover have "(map Some w @ None # replicate (n - length w) None)[length w := Some NUL] = map Some w @ Some NUL # replicate (n - length w) None"
    by (simp add: list_update_append)
  ultimately show ?thesis using assms read_string_written[OF assms(4)]
    unfolding convert_fname_def n_def[symmetric] by (simp add: convert_loop.simps[of cd s 0])
qed

lemma convert_same:
  assumes "same_charset env" "cstring s"
  shows "convert_fname env s = Some s"
proof (cases "iconv env")
  case (Some cd)
  then consider "cd 0 s (length s * 2) = ICONV_OK s" | "cd 0 s (length s * 2) = ICONV_STOP"
    using assms(1) unfolding same_charset_def Some option.case by (metis le_add2 mult_2_right)
  then show ?thesis
  proof cases
    case 1
    then show ?thesis using convert_first[OF Some] assms(2) by simp
  next
    case 2
    then show ?thesis using Some by (simp add: convert_fname_def convert_loop.simps)
  qed
qed (simp add: convert_fname_def)

text \<open>
  C36. The file name of a URL lies below the directory prefix: what follows the prefix does not
  begin with a slash and none of its elements is \<open>..\<close>, whatever the path, the query, the user's
  options and a name from the server are. This needs a host name without slashes, a mode other
  than VMS, a file system that does not cut names to two characters and a conversion
  that leaves names alone.
\<close>

theorem url_file_name_confined:
  assumes "url_file_name opt env u replaced = Some fname"
    and "CHR ''/'' \<notin> set (u_host u)" "cstring (u_host u)" "in_int64 (u_port u)"
    and "restrict_files_os opt \<noteq> restrict_vms" "\<forall>d. name_limit env d \<noteq> 2" "same_charset env"
  shows "\<exists>rel. fname = (case dir_prefix opt of None \<Rightarrow> [] | Some d \<Rightarrow> if d = [] then [] else d @ ''/'') @ rel \<and> confined rel"
proof -
  let ?p = "case dir_prefix opt of None \<Rightarrow> [] | Some d \<Rightarrow> d"
  let ?n = "case replaced of None \<Rightarrow> (let u_file = (if u_file u \<noteq> [] then u_file u
        else (case default_page opt of None \<Rightarrow> ''index.html'' | Some p \<Rightarrow> p)) in
      case u_query u of None \<Rightarrow> u_file | Some query \<Rightarrow> u_file @ FN_QUERY_SEP_STR opt @ query) | Some r \<Rightarrow> r"
  from assms(1) obtain t t1 t2 where t: "url_directory opt env u = Some t"
    "append_uri_pathel opt env ?n True (if t \<noteq> [] then t @ ''/'' else t) = Some t1" "convert_fname env t1 = Some t2"
    and f: "fname = (if ?p \<noteq> [] then ?p @ ''/'' else ?p) @ t2 \<or> fname = unique_name_passthrough env ((if ?p \<noteq> [] then ?p @ ''/'' else ?p) @ t2)"
    unfolding url_file_name_def Let_def bind_eq_Some_conv by (fastforce split: if_splits)
  obtain e where "t1 = (if t \<noteq> [] then t @ ''/'' else t) @ e" "CHR ''/'' \<notin> set e" "cstring e" "e \<noteq> ''..''"
    using pathel_confined[OF t(2) assms(5)] assms(6) by blast
  then have c1: "confined t1" using confined_join url_directory_confined[OF t(1) assms(2-6)] by blast
  then have "t2 = t1" using convert_same[OF assms(7), of t1] t(3) by (simp add: confined_def)
  then have c2: "confined t2" using c1 by simp
  have c3: "confined (t2 @ ''.'' @ print_int m)" for m
  proof -
    have "last (print_int m) \<noteq> CHR ''.''" using print_int_no_slash(2,3)[of m] last_in_set by metis
    then show ?thesis using print_int_no_slash[of m] by (intro confined_suffix[OF c2]) auto
  qed
  define P where "P = (if ?p \<noteq> [] then ?p @ ''/'' else ?p)"
  have P: "P = (case dir_prefix opt of None \<Rightarrow> [] | Some d \<Rightarrow> if d = [] then [] else d @ ''/'')"
    by (auto simp: P_def split: option.splits)
  from f unique_name_form[of env "P @ t2"] consider "fname = P @ t2" | m where "fname = P @ t2 @ ''.'' @ print_int m"
    unfolding P_def[symmetric] by auto
  then show ?thesis unfolding P[symmetric] using c2 c3 by cases blast+
qed

definition default_options :: file_options where
  \<comment> \<open>the options of a recursive retrieval on Unix\<close>
  "default_options =
     \<lparr>restrict_files_os = restrict_unix, restrict_files_ctrl = True, restrict_files_nonascii = False,
      restrict_files_case = restrict_no_case_restriction, cut_dirs = 0, dirstruct = True,
      protocol_directories = False, add_hostdir = True, dir_prefix = Some ''.'', default_page = None,
      noclobber = False, always_rest = False, timestamping = False, output_document = False, backups = 0\<rparr>"

definition empty_env :: "int \<Rightarrow> file_env" where
  \<comment> \<open>no files, names of at most \<open>n\<close> characters, no conversion\<close>
  "empty_env n =
     \<lparr>pathconf = (\<lambda>p. PATHCONF n), stat = (\<lambda>p. None), lstat_S_ISDIR = (\<lambda>p. None), iconv = None\<rparr>"

lemma empty_env_limit: "0 \<le> n \<Longrightarrow> n < 2147483648 \<Longrightarrow> name_limit (empty_env n) d = n - 19"
  by (simp add: name_limit_def get_max_length_def max_length_loop.simps[of _ d] empty_env_def long_to_int_def CHOMP_BUFFER_def)

theorem url_file_name_confined_witness:
  "\<exists>u fname rel. url_parse [] ''http://a.example/x/%2e%2e/y%2f..%2fz?../q'' True = Some (Inr u) \<and>
     url_file_name default_options (empty_env 255) u None = Some fname \<and> fname = ''./'' @ rel \<and> confined rel"
proof -
  let ?u = "\<lparr>u_url = ''http://a.example/x/%2e%2e/y%2f..%2fz?../q'', u_scheme = SCHEME_HTTP, u_host = ''a.example'', u_port = 80,
     u_path = ''x/%2e%2e/y%2f..%2fz'', u_params = None, u_query = Some ''../q'', u_fragment = None,
     u_dir = ''x/..'', u_file = ''y/../z'', u_user = None, u_passwd = None\<rparr>"
  have p: "url_parse [] ''http://a.example/x/%2e%2e/y%2f..%2fz?../q'' True = Some (Inr ?u)" by code_simp
  have f: "url_file_name default_options (empty_env 255) ?u None = Some ''./a.example/x/%2E%2E/y%2F..%2Fz?..%2Fq''" by code_simp
  have h: "CHR ''/'' \<notin> set (u_host ?u)" "cstring (u_host ?u)" "in_int64 (u_port ?u)"
    "restrict_files_os default_options \<noteq> restrict_vms" by code_simp+
  have e: "\<forall>d. name_limit (empty_env 255) d \<noteq> 2" "same_charset (empty_env 255)"
    by (simp_all add: empty_env_limit) (simp add: same_charset_def empty_env_def)
  from url_file_name_confined[OF f h e] p f show ?thesis by (auto simp: default_options_def)
qed

text \<open>
  The host name is not quoted: escaped slashes in it, which the parser decodes, lead out of
  the directory prefix, although a host called \<open>..\<close> is defanged.
\<close>

theorem host_name_escapes_prefix:
  "(case url_parse [] ''http://..%2f..%2fetc/x'' True of
      Some (Inr u) \<Rightarrow> url_file_name default_options (empty_env 255) u None = Some ''./../../etc/x''
    | _ \<Rightarrow> False) \<and>
   (case url_parse [] ''http://../x'' True of
      Some (Inr u) \<Rightarrow> url_file_name default_options (empty_env 255) u None = Some ''./%2E%2E/x''
    | _ \<Rightarrow> False)"
  by code_simp

text \<open>
  A path element that is cut to the limit where a character has to be quoted gets a tail
  of bytes that nobody wrote: the quoting loop stops before the limit, but the tail is moved
  to the limit.
\<close>

theorem truncated_quoting_reads_garbage:
  "append_uri_pathel default_options (empty_env 24) ''abcd%0Aef'' True ''x'' = None \<and>
   append_uri_pathel default_options (empty_env 24) ''abcdefgh'' True ''x'' = Some ''xabcde''"
  by code_simp

subsection \<open>Unique names\<close>

lemma unique_loop_fresh:
  assumes "\<not> file_exists_p (stat env (template @ print_int k))" "n \<le> k" "k < 999999" "1 \<le> n"
  shows "\<not> file_exists_p (stat env (unique_loop env template n))"
  using assms
proof (induction env template n rule: unique_loop.induct)
  case (1 env template n)
  have num: "number_to_string n = print_int n" using 1 by (intro number_to_string_eq) (simp add: in_int64_def)
  show ?case
  proof (cases "file_exists_p (stat env (template @ print_int n))")
    case True
    then have "n \<noteq> k" using 1 by auto
    then have "n + 1 \<le> k" "n + 1 < 999999" using 1 by auto
    then show ?thesis using 1 True num by (subst unique_loop.simps) (simp add: Let_def)
  next
    case False
    then show ?thesis using num by (subst unique_loop.simps) (simp add: Let_def)
  qed
qed

text \<open>
  When files may not be overwritten, the name that is chosen does not exist, unless all of
  the numbered names up to 999998 do; it is the plain name or that name with a number.
\<close>

theorem unique_name_fresh:
  assumes "1 \<le> k" "k < 999999" "\<not> file_exists_p (stat env (f @ ''.'' @ print_int k))"
  shows "\<not> file_exists_p (stat env (unique_name_passthrough env f)) \<and>
    (unique_name_passthrough env f = f \<or> (\<exists>m. unique_name_passthrough env f = f @ ''.'' @ print_int m))"
  using unique_loop_fresh[of env "f @ ''.''" k 1] assms unique_name_form[of env f]
  by (auto simp: unique_name_passthrough_def unique_name_1_def)

theorem unique_name_fresh_witness:
  "\<not> file_exists_p (stat (empty_env 255) (unique_name_passthrough (empty_env 255) ''f''))"
proof -
  have "\<not> file_exists_p (stat (empty_env 255) (''f'' @ ''.'' @ print_int 1))" by (simp add: empty_env_def file_exists_p_def)
  from unique_name_fresh[OF _ _ this] show ?thesis by simp
qed

text \<open>
  When files may be overwritten, the file system is not looked at, not even to avoid the
  name of a directory: \<open>file_exists_p\<close> answers only for regular files, and those are never
  directories.
\<close>

theorem clobber_ignores_directories:
  assumes "ALLOW_CLOBBER opt" "\<forall>f. file_exists_p (stat env f) \<longrightarrow> file_non_directory_p env f"
  shows "url_file_name opt env u replaced = url_file_name opt (env\<lparr>stat := \<lambda>f. None, lstat_S_ISDIR := \<lambda>f. None\<rparr>) u replaced"
proof -
  let ?e = "env\<lparr>stat := \<lambda>f. None, lstat_S_ISDIR := \<lambda>f. None\<rparr>"
  have "max_length_loop ?e p = max_length_loop env p" for p
  proof (induction env p rule: max_length_loop.induct)
    case (1 env p)
    show ?case
      by (subst (1 2) max_length_loop.simps) (use 1 in \<open>auto split: pathconf_result.splits\<close>)
  qed
  then have pe: "append_uri_pathel opt ?e = append_uri_pathel opt env"
    by (intro ext) (simp add: append_uri_pathel_def get_max_length_def)
  have "dir_structure_loop opt ?e c p d = dir_structure_loop opt env c p d" for c p d
  proof (induction "length p" arbitrary: c p d rule: less_induct)
    case less
    show ?case
    proof (cases "strchr p (CHR ''/'')")
      case (Some nxt)
      have "dir_structure_loop opt ?e (c - 1) (tl nxt) = dir_structure_loop opt env (c - 1) (tl nxt)"
        using less strchr_shorter[OF Some] by (intro ext) blast
      then show ?thesis using Some by (simp add: dir_structure_loop.simps[of _ _ c p d] pe)
    qed (simp add: dir_structure_loop.simps)
  qed
  then have "url_directory opt ?e u = url_directory opt env u"
    by (simp add: url_directory_def append_dir_structure_def)
  moreover have "convert_fname ?e = convert_fname env" by (intro ext) (simp add: convert_fname_def)
  ultimately show ?thesis using assms pe by (auto simp: url_file_name_def Let_def file_exists_p_def)
qed

theorem clobber_ignores_directories_witness:
  "\<exists>env. lstat_S_ISDIR env ''./a.example/x'' = Some True \<and>
     url_file_name default_options env \<lparr>u_url = [], u_scheme = SCHEME_HTTP, u_host = ''a.example'', u_port = 80, u_path = ''x'',
       u_params = None, u_query = None, u_fragment = None, u_dir = [], u_file = ''x'', u_user = None, u_passwd = None\<rparr> None =
     Some ''./a.example/x''"
proof -
  let ?u = "\<lparr>u_url = [], u_scheme = SCHEME_HTTP, u_host = ''a.example'', u_port = 80, u_path = ''x'',
       u_params = None, u_query = None, u_fragment = None, u_dir = [], u_file = ''x'', u_user = None, u_passwd = None\<rparr>"
  let ?env = "(empty_env 255)\<lparr>lstat_S_ISDIR := \<lambda>f. Some True\<rparr>"
  have a: "ALLOW_CLOBBER default_options" by code_simp
  have f: "\<forall>f. file_exists_p (stat ?env f) \<longrightarrow> file_non_directory_p ?env f" by (simp add: empty_env_def file_exists_p_def)
  have "?env\<lparr>stat := \<lambda>f. None, lstat_S_ISDIR := \<lambda>f. None\<rparr> = empty_env 255" by (simp add: empty_env_def)
  moreover have "url_file_name default_options (empty_env 255) ?u None = Some ''./a.example/x''" by code_simp
  ultimately show ?thesis using clobber_ignores_directories[OF a f, of ?u None] by (intro exI[of _ ?env]) simp
qed

subsection \<open>Conversion into a longer name\<close>

lemma read_string_short:
  assumes "read_string (buf[n := Some NUL]) = Some s" "n < length buf"
  shows "length s \<le> n"
  using assms
proof (induction n arbitrary: buf s)
  case 0
  then show ?case by (cases buf) auto
next
  case (Suc n)
  then obtain x b where b: "buf = x # b" by (cases buf) auto
  then obtain c where "x = Some c" using Suc.prems by (cases x) auto
  then show ?case using Suc b by (auto split: if_splits)
qed

text \<open>
  When the converted name does not fit at the first attempt, the conversion goes wrong: if the
  second attempt succeeds, it has written outside the enlarged buffer, or puts the final
  zero before its start, or leaves at most one character of the name.
\<close>

theorem convert_fname_growing_fails:
  assumes "iconv env = Some cd" "cd 0 fname (length fname * 2) = ICONV_E2BIG n w"
    and "cd 1 (drop n fname) (length fname * 2 + length (drop n fname) * 2) = ICONV_OK w'"
  shows "convert_fname env fname = None \<or> (\<exists>s. convert_fname env fname = Some s \<and> length s \<le> 1)"
proof -
  define L where "L = length fname * 2"
  define L' where "L' = L + length (drop n fname) * 2"
  have E: "convert_fname env fname = (do {
      buf \<leftarrow> write_at (replicate (L + 1) None) 0 w;
      buf \<leftarrow> write_at (take (L' + 1) buf @ replicate (L' + 1 - length buf) None) L w';
      if int L' - (int L' - int (length w')) - int L < 0 \<or> int L' - (int L' - int (length w')) - int L \<ge> int (length buf) then None
      else read_string (buf[nat (int L' - (int L' - int (length w')) - int L) := Some NUL]) })"
  proof -
    have c1: "convert_loop cd fname 0 fname buf 0 L = (do {
        b \<leftarrow> write_at buf 0 w; convert_loop cd fname (0 + 1) (drop n fname) (take (L' + 1) b @ replicate (L' + 1 - length b) None) L L' })" for buf
      by (subst convert_loop.simps) (simp only: assms(2)[folded L_def] iconv_result.case Let_def L'_def)
    have c2: "convert_loop cd fname (0 + 1) (drop n fname) buf L L' = (do {
        buf \<leftarrow> write_at buf L w';
        if int L' - (int L' - int (length w')) - int L < 0 \<or> int L' - (int L' - int (length w')) - int L \<ge> int (length buf) then None
        else read_string (buf[nat (int L' - (int L' - int (length w')) - int L) := Some NUL]) })" for buf
      by (subst convert_loop.simps) (simp only: assms(3)[folded L_def, folded L'_def] add_0 iconv_result.case Let_def)
    have "convert_fname env fname = convert_loop cd fname 0 fname (replicate (L + 1) None) 0 L"
      using assms(1) unfolding L_def convert_fname_def by (simp only: option.case)
    then show ?thesis unfolding c1 c2 .
  qed
  have W: "length s \<le> 1" if w: "write_at (replicate (L + 1) None) 0 w = Some b1"
      "write_at (take (L' + 1) b1 @ replicate (L' + 1 - length b1) None) L w' = Some b2"
      "int L' - (int L' - int (length w')) - int L \<ge> 0" "int L' - (int L' - int (length w')) - int L < int (length b2)"
      "read_string (b2[nat (int L' - (int L' - int (length w')) - int L) := Some NUL]) = Some s" for b1 b2 s
  proof -
    have "L + length w' \<le> L' + 1" using w(2) by (auto simp: write_at_def split: if_splits)
    moreover have "L' \<le> L + L" by (simp add: L'_def L_def)
    ultimately have "nat (int L' - (int L' - int (length w')) - int L) \<le> 1" using w(3) by linarith
    moreover have "length s \<le> nat (int L' - (int L' - int (length w')) - int L)" using w(3,4) by (intro read_string_short[OF w(5)]) linarith
    ultimately show ?thesis by linarith
  qed
  show ?thesis
  proof (cases "convert_fname env fname")
    case (Some s)
    then have "length s \<le> 1" unfolding E bind_eq_Some_conv
      by (elim exE conjE) (split if_splits, simp, rule W, auto simp only: not_less not_le de_Morgan_disj split: if_splits)
    then show ?thesis using Some by blast
  qed simp
qed

theorem convert_fname_growing_fails_witness:
  "convert_fname \<lparr>pathconf = \<lambda>p. PATHCONF 255, stat = \<lambda>p. None, lstat_S_ISDIR = \<lambda>p. None,
      iconv = Some (\<lambda>k s n. if k = 0 then ICONV_E2BIG 1 ''abcd'' else ICONV_OK ''efg'')\<rparr> ''xy'' = None"
proof -
  let ?cd = "\<lambda>k s n. if k = 0 then ICONV_E2BIG 1 ''abcd'' else ICONV_OK ''efg''"
  let ?env = "\<lparr>pathconf = \<lambda>p. PATHCONF 255, stat = \<lambda>p. None, lstat_S_ISDIR = \<lambda>p. None, iconv = Some ?cd\<rparr>"
  have "iconv ?env = Some ?cd" by simp
  from convert_fname_growing_fails[OF this, where fname = "''xy''" and n = 1 and w = "''abcd''" and w' = "''efg''"]
  have "convert_fname ?env ''xy'' = None \<or> (\<exists>s. convert_fname ?env ''xy'' = Some s \<and> length s \<le> 1)" by simp
  moreover have "\<not> (case convert_fname ?env ''xy'' of None \<Rightarrow> False | Some s \<Rightarrow> length s \<le> 1)" by code_simp
  ultimately show ?thesis by (auto split: option.splits)
qed

end
