(* ===== verification/Wget_Url_Queue.thy ===== *)
theory Wget_Url_Queue
  imports C_Prelude
begin

section \<open>The queue of URLs to load (wget/src/recur.c)\<close>

text \<open>
  A singly linked list with pointers to its first and last element. The elements live in an
  explicit store (\<open>q_heap\<close>); \<open>q_brk\<close> is the allocator's next unused address. Following a pointer
  to an element that is not allocated and an overflow of the counter do not return. The fields
  for internationalised names are left out, since the build disables them.
\<close>

record url_item =
  q_url :: string
  q_referer :: "string option"
  q_depth :: int
  q_html_allowed :: bool
  q_css_allowed :: bool

record queue_element = url_item +
  q_next :: "nat option"

record url_queue =
  q_head :: "nat option"
  q_tail :: "nat option"
  q_count :: int
  q_maxcount :: int
  q_heap :: "nat \<rightharpoonup> queue_element"
  q_brk :: nat

definition url_queue_new :: url_queue where
  "url_queue_new = \<lparr>q_head = None, q_tail = None, q_count = 0, q_maxcount = 0, q_heap = Map.empty, q_brk = 0\<rparr>"

definition url_enqueue :: "url_queue \<Rightarrow> url_item \<Rightarrow> url_queue run" where
  "url_enqueue queue x = do {
     let qel = q_brk queue;
     let heap = (q_heap queue)(qel \<mapsto> url_item.extend x (queue_element.fields None));
     let cnt = q_count queue + 1;
     (if in_int32 cnt then Some () else None);
     heap \<leftarrow> (case q_tail queue of
                None \<Rightarrow> Some heap
              | Some t \<Rightarrow> do { e \<leftarrow> heap t; Some (heap(t \<mapsto> e\<lparr>q_next := Some qel\<rparr>)) });
     Some \<lparr>q_head = (if q_head queue = None then Some qel else q_head queue), q_tail = Some qel,
       q_count = cnt, q_maxcount = (if cnt > q_maxcount queue then cnt else q_maxcount queue),
       q_heap = heap, q_brk = qel + 1\<rparr> }"

definition url_dequeue :: "url_queue \<Rightarrow> (url_item \<times> url_queue) option run" where
  \<comment> \<open>\<^term>\<open>Some None\<close> for the result false\<close>
  "url_dequeue queue =
     (case q_head queue of
        None \<Rightarrow> Some None
      | Some a \<Rightarrow> do {
          qel \<leftarrow> q_heap queue a;
          Some (Some (url_item.truncate qel,
            queue\<lparr>q_head := q_next qel, q_tail := (if q_next qel = None then None else q_tail queue),
              q_count := q_count queue - 1, q_heap := (q_heap queue)(a := None)\<rparr>)) })"

section \<open>First in, first out\<close>

fun chain :: "(nat \<rightharpoonup> queue_element) \<Rightarrow> nat option \<Rightarrow> nat list \<Rightarrow> bool" where
  "chain h p [] = (p = None)"
| "chain h p (a # as) = (p = Some a \<and> (\<exists>e. h a = Some e \<and> chain h (q_next e) as))"

definition queue_rep :: "url_queue \<Rightarrow> url_item list \<Rightarrow> bool" where
  \<comment> \<open>the queue holds the items, in this order, and no other element is allocated\<close>
  "queue_rep q xs \<longleftrightarrow>
     (\<exists>as. chain (q_heap q) (q_head q) as \<and> distinct as \<and> dom (q_heap q) = set as \<and>
        q_tail q = (if as = [] then None else Some (last as)) \<and> (\<forall>a\<in>set as. a < q_brk q) \<and>
        q_count q = int (length as) \<and> map (\<lambda>a. url_item.truncate (the (q_heap q a))) as = xs)"

lemma chain_upd: "b \<notin> set as \<Longrightarrow> chain (h(b := v)) p as = chain h p as"
  by (induction as arbitrary: p) auto

lemma chain_snoc:
  "chain h p as \<Longrightarrow> distinct as \<Longrightarrow> b \<notin> set as \<Longrightarrow> h b = Some e \<Longrightarrow> q_next e = None \<Longrightarrow> as \<noteq> [] \<Longrightarrow>
   chain (h(last as \<mapsto> (the (h (last as)))\<lparr>q_next := Some b\<rparr>)) p (as @ [b])"
proof (induction as arbitrary: p)
  case (Cons a as)
  show ?case
  proof (cases as)
    case Nil
    with Cons.prems show ?thesis by auto
  next
    case (Cons a' as')
    then have "last (a # as) = last as" "a \<noteq> last as" using Cons.prems(2) by auto
    moreover from Cons.prems obtain e' where "h a = Some e'" "chain h (q_next e') as" by auto
    ultimately show ?thesis using Cons.IH[of "q_next e'"] Cons.prems Cons by auto
  qed
qed simp

lemma truncate_extend: "url_item.truncate (url_item.extend x (queue_element.fields n)) = x"
  by (simp add: url_item.truncate_def url_item.extend_def queue_element.fields_def)

lemma truncate_next: "url_item.truncate (e\<lparr>q_next := n\<rparr>) = url_item.truncate e" for e :: queue_element
  by (simp add: url_item.truncate_def)

lemma next_extend: "q_next (url_item.extend x (queue_element.fields n)) = n"
  by (simp add: url_item.extend_def queue_element.fields_def)

lemma enqueue_ok:
  assumes rep: "queue_rep q xs" and len: "length xs < 2147483647"
  shows "\<exists>q'. url_enqueue q x = Some q' \<and> queue_rep q' (xs @ [x])"
proof -
  from rep obtain as where as: "chain (q_heap q) (q_head q) as" "distinct as" "dom (q_heap q) = set as"
    "q_tail q = (if as = [] then None else Some (last as))" "\<forall>a\<in>set as. a < q_brk q"
    "q_count q = int (length as)" "map (\<lambda>a. url_item.truncate (the (q_heap q a))) as = xs"
    unfolding queue_rep_def by blast
  let ?b = "q_brk q" and ?e = "url_item.extend x (queue_element.fields None) :: queue_element"
  let ?h = "(q_heap q)(?b \<mapsto> ?e)"
  have fresh: "?b \<notin> set as" using as(5) by auto
  have cnt: "in_int32 (q_count q + 1)" using as(6,7) len by (auto simp: in_int32_def)
  show ?thesis
  proof (cases "as = []")
    case True
    define q' where "q' = \<lparr>q_head = Some ?b, q_tail = Some ?b, q_count = 1, q_maxcount = (if 1 > q_maxcount q then 1 else q_maxcount q), q_heap = ?h, q_brk = ?b + 1\<rparr>"
    have "url_enqueue q x = Some q'" using True as cnt by (simp add: url_enqueue_def q'_def Let_def)
    moreover have "queue_rep q' (xs @ [x])"
      unfolding queue_rep_def using True as by (intro exI[of _ "[?b]"]) (auto simp: q'_def truncate_extend next_extend)
    ultimately show ?thesis by blast
  next
    case False
    let ?t = "last as" and ?h' = "?h(last as \<mapsto> (the (?h (last as)))\<lparr>q_next := Some ?b\<rparr>)"
    have t: "?t \<in> set as" "?t \<noteq> ?b" using last_in_set[OF False] fresh by metis+
    then obtain te where te: "q_heap q ?t = Some te" using as(3) by blast
    have head: "q_head q \<noteq> None" using as(1) False by (cases as) auto
    define q' where "q' = \<lparr>q_head = q_head q, q_tail = Some ?b, q_count = q_count q + 1,
      q_maxcount = (if q_count q + 1 > q_maxcount q then q_count q + 1 else q_maxcount q), q_heap = ?h', q_brk = ?b + 1\<rparr>"
    have "url_enqueue q x = Some q'" using False as(4) cnt te t head by (simp add: url_enqueue_def q'_def Let_def)
    moreover have "chain ?h (q_head q) as" using as(1) fresh by (simp add: chain_upd)
    then have "chain ?h' (q_head q) (as @ [?b])"
      by (rule chain_snoc[OF _ as(2) fresh _ _ False, where e = ?e]) (simp_all add: next_extend)
    moreover have "map (\<lambda>a. url_item.truncate (the (?h' a))) (as @ [?b]) = xs @ [x]"
      using as(7) fresh t te by (auto simp: truncate_extend truncate_next)
    moreover have "dom ?h' = set (as @ [?b])" using as(3) t(1) by auto
    ultimately have "queue_rep q' (xs @ [x])"
      unfolding queue_rep_def using as fresh by (intro exI[of _ "as @ [?b]"]) (auto simp: q'_def)
    with \<open>url_enqueue q x = Some q'\<close> show ?thesis by blast
  qed
qed

lemma queue_new_rep: "queue_rep url_queue_new []"
  by (simp add: queue_rep_def url_queue_new_def)

lemma dequeue_empty: "queue_rep q [] \<Longrightarrow> url_dequeue q = Some None"
  by (auto simp: queue_rep_def url_dequeue_def)

lemma dequeue_ok:
  assumes "queue_rep q (x # xs)"
  shows "\<exists>q'. url_dequeue q = Some (Some (x, q')) \<and> queue_rep q' xs"
proof -
  from assms[unfolded queue_rep_def] obtain as0 where as0: "chain (q_heap q) (q_head q) as0" "distinct as0" "dom (q_heap q) = set as0"
    "q_tail q = (if as0 = [] then None else Some (last as0))" "\<forall>b\<in>set as0. b < q_brk q"
    "q_count q = int (length as0)" "map (\<lambda>a. url_item.truncate (the (q_heap q a))) as0 = x # xs"
    by (elim exE conjE)
  from as0(7) obtain a as where "as0 = a # as" by (cases as0) auto
  note as = as0[unfolded this]
  from as(1) obtain e where e: "q_heap q a = Some e" "chain (q_heap q) (q_next e) as" "q_head q = Some a" by auto
  define q' where "q' = q\<lparr>q_head := q_next e, q_tail := (if q_next e = None then None else q_tail q),
      q_count := q_count q - 1, q_heap := (q_heap q)(a := None)\<rparr>"
  have "url_item.truncate e = x" using as(7) e(1) by simp
  then have "url_dequeue q = Some (Some (x, q'))" using e(1,3) by (simp add: url_dequeue_def q'_def)
  moreover have "queue_rep q' xs"
    unfolding queue_rep_def
  proof (intro exI[of _ as] conjI)
    show "chain (q_heap q') (q_head q') as"
      using e(2) as(2) by (simp add: q'_def chain_upd)
    show "q_tail q' = (if as = [] then None else Some (last as))"
      using e(2) as(4) by (cases as) (simp_all add: q'_def)
    have "map (\<lambda>a. url_item.truncate (the (q_heap q' a))) as = map (\<lambda>a. url_item.truncate (the (q_heap q a))) as"
      using as(2) by (intro map_cong) (auto simp: q'_def)
    also have "\<dots> = xs" using as(7) by simp
    finally show "map (\<lambda>a. url_item.truncate (the (q_heap q' a))) as = xs" .
    show "dom (q_heap q') = set as" using as(2,3) by (simp add: q'_def)
    show "\<forall>a\<in>set as. a < q_brk q'" using as(5) by (simp add: q'_def)
    show "q_count q' = int (length as)" using as(6) by (simp add: q'_def)
  qed (use as(2) in simp)
  ultimately show ?thesis by blast
qed

subsection \<open>The contract\<close>

text \<open>
  What the traversal relies on. A run of operations on any queue with these laws returns what the
  same run returns on a list.
\<close>

datatype 'x queue_op = Enqueue 'x | Dequeue

fun queue_run :: "('q \<Rightarrow> 'x \<Rightarrow> 'q run) \<Rightarrow> ('q \<Rightarrow> ('x \<times> 'q) option run) \<Rightarrow> 'x queue_op list \<Rightarrow> 'q \<Rightarrow> ('x option list \<times> 'q) run" where
  \<comment> \<open>the results of the dequeue operations\<close>
  "queue_run enq deq [] q = Some ([], q)"
| "queue_run enq deq (Enqueue x # ops) q = do { q \<leftarrow> enq q x; queue_run enq deq ops q }"
| "queue_run enq deq (Dequeue # ops) q = do {
     r \<leftarrow> deq q;
     (case r of
        None \<Rightarrow> do { (out, q) \<leftarrow> queue_run enq deq ops q; Some (None # out, q) }
      | Some (x, q) \<Rightarrow> do { (out, q) \<leftarrow> queue_run enq deq ops q; Some (Some x # out, q) }) }"

fun list_run :: "'x queue_op list \<Rightarrow> 'x list \<Rightarrow> 'x option list \<times> 'x list" where
  "list_run [] xs = ([], xs)"
| "list_run (Enqueue x # ops) xs = list_run ops (xs @ [x])"
| "list_run (Dequeue # ops) [] = (let (out, xs) = list_run ops [] in (None # out, xs))"
| "list_run (Dequeue # ops) (x # xs) = (let (out, xs) = list_run ops xs in (Some x # out, xs))"

locale fifo =
  fixes rep :: "'q \<Rightarrow> 'x list \<Rightarrow> bool" and new :: 'q and room :: nat
    and enq :: "'q \<Rightarrow> 'x \<Rightarrow> 'q run" and deq :: "'q \<Rightarrow> ('x \<times> 'q) option run"
  assumes new: "rep new []"
    and enq: "rep q xs \<Longrightarrow> length xs < room \<Longrightarrow> \<exists>q'. enq q x = Some q' \<and> rep q' (xs @ [x])"
    and deq_empty: "rep q [] \<Longrightarrow> deq q = Some None"
    and deq: "rep q (x # xs) \<Longrightarrow> \<exists>q'. deq q = Some (Some (x, q')) \<and> rep q' xs"
begin

lemma run_refines:
  assumes "rep q xs" "length xs + length ops \<le> room"
  shows "\<exists>q'. queue_run enq deq ops q = Some (fst (list_run ops xs), q') \<and> rep q' (snd (list_run ops xs))"
  using assms
proof (induction ops xs arbitrary: q rule: list_run.induct)
  case (1 xs)
  then show ?case by simp
next
  case (2 x ops xs)
  then obtain q' where "enq q x = Some q'" "rep q' (xs @ [x])" using enq[OF "2.prems"(1), of x] by auto
  with 2 show ?case by simp
next
  case (3 ops)
  from 3(1)[OF 3(2)] 3(3) obtain q' where "queue_run enq deq ops q = Some (fst (list_run ops []), q')" "rep q' (snd (list_run ops []))"
    by auto
  with deq_empty[OF 3(2)] show ?case by (auto simp: Let_def split: prod.splits)
next
  case (4 ops x xs)
  then obtain q1 where q1: "deq q = Some (Some (x, q1))" "rep q1 xs" using deq by blast
  from 4(1)[OF q1(2)] 4(3) obtain q' where "queue_run enq deq ops q1 = Some (fst (list_run ops xs), q')" "rep q' (snd (list_run ops xs))"
    by auto
  with q1 show ?case by (auto simp: Let_def split: prod.splits)
qed

end

interpretation url_fifo: fifo queue_rep url_queue_new 2147483647 url_enqueue url_dequeue
  by unfold_locales (simp_all add: queue_new_rep enqueue_ok dequeue_ok dequeue_empty)

text \<open>
  C13. The linked list is a queue: every sequence of fewer than \<open>2 ^ 31\<close> operations on a new queue
  returns, follows no dangling pointer and delivers the items in the order in which they were
  enqueued, with everything they carry; at the end exactly the elements that are still queued are
  allocated, so nothing leaks.
\<close>
theorem url_queue_fifo:
  assumes "length ops < 2147483648"
  shows "\<exists>q. queue_run url_enqueue url_dequeue ops url_queue_new = Some (fst (list_run ops []), q)
    \<and> queue_rep q (snd (list_run ops [])) \<and> card (dom (q_heap q)) = length (snd (list_run ops []))"
proof -
  from url_fifo.run_refines[OF url_fifo.new, of ops] assms obtain q where
    q: "queue_run url_enqueue url_dequeue ops url_queue_new = Some (fst (list_run ops []), q)" "queue_rep q (snd (list_run ops []))"
    by auto
  from q(2) have "card (dom (q_heap q)) = length (snd (list_run ops []))"
    unfolding queue_rep_def by (metis distinct_card length_map)
  with q show ?thesis by blast
qed

definition example_item :: "string \<Rightarrow> url_item" where
  "example_item u = \<lparr>q_url = u, q_referer = None, q_depth = 0, q_html_allowed = True, q_css_allowed = False\<rparr>"

theorem url_queue_fifo_witness:
  "\<exists>q. queue_run url_enqueue url_dequeue
     [Enqueue (example_item ''a''), Enqueue (example_item ''b''), Dequeue, Enqueue (example_item ''c''), Dequeue] url_queue_new
     = Some ([Some (example_item ''a''), Some (example_item ''b'')], q) \<and> queue_rep q [example_item ''c'']"
proof -
  let ?ops = "[Enqueue (example_item ''a''), Enqueue (example_item ''b''), Dequeue, Enqueue (example_item ''c''), Dequeue]"
  have "length ?ops < 2147483648" by simp
  from url_queue_fifo[OF this] show ?thesis by auto
qed

end
