(* ===== verification/Wget_Hash_Foreach.thy ===== *)
theory Wget_Hash_Foreach
  imports Wget_Hash_Map
begin

section \<open>Mapping over a table that changes (wget/src/hash.c)\<close>

text \<open>
  \<open>hash_table_for_each\<close> walks over the cells while the mapper may remove the entry it is called
  with. A removal rehashes the entries behind it, which can move an entry into the cell the walk
  stands on; the loop then repeats the cell. The proof shows that no entry escapes the walk: what
  a removal leaves in the cells before the current one was there before.

  The table and whatever else the mapper changes are one state. The pointer comparison
  \<open>c->key != key\<close> is a comparison of the keys, which agrees with it as long as the mapper does
  not put another copy of the current key.
\<close>

partial_function (option) for_each_from ::
  "('k \<Rightarrow> 'v \<Rightarrow> ('k, 'v) hash_table \<times> 'a \<Rightarrow> (bool \<times> ('k, 'v) hash_table \<times> 'a) run) \<Rightarrow>
   nat \<Rightarrow> nat \<Rightarrow> ('k, 'v) hash_table \<times> 'a \<Rightarrow> (('k, 'v) hash_table \<times> 'a) run" where
  "for_each_from fn limit c st =
     (if c \<ge> limit then Some st
      else case cells (fst st) ! c of
             None \<Rightarrow> for_each_from fn limit (c + 1) st
           | Some (key, val) \<Rightarrow> do {
               (stop, st) \<leftarrow> fn key val st;
               if stop then Some st
               else case cells (fst st) ! c of
                      None \<Rightarrow> for_each_from fn limit (c + 1) st
                    | Some (key', val') \<Rightarrow>
                        if key' \<noteq> key then for_each_from fn limit c st
                        else for_each_from fn limit (c + 1) st })"

declare for_each_from.simps [code]

definition hash_table_for_each ::
  "('k \<Rightarrow> 'v \<Rightarrow> ('k, 'v) hash_table \<times> 'a \<Rightarrow> (bool \<times> ('k, 'v) hash_table \<times> 'a) run) \<Rightarrow>
   ('k, 'v) hash_table \<times> 'a \<Rightarrow> (('k, 'v) hash_table \<times> 'a) run" where
  "hash_table_for_each fn st = for_each_from fn (ht_size (fst st)) 0 st"

subsection \<open>Where a removal leaves the entries\<close>

definition moved_back :: "('k \<times> 'v) option list \<Rightarrow> nat \<Rightarrow> nat \<Rightarrow> ('k \<times> 'v) option list \<Rightarrow> bool" where
  \<comment> \<open>every entry of \<open>cs\<close> stands where it stood in \<open>orig\<close> or has moved towards \<open>i\<close>, within the run of
      \<open>m\<close> occupied cells behind \<open>i\<close>\<close>
  "moved_back orig i m cs \<longleftrightarrow>
     (\<forall>p<length orig. \<forall>e. cs ! p = Some e \<longrightarrow> orig ! p = Some e \<or>
        (\<exists>s s0. s < s0 \<and> s0 \<le> m \<and> p = (i + s) mod length orig \<and> orig ! ((i + s0) mod length orig) = Some e))"

lemma rehash_moves_back:
  assumes ok: "chains_ok hf orig" and i: "i < length orig" and m: "m + 1 < length orig"
    and last: "orig ! ((i + (m + 1)) mod length orig) = None"
    and "length cs = length orig" "t \<le> m + 1"
    and "\<And>p. p < length orig \<Longrightarrow> orig ! p = None \<Longrightarrow> cs ! p = None"
    and "\<And>p. p < length orig \<Longrightarrow> cs ! p = None \<Longrightarrow> orig ! p = None \<or> (\<exists>s<t. p = (i + s) mod length orig)"
    and "\<And>s. t \<le> s \<Longrightarrow> s \<le> m + 1 \<Longrightarrow> cs ! ((i + s) mod length orig) = orig ! ((i + s) mod length orig)"
    and "moved_back orig i m cs" and "rehash_adjacent hf fuel cs ((i + t) mod length orig) = Some cs'"
  shows "moved_back orig i m cs'"
  using assms(5-)
proof (induction fuel arbitrary: cs t)
  case (Suc fuel)
  let ?n = "length orig" and ?c = "(i + t) mod length orig"
  note P = Suc.prems
  have clt: "?c < ?n" using mod_bound[OF i] .
  show ?case
  proof (cases "cs ! ?c")
    case None
    with P(7) P(6) show ?thesis by simp
  next
    case (Some e)
    obtain k v where e: "e = (k, v)" by (cases e)
    let ?h = "HASH_POSITION k hf ?n"
    from Some P(5)[of t] P(2) have o: "orig ! ?c = Some (k, v)" by (simp add: e)
    have tm: "t \<le> m" using P(2) o last by (metis Suc_eq_plus1 le_SucE option.distinct(1))
    from P(7) Some e obtain c' where c': "find_from (\<lambda>k'. k' = k) cs ?n ?h = Some c'"
      and rec: "rehash_adjacent hf fuel (if cs ! c' \<noteq> None then cs else cs[c' := Some (k, v), ?c := None]) (NEXT_CELL ?c ?n) = Some cs'"
      by (auto simp: P(1) bind_eq_Some_conv Let_def split: if_splits)
    have nxt: "NEXT_CELL ?c ?n = (i + Suc t) mod ?n" using clt by (simp add: NEXT_CELL_mod mod_Suc_eq)
    have ne: "(i + x) mod ?n \<noteq> (i + y) mod ?n" if "x \<noteq> y" "x \<le> m + 1" "y \<le> m + 1" for x y
      using mod_offset_inj[of i x ?n y] that m by auto
    from ok o clt obtain d where d: "d < ?n" "(?h + d) mod ?n = ?c"
      "\<And>d'. d' < d \<Longrightarrow> orig ! ((?h + d') mod ?n) \<noteq> None" unfolding chains_ok_def on_chain_def by metis
    have h: "?h < length cs" unfolding P(1) HASH_POSITION_def by (rule mod_bound[OF i])
    obtain dn where dn: "dn < ?n" "c' = (?h + dn) mod ?n" "stops (\<lambda>k'. k' = k) (cs ! c')"
      "\<And>d'. d' < dn \<Longrightarrow> \<not> stops (\<lambda>k'. k' = k) (cs ! ((?h + d') mod ?n))"
      using find_from_Some[OF h c'] unfolding P(1) by blast
    have c'lt: "c' < ?n" unfolding dn(2) using mod_bound[OF i] .
    have dnd: "dn \<le> d" using dn(4)[of d] d(2) Some e by (metis fst_conv not_less stops_simps(2))
    show ?thesis
    proof (cases "cs ! c' = None")
      case False
      show ?thesis
      proof (rule Suc.IH[OF P(1) _ P(3) _ _ P(6)])
        show "rehash_adjacent hf fuel cs ((i + Suc t) mod ?n) = Some cs'" using rec False nxt by simp
        show "orig ! p = None \<or> (\<exists>s<Suc t. p = (i + s) mod ?n)" if "p < ?n" "cs ! p = None" for p
          using P(4)[OF that] less_SucI by blast
        show "cs ! ((i + s) mod ?n) = orig ! ((i + s) mod ?n)" if "Suc t \<le> s" "s \<le> m + 1" for s using P(5)[of s] that by simp
      qed (use tm in auto)
    next
      case True
      let ?cs = "cs[c' := Some (k, v), ?c := None]"
      have "dn \<noteq> d" using True d(2) dn(2) Some by auto
      with dnd have "orig ! c' \<noteq> None" using d(3)[of dn] dn(2) by simp
      with P(4)[OF c'lt True] obtain s where s: "s < t" "c' = (i + s) mod ?n" by blast
      have cc: "c' \<noteq> ?c" using True Some by auto
      show ?thesis
      proof (rule Suc.IH)
        show "length ?cs = ?n" by (simp add: P(1))
        show "Suc t \<le> m + 1" using tm by simp
        show "rehash_adjacent hf fuel ?cs ((i + Suc t) mod ?n) = Some cs'" using rec True nxt by simp
        show "?cs ! p = None" if "p < ?n" "orig ! p = None" for p
          using that P(3)[OF that] \<open>orig ! c' \<noteq> None\<close> by (cases "p = ?c"; cases "p = c'") (auto simp: P(1))
        show "orig ! p = None \<or> (\<exists>s<Suc t. p = (i + s) mod ?n)" if "p < ?n" "?cs ! p = None" for p
        proof (cases "p = ?c")
          case False
          then have "p \<noteq> c'" using that c'lt P(1) by auto
          with False that(2) have "cs ! p = None" by simp
          with P(4)[OF that(1)] less_SucI show ?thesis by blast
        qed auto
        show "?cs ! ((i + s') mod ?n) = orig ! ((i + s') mod ?n)" if "Suc t \<le> s'" "s' \<le> m + 1" for s'
        proof -
          have "(i + s') mod ?n \<noteq> ?c" "(i + s') mod ?n \<noteq> c'"
            using ne[of s' t] ne[of s' s] s that tm by auto
          with P(5)[of s'] that show ?thesis by simp
        qed
        show "moved_back orig i m ?cs"
          unfolding moved_back_def
        proof (intro allI impI)
          fix p e' assume p: "p < ?n" "?cs ! p = Some e'"
          have pc: "p \<noteq> ?c" using p clt P(1) by auto
          show "orig ! p = Some e' \<or> (\<exists>s s0. s < s0 \<and> s0 \<le> m \<and> p = (i + s) mod ?n \<and> orig ! ((i + s0) mod ?n) = Some e')"
          proof (cases "p = c'")
            case True
            with p pc c'lt P(1) have "e' = (k, v)" by auto
            with True s tm o show ?thesis by blast
          next
            case False
            with pc p have "cs ! p = Some e'" by simp
            with P(6) p(1) show ?thesis unfolding moved_back_def by blast
          qed
        qed
      qed
    qed
  qed
qed simp

lemma moved_back_before:
  assumes "moved_back orig i m cs" "m < length orig" "i < length orig" "p < i" "cs ! p = Some e"
  shows "\<exists>p0<i. orig ! p0 = Some e"
proof (cases "orig ! p = Some e")
  case False
  let ?n = "length orig"
  have "p < ?n" using assms(3,4) by simp
  with False assms(1,5) obtain s s0 where s: "s < s0" "s0 \<le> m" "p = (i + s) mod ?n" "orig ! ((i + s0) mod ?n) = Some e"
    unfolding moved_back_def by blast
  have "\<not> i + s < ?n" using s(3) assms(4) by auto
  then have "?n \<le> i + s0" "i + s0 - ?n < ?n" using s(1,2) assms(2,3) by auto
  then have "(i + s0) mod ?n = i + s0 - ?n" by (simp add: le_mod_geq)
  moreover have "i + s0 - ?n < i" using s(2) assms(2,3) \<open>?n \<le> i + s0\<close> by linarith
  ultimately show ?thesis using s(4) by auto
qed (use assms in auto)

context hash_keys begin
lemma remove_at:
  fixes ht :: "('k, 'v) hash_table"
  assumes inv: "ht_inv hf tf ht" and c: "c < ht_size ht" "cells ht ! c = Some (k, v)"
  obtains ht' where "hash_table_remove ht k = Some (True, ht')" "ht_inv hf tf ht'" "ht_size ht' = ht_size ht"
    "ht_count ht' < ht_count ht" "set (ht_entries ht') = set (ht_entries ht) - {(k, v)}"
    "\<forall>p e. p < c \<longrightarrow> cells ht' ! p = Some e \<longrightarrow> (\<exists>p0<c. cells ht ! p0 = Some e)"
    "\<forall>v'. cells ht' ! c \<noteq> Some (k, v')"
proof -
  note D = ht_invD[OF inv]
  let ?cs = "(cells ht)[c := None]"
  have clen: "c < length (cells ht)" using c(1) D(3) by simp
  have entry: "(k, v) \<in> set (ht_entries ht)" unfolding ht_entries_def in_occupied using clen c(2) by blast
  then have find: "ht_find ht k = Some (k, v)" using ht_find_iff[OF inv, of k "(k, v)"] tf_refl by simp
  obtain c0 d where c0: "find_cell ht k = Some c0" "c0 < ht_size ht" "cells ht ! c0 = ht_find ht k"
    using find_cell_ok[OF inv, of k] by blast
  have "c0 = c" using keys_uniqueD[OF D(11), of c0 k v c k v] c0 find c clen D(3) tf_refl by simp
  from remove_ok[OF inv, of k] find obtain ht' where ht': "hash_table_remove ht k = Some (True, ht')" "ht_inv hf tf ht'"
    "\<And>k'. ht_find ht' k' = (if tf k k' then None else ht_find ht k')" "ht_count ht' = ht_count ht - 1" by auto
  from ht'(1) c0(1) find \<open>c0 = c\<close> c(2) obtain cs' where
    cs': "rehash_adjacent hf (ht_size ht) ?cs (NEXT_CELL c (ht_size ht)) = Some cs'"
    "ht' = ht\<lparr>cells := cs', ht_count := ht_count ht - 1\<rparr>"
    by (auto simp: hash_table_remove_def bind_eq_Some_conv D(1))
  from empty_cell_ex[OF D(13)] obtain j0 where j0: "j0 < length (cells ht)" "cells ht ! j0 = None" by blast
  obtain m where m: "rehash_state hf tf ?cs c m 1"
    using rehash_state_init[OF D(10,11) clen _ j0] c(2) by auto
  note R = rehash_stateD[OF m]
  have mlen: "m + 1 < length (cells ht)" using R(1) by (simp only: length_list_update)
  have ne: "cells ht \<noteq> []" using clen by auto
  have last: "cells ht ! ((c + (m + 1)) mod length (cells ht)) = None"
  proof -
    have "(c + (m + 1)) mod length (cells ht) \<noteq> c"
      using mod_offset_inj[of c "m + 1" "length (cells ht)" 0] mlen clen ne by auto
    with R(3) show ?thesis by simp
  qed
  have mb: "moved_back (cells ht) c m cs'"
  proof (rule rehash_moves_back[OF D(10) clen _ last, of ?cs 1])
    show "rehash_adjacent hf (ht_size ht) ?cs ((c + 1) mod length (cells ht)) = Some cs'"
      using cs'(1) NEXT_CELL_mod[OF c(1)] D(3) by simp
    show "(cells ht)[c := None] ! p = None" if "p < length (cells ht)" "cells ht ! p = None" for p
      using that by (cases "p = c") auto
    show "cells ht ! p = None \<or> (\<exists>s<1. p = (c + s) mod length (cells ht))"
      if "p < length (cells ht)" "?cs ! p = None" for p
      using that clen by (cases "p = c") auto
    show "?cs ! ((c + s) mod length (cells ht)) = cells ht ! ((c + s) mod length (cells ht))" if "1 \<le> s" "s \<le> m + 1" for s
    proof -
      have "(c + s) mod length (cells ht) \<noteq> c"
        using mod_offset_inj[of c s "length (cells ht)" 0] mlen clen ne that by auto
      then show ?thesis by simp
    qed
    show "moved_back (cells ht) c m ?cs"
      unfolding moved_back_def using clen by (metis nth_list_update option.distinct(1))
  qed (use R(1) in auto)
  show thesis
  proof (rule that[OF ht'(1,2)])
    show "ht_size ht' = ht_size ht" by (simp add: cs'(2))
    have "ht_count ht > 0" using entry D(4) by (auto simp: length_pos_if_in_set)
    then show "ht_count ht' < ht_count ht" using ht'(4) by simp
    show "set (ht_entries ht') = set (ht_entries ht) - {(k, v)}"
    proof (rule set_eqI)
      fix e
      have *: "e \<in> set (ht_entries h) \<longleftrightarrow> ht_find h (fst e) = Some e" if "ht_inv hf tf h" for h :: "('k, 'v) hash_table"
        using ht_find_iff[OF that, of "fst e" e] tf_refl by simp
      have "ht_find ht (fst e) = Some (k, v)" if "tf k (fst e)"
        using ht_find_iff[OF inv, of "fst e" "(k, v)"] entry that tf_sym by simp
      then show "e \<in> set (ht_entries ht') \<longleftrightarrow> e \<in> set (ht_entries ht) - {(k, v)}"
        unfolding *[OF ht'(2)] ht'(3) using *[OF inv] tf_refl by auto
    qed
    show "\<forall>p e. p < c \<longrightarrow> cells ht' ! p = Some e \<longrightarrow> (\<exists>p0<c. cells ht ! p0 = Some e)"
      using moved_back_before[OF mb _ clen] mlen by (simp add: cs'(2))
    show "\<forall>v'. cells ht' ! c \<noteq> Some (k, v')"
    proof (intro allI notI)
      fix v'
      assume "cells ht' ! c = Some (k, v')"
      then have "(k, v') \<in> set (ht_entries ht')"
        unfolding ht_entries_def in_occupied using c(1) ht_invD(3)[OF ht'(2)] \<open>ht_size ht' = ht_size ht\<close> by metis
      then have "ht_find ht' k = Some (k, v')" using ht_find_iff[OF ht'(2), of k "(k, v')"] tf_refl by simp
      then show False using ht'(3)[of k] tf_refl by simp
    qed
  qed
qed

lemma for_each_remove_from:
  fixes P :: "'k \<Rightarrow> 'v \<Rightarrow> bool"
  assumes fn: "\<And>k v ht a. fn k v (ht, a) = (if P k v then map_option (\<lambda>(r, ht). (False, ht, g k v a)) (hash_table_remove ht k) else Some (False, ht, a))"
    and "ht_inv hf tf ht" "c \<le> ht_size ht" "\<forall>p k v. p < c \<longrightarrow> cells ht ! p = Some (k, v) \<longrightarrow> \<not> P k v"
  shows "\<exists>ht' a'. for_each_from fn (ht_size ht) c (ht, a) = Some (ht', a') \<and> ht_inv hf tf ht'
    \<and> set (ht_entries ht') = {e \<in> set (ht_entries ht). \<not> P (fst e) (snd e)} \<and> ht_count ht' \<le> ht_count ht"
  using assms(2-)
proof (induction "ht_size ht - c + ht_count ht" arbitrary: ht a c rule: less_induct)
  case less
  note D = ht_invD[OF less.prems(1)]
  show ?case
  proof (cases "c = ht_size ht")
    case True
    have "\<not> P (fst e) (snd e)" if "e \<in> set (ht_entries ht)" for e
    proof -
      from that obtain p where "p < length (cells ht)" "cells ht ! p = Some (fst e, snd e)"
        unfolding ht_entries_def in_occupied by auto
      with less.prems(3) D(3) True show ?thesis by simp
    qed
    with True less.prems(1) show ?thesis by (subst for_each_from.simps) auto
  next
    case False
    with less.prems(2) have clt: "c < ht_size ht" by simp
    have pass: ?thesis if step: "for_each_from fn (ht_size ht) c (ht, a) = for_each_from fn (ht_size ht) (c + 1) (ht, a)"
      and ok: "\<And>k v. cells ht ! c = Some (k, v) \<Longrightarrow> \<not> P k v"
    proof -
      have "\<forall>p k v. p < c + 1 \<longrightarrow> cells ht ! p = Some (k, v) \<longrightarrow> \<not> P k v"
        using ok less.prems(3) by (metis less_antisym Suc_eq_plus1)
      with less.hyps[of ht "c + 1" a] less.prems(1) clt show ?thesis unfolding step by simp
    qed
    show ?thesis
    proof (cases "cells ht ! c")
      case None
      with clt show ?thesis by (intro pass) (subst for_each_from.simps, simp_all)
    next
      case (Some e)
      obtain k v where e: "e = (k, v)" by (cases e)
      show ?thesis
      proof (cases "P k v")
        case False
        with clt Some e fn show ?thesis by (intro pass) (subst for_each_from.simps, simp_all)
      next
        case True
        have cell: "cells ht ! c = Some (k, v)" using Some e by simp
        obtain ht' where
          ht': "hash_table_remove ht k = Some (True, ht')" "ht_inv hf tf ht'" "ht_size ht' = ht_size ht"
          "ht_count ht' < ht_count ht" "set (ht_entries ht') = set (ht_entries ht) - {(k, v)}"
          "\<forall>p e. p < c \<longrightarrow> cells ht' ! p = Some e \<longrightarrow> (\<exists>p0<c. cells ht ! p0 = Some e)"
          "\<forall>v'. cells ht' ! c \<noteq> Some (k, v')"
          by (rule remove_at[OF less.prems(1) clt cell])
        define c1 where "c1 = (if cells ht' ! c = None then c + 1 else c)"
        have step: "for_each_from fn (ht_size ht) c (ht, a) = for_each_from fn (ht_size ht') c1 (ht', g k v a)"
          using clt cell fn[of k v ht a] True ht'(1,3) ht'(7)
          by (subst for_each_from.simps) (auto simp: c1_def split: option.splits)
        have no: "\<forall>p k' v'. p < c1 \<longrightarrow> cells ht' ! p = Some (k', v') \<longrightarrow> \<not> P k' v'"
        proof (intro allI impI)
          fix p k' v' assume p: "p < c1" "cells ht' ! p = Some (k', v')"
          then have "p < c" by (cases "p = c") (auto simp: c1_def split: if_splits)
          with ht'(6) p(2) obtain p0 where "p0 < c" "cells ht ! p0 = Some (k', v')" by blast
          with less.prems(3) show "\<not> P k' v'" by blast
        qed
        have lt: "ht_size ht' - c1 + ht_count ht' < ht_size ht - c + ht_count ht" and le: "c1 \<le> ht_size ht'"
          using ht'(3,4) clt by (auto simp: c1_def)
        obtain ht'' a' where "for_each_from fn (ht_size ht) c (ht, a) = Some (ht'', a')" "ht_inv hf tf ht''"
          "set (ht_entries ht'') = {e \<in> set (ht_entries ht'). \<not> P (fst e) (snd e)}" "ht_count ht'' \<le> ht_count ht'"
          using less.hyps[OF lt ht'(2) le no, where a = "g k v a"] unfolding step by auto
        moreover have "{e \<in> set (ht_entries ht'). \<not> P (fst e) (snd e)} = {e \<in> set (ht_entries ht). \<not> P (fst e) (snd e)}"
          unfolding ht'(5) using True by auto
        ultimately show ?thesis using ht'(4) by auto
      qed
    qed
  qed
qed

lemma for_each_remove:
  fixes P :: "'k \<Rightarrow> 'v \<Rightarrow> bool"
  assumes fn: "\<And>k v ht a. fn k v (ht, a) = (if P k v then map_option (\<lambda>(r, ht). (False, ht, g k v a)) (hash_table_remove ht k) else Some (False, ht, a))"
    and inv: "ht_inv hf tf ht"
  obtains ht' a' where "hash_table_for_each fn (ht, a) = Some (ht', a')" "ht_inv hf tf ht'" "ht_count ht' \<le> ht_count ht"
    "ht_find ht' = (\<lambda>k. case ht_find ht k of Some (k', v) \<Rightarrow> if P k' v then None else Some (k', v) | None \<Rightarrow> None)"
proof -
  from for_each_remove_from[of fn P g, OF fn inv, of 0 a] obtain ht' a' where
    ht': "hash_table_for_each fn (ht, a) = Some (ht', a')" "ht_inv hf tf ht'" "ht_count ht' \<le> ht_count ht"
    "set (ht_entries ht') = {e \<in> set (ht_entries ht). \<not> P (fst e) (snd e)}" by (auto simp: hash_table_for_each_def)
  have "ht_find ht' k = (case ht_find ht k of Some (k', v) \<Rightarrow> if P k' v then None else Some (k', v) | None \<Rightarrow> None)" for k
  proof (rule ht_find_eqI[OF ht'(2)])
    fix e
    show "e \<in> set (ht_entries ht') \<and> tf k (fst e) \<longleftrightarrow>
        (case ht_find ht k of Some (k', v) \<Rightarrow> if P k' v then None else Some (k', v) | None \<Rightarrow> None) = Some e"
      unfolding ht'(4) using ht_find_iff[OF inv, of k e] by (auto split: option.splits if_splits)
  qed
  then have "ht_find ht' = (\<lambda>k. case ht_find ht k of Some (k', v) \<Rightarrow> if P k' v then None else Some (k', v) | None \<Rightarrow> None)"
    by (rule ext)
  with ht'(1-3) show thesis by (rule that)
qed

end

end
