(* ===== verification/Wget_String_Table.thy ===== *)
theory Wget_String_Table
  imports Wget_Hash_Foreach
begin

section \<open>Tables and sets of strings (wget/src/hash.c, utils.c)\<close>

text \<open>
  Tables made by \<open>make_string_hash_table\<close> compare their keys as strings, so such a table is a plain
  map (\<open>smap\<close>). The clients of the tables (the books of downloads, the blacklist of the recursive
  retrieval, the broken links) are verified against the laws collected here; they are a contract
  (\<open>string_map\<close>) that the hash table fulfils. The string sets of \<open>utils.c\<close> are tables whose values
  are all \<open>"1"\<close>.
\<close>

definition smap :: "(string, 'v) hash_table \<Rightarrow> string \<Rightarrow> 'v option" where
  "smap ht k = map_option snd (ht_find ht k)"

definition str_inv :: "(string, 'v) hash_table \<Rightarrow> bool" where
  "str_inv ht = ht_inv hash_string cmp_string ht"

definition capacity :: nat where
  \<comment> \<open>a table with fewer entries accepts another one\<close>
  "capacity = 805306367"

subsection \<open>String sets\<close>

definition string_set_add :: "(string, string) hash_table \<Rightarrow> string \<Rightarrow> (string, string) hash_table run" where
  "string_set_add ht s = do {
     found \<leftarrow> hash_table_contains ht s;
     if found then Some ht else hash_table_put ht s ''1'' }"

definition string_set_contains :: "(string, string) hash_table \<Rightarrow> string \<Rightarrow> bool run" where
  "string_set_contains ht s = hash_table_contains ht s"

definition string_set_to_array :: "(string, string) hash_table \<Rightarrow> string list" where
  "string_set_to_array ht = map fst (hash_table_drain ht)"

subsection \<open>The contract\<close>

locale string_map =
  fixes invar :: "'t \<Rightarrow> bool" and lookup :: "'t \<Rightarrow> string \<Rightarrow> 'v option" and cnt :: "'t \<Rightarrow> nat" and room :: nat
    and get :: "'t \<Rightarrow> string \<Rightarrow> 'v option run" and get_pair :: "'t \<Rightarrow> string \<Rightarrow> (string \<times> 'v) option run"
    and contains :: "'t \<Rightarrow> string \<Rightarrow> bool run"
    and put :: "'t \<Rightarrow> string \<Rightarrow> 'v \<Rightarrow> 't run" and rem :: "'t \<Rightarrow> string \<Rightarrow> (bool \<times> 't) run"
  assumes get: "invar t \<Longrightarrow> get t k = Some (lookup t k)"
    and get_pair: "invar t \<Longrightarrow> get_pair t k = Some (map_option (Pair k) (lookup t k))"
    and contains: "invar t \<Longrightarrow> contains t k = Some (lookup t k \<noteq> None)"
    and put_defined: "invar t \<Longrightarrow> cnt t < room \<or> lookup t k \<noteq> None \<Longrightarrow> \<exists>t'. put t k v = Some t'"
    and put: "invar t \<Longrightarrow> put t k v = Some t' \<Longrightarrow> invar t' \<and> lookup t' = (lookup t)(k \<mapsto> v) \<and>
      cnt t' = (if lookup t k = None then Suc (cnt t) else cnt t)"
    and rem: "invar t \<Longrightarrow> \<exists>t'. rem t k = Some (lookup t k \<noteq> None, t') \<and> invar t' \<and> lookup t' = (lookup t)(k := None) \<and>
      cnt t' \<le> cnt t"
begin

lemma put_obtain:
  assumes "invar t" "cnt t < room"
  obtains t' where "put t k v = Some t'" "invar t'" "lookup t' = (lookup t)(k \<mapsto> v)" "cnt t' \<le> Suc (cnt t)"
proof -
  from put_defined[OF assms(1)] assms(2) obtain t' where t': "put t k v = Some t'" by blast
  with put[OF assms(1) t'] that show thesis by auto
qed

lemma replace:
  \<comment> \<open>removing a key and putting it again\<close>
  assumes "invar t" "cnt t < room"
  obtains r t1 t' where "rem t k = Some (r, t1)" "put t1 k v = Some t'" "invar t'" "lookup t' = (lookup t)(k \<mapsto> v)" "cnt t' \<le> Suc (cnt t)"
proof -
  from rem[OF assms(1), of k] obtain t1 where t1: "rem t k = Some (lookup t k \<noteq> None, t1)" "invar t1" "lookup t1 = (lookup t)(k := None)" "cnt t1 \<le> cnt t"
    by blast
  from put_obtain[OF t1(2), of k v] t1(4) assms(2) obtain t' where "put t1 k v = Some t'" "invar t'" "lookup t' = (lookup t1)(k \<mapsto> v)" "cnt t' \<le> Suc (cnt t1)"
    by auto
  with t1 that show thesis by fastforce
qed

end

lemma str_find:
  assumes "str_inv ht"
  shows "ht_find ht k = map_option (Pair k) (smap ht k)"
proof (cases "ht_find ht k")
  case (Some e)
  with string_keys.ht_find_iff[OF assms[unfolded str_inv_def], of k e] show ?thesis
    by (cases e) (simp add: smap_def cmp_string_def)
qed (simp add: smap_def)

lemma distinct_map_fst_sorted: "sorted_wrt (\<lambda>a b. fst a \<noteq> fst b) xs = distinct (map fst xs)"
  by (induction xs) auto

interpretation str: string_map str_inv smap ht_count capacity
  hash_table_get hash_table_get_pair hash_table_contains hash_table_put hash_table_remove
proof (unfold_locales, goal_cases)
  case (1 t k)
  then show ?case by (simp add: str_inv_def smap_def string_keys.get_ok)
next
  case (2 t k)
  then show ?case using str_find[OF 2] by (simp add: str_inv_def string_keys.get_pair_ok)
next
  case (3 t k)
  then show ?case by (simp add: str_inv_def smap_def string_keys.contains_ok)
next
  case (4 t k v)
  then show ?case
    using string_keys.put_total[of t k v] string_keys.put_old[of t k v] by (auto simp: str_inv_def smap_def capacity_def)
next
  case (5 t k v t')
  note P = string_keys.put_ok[OF 5[unfolded str_inv_def]]
  have "smap t' = (smap t)(k \<mapsto> v)"
    using P(2) by (auto simp: smap_def fun_eq_iff cmp_string_def)
  then show ?case using P(1,3) by (simp add: str_inv_def smap_def)
next
  case (6 t k)
  from string_keys.remove_ok[OF 6[unfolded str_inv_def], of k] obtain t' where
    t': "hash_table_remove t k = Some (ht_find t k \<noteq> None, t')" "ht_inv hash_string cmp_string t'"
    "\<And>k'. ht_find t' k' = (if cmp_string k k' then None else ht_find t k')"
    "ht_count t' = (if ht_find t k = None then ht_count t else ht_count t - 1)" by blast
  have "smap t' = (smap t)(k := None)" using t'(3) by (auto simp: smap_def fun_eq_iff cmp_string_def)
  with t' show ?case by (intro exI[of _ t']) (simp add: str_inv_def smap_def)
qed

lemma count_card:
  assumes "str_inv ht"
  shows "finite (dom (smap ht))" "ht_count ht = card (dom (smap ht))"
proof -
  note D = ht_invD[OF assms[unfolded str_inv_def]]
  have d: "distinct (map fst (ht_entries ht))"
    using string_keys.keys_unique_sorted[OF D(11)]
    by (simp add: ht_entries_def distinct_map_fst_sorted cmp_string_def)
  have "dom (smap ht) = fst ` set (ht_entries ht)"
    using string_keys.ht_find_None[OF assms[unfolded str_inv_def]] by (auto simp: dom_def smap_def cmp_string_def)
  then show "finite (dom (smap ht))" "ht_count ht = card (dom (smap ht))"
    using d D(4) distinct_card[OF d] by simp_all
qed

lemma make_string_table:
  obtains ht :: "(string, 'v) hash_table" where "make_string_hash_table 0 = Some ht" "str_inv ht" "smap ht = Map.empty" "ht_count ht = 0"
proof -
  obtain ht :: "(string, 'v) hash_table" where ht: "hash_table_new 0 hash_string cmp_string = Some ht"
    using hash_table_new_0 by blast
  note N = string_keys.new_ok[OF ht]
  have "smap ht = Map.empty" using N(2) by (simp add: smap_def ht_find_def fun_eq_iff)
  with ht N show thesis by (intro that[of ht]) (auto simp: make_string_hash_table_def str_inv_def ht_inv_def)
qed

lemma str_for_each_remove:
  assumes fn: "\<And>k v ht a. fn k v (ht, a) = (if P k v then map_option (\<lambda>(r, ht). (False, ht, g k v a)) (hash_table_remove ht k) else Some (False, ht, a))"
    and inv: "str_inv ht"
  obtains ht' a' where "hash_table_for_each fn (ht, a) = Some (ht', a')" "str_inv ht'" "ht_count ht' \<le> ht_count ht"
    "smap ht' = (\<lambda>k. case smap ht k of Some v \<Rightarrow> if P k v then None else Some v | None \<Rightarrow> None)"
proof -
  obtain ht' a' where h: "hash_table_for_each fn (ht, a) = Some (ht', a')" "ht_inv hash_string cmp_string ht'" "ht_count ht' \<le> ht_count ht"
    "ht_find ht' = (\<lambda>k. case ht_find ht k of Some (k', v) \<Rightarrow> if P k' v then None else Some (k', v) | None \<Rightarrow> None)"
    by (rule string_keys.for_each_remove[of fn P g, OF fn inv[unfolded str_inv_def]])
  have "smap ht' k = (case smap ht k of Some v \<Rightarrow> if P k v then None else Some v | None \<Rightarrow> None)" for k
    using h(4) str_find[OF inv, of k] by (cases "smap ht k") (auto simp: smap_def)
  with h that show thesis by (auto simp: str_inv_def fun_eq_iff)
qed

lemma set_add_ok:
  assumes "str_inv ht" "ht_count ht < capacity"
  obtains ht' where "string_set_add ht s = Some ht'" "str_inv ht'" "dom (smap ht') = insert s (dom (smap ht))"
    "ht_count ht' = (if s \<in> dom (smap ht) then ht_count ht else Suc (ht_count ht))"
proof (cases "smap ht s")
  case None
  from str.put_defined[OF assms(1)] assms(2) obtain ht' where p: "hash_table_put ht s ''1'' = Some ht'" by blast
  with str.put[OF assms(1) p] None show thesis
    by (intro that[of ht']) (auto simp: string_set_add_def str.contains assms)
next
  case (Some v)
  with assms show thesis by (intro that[of ht]) (auto simp: string_set_add_def str.contains)
qed

lemma set_add_Some:
  assumes "str_inv ht" "string_set_add ht s = Some ht'"
  shows "str_inv ht'" "dom (smap ht') = insert s (dom (smap ht))"
    "ht_count ht' = (if s \<in> dom (smap ht) then ht_count ht else Suc (ht_count ht))"
proof -
  have "ht' = ht \<and> s \<in> dom (smap ht) \<or> hash_table_put ht s ''1'' = Some ht' \<and> smap ht s = None"
    using assms(2) by (auto simp: string_set_add_def str.contains[OF assms(1)] split: if_splits)
  then show "str_inv ht'" "dom (smap ht') = insert s (dom (smap ht))"
    "ht_count ht' = (if s \<in> dom (smap ht) then ht_count ht else Suc (ht_count ht))"
    using str.put[OF assms(1), of s "''1''" ht'] assms(1) by auto
qed

lemma set_contains_ok: "str_inv ht \<Longrightarrow> string_set_contains ht s = Some (s \<in> dom (smap ht))"
  by (auto simp: string_set_contains_def str.contains)

end
