(* ===== verification/Wget_Downloads.thy ===== *)
theory Wget_Downloads
  imports Wget_String_Table
begin

section \<open>The books of downloaded files (wget/src/convert.c)\<close>

text \<open>
  Which URL was saved to which file: the two tables \<open>dl_file_url_map\<close> and \<open>dl_url_file_map\<close>, the
  sets of downloaded HTML and CSS files and the table of files with a changed extension. The
  static tables are NULL until the first registration (\<^term>\<open>None\<close> here). The retrieval code
  reads and updates these books, the link converter reads them.
\<close>

datatype downloaded_file_t =
  FILE_NOT_ALREADY_DOWNLOADED | FILE_DOWNLOADED_NORMALLY | FILE_DOWNLOADED_AND_HTML_EXTENSION_ADDED | CHECK_FOR_FILE

type_synonym 'v string_table = "(string, 'v) hash_table option" \<comment> \<open>a static table, NULL at first\<close>

record dl_state =
  dl_file_url_map :: "string string_table"
  dl_url_file_map :: "string string_table"
  downloaded_html_set :: "string string_table"
  downloaded_css_set :: "string string_table"
  downloaded_files_hash :: "downloaded_file_t string_table"

definition ensure :: "'v string_table \<Rightarrow> (string, 'v) hash_table run" where
  \<comment> \<open>\<open>if (!t) t = make_string_hash_table (0);\<close>\<close>
  "ensure t = (case t of None \<Rightarrow> make_string_hash_table 0 | Some ht \<Rightarrow> Some ht)"

definition ENSURE_TABLES_EXIST :: "dl_state \<Rightarrow> ((string, string) hash_table \<times> (string, string) hash_table) run" where
  "ENSURE_TABLES_EXIST d = do {
     fu \<leftarrow> ensure (dl_file_url_map d);
     uf \<leftarrow> ensure (dl_url_file_map d);
     Some (fu, uf) }"

fun common_prefix :: "string \<Rightarrow> string \<Rightarrow> nat" where
  "common_prefix (a # s1) (b # s2) = (if a = b then Suc (common_prefix s1 s2) else 0)"
| "common_prefix s1 s2 = 0"

definition match_except_index :: "string \<Rightarrow> string \<Rightarrow> bool" where
  "match_except_index s1 s2 =
     (let i = common_prefix s1 s2; r1 = drop i s1; r2 = drop i s2 in
      if i = 0 then False
      else if r1 = [] \<and> r2 = [] then True
      else if r1 \<noteq> [] \<and> r2 \<noteq> [] then False
      else
        let (whole, lng) = (if r1 \<noteq> [] then (s1, r1) else (s2, r2));
            lng = (if hd lng \<noteq> CHR ''/'' then drop (i - 1) whole else lng)
        in if lng = ''/'' then True else lng = ''/index.html'')"

definition dissociate_urls_from_file_mapper ::
  "string \<Rightarrow> string \<Rightarrow> string \<Rightarrow> (string, string) hash_table \<times> unit \<Rightarrow> (bool \<times> (string, string) hash_table \<times> unit) run" where
  "dissociate_urls_from_file_mapper arg mapping_url mapping_file st =
     (if mapping_file = arg
      then do { (r, ht) \<leftarrow> hash_table_remove (fst st) mapping_url; Some (False, ht, ()) }
      else Some (False, st))"

definition dissociate_urls_from_file :: "(string, string) hash_table \<Rightarrow> string \<Rightarrow> (string, string) hash_table run" where
  "dissociate_urls_from_file uf path = do {
     (uf, u) \<leftarrow> hash_table_for_each (dissociate_urls_from_file_mapper path) (uf, ());
     Some uf }"

definition register_url_only :: "(string, string) hash_table \<Rightarrow> string \<Rightarrow> string \<Rightarrow> (string, string) hash_table run" where
  \<comment> \<open>from the label \<open>url_only\<close> on\<close>
  "register_url_only uf url path = do {
     old \<leftarrow> hash_table_get_pair uf url;
     uf \<leftarrow> (if old \<noteq> None then map_option snd (hash_table_remove uf url) else Some uf);
     hash_table_put uf url path }"

definition register_download :: "dl_state \<Rightarrow> string \<Rightarrow> string \<Rightarrow> dl_state run" where
  "register_download d url path = do {
     (fu, uf) \<leftarrow> ENSURE_TABLES_EXIST d;
     old \<leftarrow> hash_table_get_pair fu path;
     (case old of
        Some (old_file, old_url) \<Rightarrow>
          if url = old_url then Some (d\<lparr>dl_file_url_map := Some fu, dl_url_file_map := Some uf\<rparr>)
          else do {
            known \<leftarrow> hash_table_contains uf url;
            if match_except_index url old_url \<and> \<not> known then do {
              uf \<leftarrow> register_url_only uf url path;
              Some (d\<lparr>dl_file_url_map := Some fu, dl_url_file_map := Some uf\<rparr>) }
            else do {
              (r, fu) \<leftarrow> hash_table_remove fu path;
              uf \<leftarrow> dissociate_urls_from_file uf path;
              fu \<leftarrow> hash_table_put fu path url;
              uf \<leftarrow> register_url_only uf url path;
              Some (d\<lparr>dl_file_url_map := Some fu, dl_url_file_map := Some uf\<rparr>) } }
      | None \<Rightarrow> do {
          fu \<leftarrow> hash_table_put fu path url;
          uf \<leftarrow> register_url_only uf url path;
          Some (d\<lparr>dl_file_url_map := Some fu, dl_url_file_map := Some uf\<rparr>) }) }"

definition register_redirection :: "dl_state \<Rightarrow> string \<Rightarrow> string \<Rightarrow> dl_state run" where
  "register_redirection d src dst = do {
     (fu, uf) \<leftarrow> ENSURE_TABLES_EXIST d;
     path \<leftarrow> hash_table_get uf dst;
     path \<leftarrow> path; \<comment> \<open>\<open>assert (file != NULL)\<close>\<close>
     known \<leftarrow> hash_table_contains uf src;
     uf \<leftarrow> (if known then Some uf else hash_table_put uf src path);
     Some (d\<lparr>dl_file_url_map := Some fu, dl_url_file_map := Some uf\<rparr>) }"

definition register_delete_file :: "dl_state \<Rightarrow> string \<Rightarrow> dl_state run" where
  "register_delete_file d path = do {
     (fu, uf) \<leftarrow> ENSURE_TABLES_EXIST d;
     old \<leftarrow> hash_table_get_pair fu path;
     if old = None then Some (d\<lparr>dl_file_url_map := Some fu, dl_url_file_map := Some uf\<rparr>)
     else do {
       (r, fu) \<leftarrow> hash_table_remove fu path;
       uf \<leftarrow> dissociate_urls_from_file uf path;
       Some (d\<lparr>dl_file_url_map := Some fu, dl_url_file_map := Some uf\<rparr>) } }"

definition register_html :: "dl_state \<Rightarrow> string \<Rightarrow> dl_state run" where
  "register_html d path = do {
     s \<leftarrow> ensure (downloaded_html_set d);
     s \<leftarrow> string_set_add s path;
     Some (d\<lparr>downloaded_html_set := Some s\<rparr>) }"

definition register_css :: "dl_state \<Rightarrow> string \<Rightarrow> dl_state run" where
  "register_css d path = do {
     s \<leftarrow> ensure (downloaded_css_set d);
     s \<leftarrow> string_set_add s path;
     Some (d\<lparr>downloaded_css_set := Some s\<rparr>) }"

definition downloaded_file :: "dl_state \<Rightarrow> downloaded_file_t \<Rightarrow> string \<Rightarrow> (downloaded_file_t \<times> dl_state) run" where
  "downloaded_file d mode path =
     (if mode = CHECK_FOR_FILE then
        (case downloaded_files_hash d of
           None \<Rightarrow> Some (FILE_NOT_ALREADY_DOWNLOADED, d)
         | Some ht \<Rightarrow> do {
             p \<leftarrow> hash_table_get ht path;
             Some (case p of None \<Rightarrow> FILE_NOT_ALREADY_DOWNLOADED | Some m \<Rightarrow> m, d) })
      else do {
        ht \<leftarrow> ensure (downloaded_files_hash d);
        p \<leftarrow> hash_table_get ht path;
        (case p of
           Some m \<Rightarrow> Some (m, d\<lparr>downloaded_files_hash := Some ht\<rparr>)
         | None \<Rightarrow> do {
             ht \<leftarrow> hash_table_put ht path mode;
             Some (FILE_NOT_ALREADY_DOWNLOADED, d\<lparr>downloaded_files_hash := Some ht\<rparr>) }) })"

section \<open>The books as maps\<close>

definition tmap :: "'v string_table \<Rightarrow> string \<Rightarrow> 'v option" where
  "tmap t = (case t of None \<Rightarrow> Map.empty | Some ht \<Rightarrow> smap ht)"

definition tinv :: "'v string_table \<Rightarrow> bool" where
  "tinv t = (case t of None \<Rightarrow> True | Some ht \<Rightarrow> str_inv ht)"

definition tcount :: "'v string_table \<Rightarrow> nat" where
  "tcount t = (case t of None \<Rightarrow> 0 | Some ht \<Rightarrow> ht_count ht)"

lemma t_simps [simp]: "tmap (Some ht) = smap ht" "tinv (Some ht) = str_inv ht" "tcount (Some ht) = ht_count ht"
  "tmap None = Map.empty" "tinv None" "tcount None = 0"
  by (simp_all add: tmap_def tinv_def tcount_def)

type_synonym books = "(string \<rightharpoonup> string) \<times> (string \<rightharpoonup> string)" \<comment> \<open>file to URL, URL to file\<close>

definition books_of :: "dl_state \<Rightarrow> books" where
  "books_of d = (tmap (dl_file_url_map d), tmap (dl_url_file_map d))"

definition dl_inv :: "dl_state \<Rightarrow> bool" where
  "dl_inv d \<longleftrightarrow> tinv (dl_file_url_map d) \<and> tinv (dl_url_file_map d) \<and> tinv (downloaded_html_set d)
     \<and> tinv (downloaded_css_set d) \<and> tinv (downloaded_files_hash d)"

definition dl_room :: "dl_state \<Rightarrow> bool" where
  "dl_room d \<longleftrightarrow> tcount (dl_file_url_map d) < capacity \<and> tcount (dl_url_file_map d) < capacity"

definition forget_file :: "(string \<rightharpoonup> string) \<Rightarrow> string \<Rightarrow> (string \<rightharpoonup> string)" where
  \<comment> \<open>without the URLs that point to the file\<close>
  "forget_file m path = (\<lambda>u. if m u = Some path then None else m u)"

definition add_download :: "string \<Rightarrow> string \<Rightarrow> books \<Rightarrow> books" where
  "add_download url path = (\<lambda>(fu, uf).
     case fu path of
       None \<Rightarrow> (fu(path \<mapsto> url), uf(url \<mapsto> path))
     | Some old \<Rightarrow>
         if old = url then (fu, uf)
         else if match_except_index url old \<and> uf url = None then (fu, uf(url \<mapsto> path))
         else (fu(path \<mapsto> url), (forget_file uf path)(url \<mapsto> path)))"

definition drop_file :: "string \<Rightarrow> books \<Rightarrow> books" where
  "drop_file path = (\<lambda>(fu, uf). if fu path = None then (fu, uf) else (fu(path := None), forget_file uf path))"

lemma books_of_set:
  "books_of (d\<lparr>dl_file_url_map := Some a, dl_url_file_map := Some b\<rparr>) = (smap a, smap b)"
  by (simp add: books_of_def)

lemma dl_inv_set:
  "dl_inv d \<Longrightarrow> str_inv a \<Longrightarrow> str_inv b \<Longrightarrow> dl_inv (d\<lparr>dl_file_url_map := Some a, dl_url_file_map := Some b\<rparr>)"
  by (simp add: dl_inv_def)

lemma ensure_ok:
  assumes "tinv t"
  obtains ht where "ensure t = Some ht" "str_inv ht" "smap ht = tmap t" "ht_count ht = tcount t"
proof (cases t)
  case None
  then show thesis by (rule_tac make_string_table) (auto simp: ensure_def intro: that)
qed (use assms that in \<open>auto simp: ensure_def\<close>)

lemma ensure_tables_ok:
  assumes "dl_inv d"
  obtains fu uf where "ENSURE_TABLES_EXIST d = Some (fu, uf)" "str_inv fu" "str_inv uf"
    "smap fu = tmap (dl_file_url_map d)" "smap uf = tmap (dl_url_file_map d)"
    "ht_count fu = tcount (dl_file_url_map d)" "ht_count uf = tcount (dl_url_file_map d)"
proof -
  from assms have i: "tinv (dl_file_url_map d)" "tinv (dl_url_file_map d)" by (simp_all add: dl_inv_def)
  obtain fu where f: "ensure (dl_file_url_map d) = Some fu" "str_inv fu" "smap fu = tmap (dl_file_url_map d)" "ht_count fu = tcount (dl_file_url_map d)"
    using i(1) by (rule ensure_ok)
  obtain uf where u: "ensure (dl_url_file_map d) = Some uf" "str_inv uf" "smap uf = tmap (dl_url_file_map d)" "ht_count uf = tcount (dl_url_file_map d)"
    using i(2) by (rule ensure_ok)
  show thesis by (rule that[OF _ f(2) u(2) f(3) u(3) f(4) u(4)]) (simp add: ENSURE_TABLES_EXIST_def f(1) u(1))
qed

lemma dissociate_ok:
  assumes "str_inv uf"
  obtains uf' where "dissociate_urls_from_file uf path = Some uf'" "str_inv uf'" "ht_count uf' \<le> ht_count uf"
    "smap uf' = forget_file (smap uf) path"
proof -
  have fn: "dissociate_urls_from_file_mapper path k v (ht, a) =
      (if v = path then map_option (\<lambda>(r, ht). (False, ht, ())) (hash_table_remove ht k) else Some (False, ht, a))" for k v ht a
    by (cases "hash_table_remove ht k") (auto simp: dissociate_urls_from_file_mapper_def)
  obtain uf' a' where h: "hash_table_for_each (dissociate_urls_from_file_mapper path) (uf, ()) = Some (uf', a')" "str_inv uf'" "ht_count uf' \<le> ht_count uf"
    "smap uf' = (\<lambda>k. case smap uf k of Some v \<Rightarrow> if v = path then None else Some v | None \<Rightarrow> None)"
    by (rule str_for_each_remove[of "dissociate_urls_from_file_mapper path" "\<lambda>k v. v = path" "\<lambda>k v a. ()", OF fn assms])
  show thesis
    by (rule that[OF _ h(2,3)]) (auto simp: dissociate_urls_from_file_def h(1,4) forget_file_def split: option.splits)
qed

lemma url_only_ok:
  assumes "str_inv uf" "ht_count uf < capacity"
  obtains uf' where "register_url_only uf url path = Some uf'" "str_inv uf'" "smap uf' = (smap uf)(url \<mapsto> path)"
proof (cases "smap uf url")
  case None
  obtain uf' where "hash_table_put uf url path = Some uf'" "str_inv uf'" "smap uf' = (smap uf)(url \<mapsto> path)"
    using assms by (rule str.put_obtain)
  with None assms(1) show thesis by (intro that[of uf']) (auto simp: register_url_only_def str.get_pair)
next
  case (Some old)
  obtain r t1 t' where "hash_table_remove uf url = Some (r, t1)" "hash_table_put t1 url path = Some t'" "str_inv t'"
    "smap t' = (smap uf)(url \<mapsto> path)"
    using assms by (rule str.replace)
  with Some assms(1) show thesis by (intro that[of t']) (auto simp: register_url_only_def str.get_pair)
qed

lemma register_download_ok:
  assumes inv: "dl_inv d" and room: "dl_room d"
  obtains d' where "register_download d url path = Some d'" "dl_inv d'" "books_of d' = add_download url path (books_of d)"
    "downloaded_html_set d' = downloaded_html_set d" "downloaded_css_set d' = downloaded_css_set d"
proof -
  obtain fu uf where t: "ENSURE_TABLES_EXIST d = Some (fu, uf)" "str_inv fu" "str_inv uf"
    "smap fu = tmap (dl_file_url_map d)" "smap uf = tmap (dl_url_file_map d)"
    "ht_count fu = tcount (dl_file_url_map d)" "ht_count uf = tcount (dl_url_file_map d)"
    using inv by (rule ensure_tables_ok)
  have room': "ht_count fu < capacity" "ht_count uf < capacity" using room t(6,7) by (simp_all add: dl_room_def)
  have B: "books_of d = (smap fu, smap uf)" by (simp add: books_of_def t(4,5))
  note keep = dl_inv_set[OF inv]
  note defs = register_download_def t(1) str.get_pair[OF t(2)] str.contains[OF t(3)] add_download_def B books_of_set
  obtain uf1 where u1: "register_url_only uf url path = Some uf1" "str_inv uf1" "smap uf1 = (smap uf)(url \<mapsto> path)"
    using t(3) room'(2) by (rule url_only_ok)
  obtain fu1 where f1: "hash_table_put fu path url = Some fu1" "str_inv fu1" "smap fu1 = (smap fu)(path \<mapsto> url)"
    using t(2) room'(1) by (rule str.put_obtain)
  show thesis
  proof (cases "smap fu path")
    case None
    show thesis
      by (rule that[OF _ keep[OF f1(2) u1(2)]]) (simp_all add: defs None f1 u1)
  next
    case (Some old)
    show thesis
    proof (cases "old = url \<or> match_except_index url old \<and> smap uf url = None")
      case True
      show thesis
      proof (cases "old = url")
        case True
        then show thesis by (intro that[OF _ keep[OF t(2,3)]]) (simp_all add: defs Some)
      next
        case False
        with \<open>old = url \<or> _\<close> show thesis by (intro that[OF _ keep[OF t(2) u1(2)]]) (simp_all add: defs Some u1)
      qed
    next
      case False
      obtain r fu2 fu3 where f: "hash_table_remove fu path = Some (r, fu2)" "hash_table_put fu2 path url = Some fu3" "str_inv fu3"
        "smap fu3 = (smap fu)(path \<mapsto> url)" using t(2) room'(1) by (rule str.replace)
      obtain uf2 where u2: "dissociate_urls_from_file uf path = Some uf2" "str_inv uf2" "ht_count uf2 \<le> ht_count uf"
        "smap uf2 = forget_file (smap uf) path" using t(3) by (rule dissociate_ok)
      have "ht_count uf2 < capacity" using u2(3) room'(2) by simp
      with u2(2) obtain uf3 where u3: "register_url_only uf2 url path = Some uf3" "str_inv uf3" "smap uf3 = (smap uf2)(url \<mapsto> path)"
        by (rule url_only_ok)
      show thesis
        by (rule that[OF _ keep[OF f(3) u3(2)]]) (use False in \<open>auto simp: defs Some f u2 u3\<close>)
    qed
  qed
qed

lemma register_redirection_ok:
  assumes inv: "dl_inv d" and room: "dl_room d" and dst: "snd (books_of d) dst = Some path"
  obtains d' where "register_redirection d src dst = Some d'" "dl_inv d'"
    "books_of d' = (fst (books_of d), if snd (books_of d) src = None then (snd (books_of d))(src \<mapsto> path) else snd (books_of d))"
    "downloaded_html_set d' = downloaded_html_set d" "downloaded_css_set d' = downloaded_css_set d"
proof -
  obtain fu uf where t: "ENSURE_TABLES_EXIST d = Some (fu, uf)" "str_inv fu" "str_inv uf"
    "smap fu = tmap (dl_file_url_map d)" "smap uf = tmap (dl_url_file_map d)"
    "ht_count fu = tcount (dl_file_url_map d)" "ht_count uf = tcount (dl_url_file_map d)"
    using inv by (rule ensure_tables_ok)
  have B: "books_of d = (smap fu, smap uf)" by (simp add: books_of_def t(4,5))
  note keep = dl_inv_set[OF inv]
  have "ht_count uf < capacity" using room t(7) by (simp add: dl_room_def)
  with t(3) obtain uf1 where u1: "hash_table_put uf src path = Some uf1" "str_inv uf1" "smap uf1 = (smap uf)(src \<mapsto> path)"
    by (rule str.put_obtain)
  note defs = register_redirection_def t(1) str.get[OF t(3)] str.contains[OF t(3)] B books_of_set
  show thesis
  proof (cases "smap uf src")
    case None
    show thesis by (rule that[OF _ keep[OF t(2) u1(2)]]) (use dst None in \<open>auto simp: defs u1\<close>)
  next
    case (Some x)
    show thesis by (rule that[OF _ keep[OF t(2,3)]]) (use dst Some in \<open>auto simp: defs\<close>)
  qed
qed

lemma register_delete_ok:
  assumes inv: "dl_inv d"
  obtains d' where "register_delete_file d path = Some d'" "dl_inv d'" "books_of d' = drop_file path (books_of d)"
    "downloaded_html_set d' = downloaded_html_set d" "downloaded_css_set d' = downloaded_css_set d"
proof -
  obtain fu uf where t: "ENSURE_TABLES_EXIST d = Some (fu, uf)" "str_inv fu" "str_inv uf"
    "smap fu = tmap (dl_file_url_map d)" "smap uf = tmap (dl_url_file_map d)"
    "ht_count fu = tcount (dl_file_url_map d)" "ht_count uf = tcount (dl_url_file_map d)"
    using inv by (rule ensure_tables_ok)
  have B: "books_of d = (smap fu, smap uf)" by (simp add: books_of_def t(4,5))
  note keep = dl_inv_set[OF inv]
  from str.rem[OF t(2), of path] obtain fu1 where f1: "hash_table_remove fu path = Some (smap fu path \<noteq> None, fu1)" "str_inv fu1"
    "smap fu1 = (smap fu)(path := None)" by blast
  obtain uf1 where u1: "dissociate_urls_from_file uf path = Some uf1" "str_inv uf1" "smap uf1 = forget_file (smap uf) path"
    using t(3) by (rule dissociate_ok)
  note defs = register_delete_file_def t(1) str.get_pair[OF t(2)] B books_of_set drop_file_def
  show thesis
  proof (cases "smap fu path")
    case None
    show thesis by (rule that[OF _ keep[OF t(2,3)]]) (use None in \<open>auto simp: defs\<close>)
  next
    case (Some x)
    show thesis by (rule that[OF _ keep[OF f1(2) u1(2)]]) (use Some in \<open>auto simp: defs f1 u1\<close>)
  qed
qed

subsection \<open>Sequences of registrations\<close>

datatype dl_op = Download string string | Redirection string string | Delete string | Html string | Css string

fun dl_do :: "dl_op \<Rightarrow> dl_state \<Rightarrow> dl_state run" where
  "dl_do (Download url path) d = register_download d url path"
| "dl_do (Redirection src dst) d = register_redirection d src dst"
| "dl_do (Delete path) d = register_delete_file d path"
| "dl_do (Html path) d = register_html d path"
| "dl_do (Css path) d = register_css d path"

fun dl_run :: "dl_op list \<Rightarrow> dl_state \<Rightarrow> dl_state run" where
  "dl_run [] d = Some d"
| "dl_run (p # ops) d = do { d \<leftarrow> dl_do p d; dl_run ops d }"

fun books_do :: "dl_op \<Rightarrow> books \<Rightarrow> books option" where
  \<comment> \<open>\<^term>\<open>None\<close>: the target of a redirection has not been registered\<close>
  "books_do (Download url path) b = Some (add_download url path b)"
| "books_do (Redirection src dst) b =
     (case snd b dst of
        None \<Rightarrow> None
      | Some path \<Rightarrow> Some (fst b, if snd b src = None then (snd b)(src \<mapsto> path) else snd b))"
| "books_do (Delete path) b = Some (drop_file path b)"
| "books_do p b = Some b"

fun books_run :: "dl_op list \<Rightarrow> books \<Rightarrow> books option" where
  "books_run [] b = Some b"
| "books_run (p # ops) b = do { b \<leftarrow> books_do p b; books_run ops b }"

definition no_downloads :: dl_state where
  "no_downloads = \<lparr>dl_file_url_map = None, dl_url_file_map = None, downloaded_html_set = None,
     downloaded_css_set = None, downloaded_files_hash = None\<rparr>"

definition books_bounded :: "nat \<Rightarrow> dl_state \<Rightarrow> bool" where
  "books_bounded n d \<longleftrightarrow> tcount (dl_file_url_map d) \<le> n \<and> tcount (dl_url_file_map d) \<le> n
     \<and> tcount (downloaded_html_set d) \<le> n \<and> tcount (downloaded_css_set d) \<le> n"

lemma tcount_card: "tinv t \<Longrightarrow> tcount t = card (dom (tmap t)) \<and> finite (dom (tmap t))"
  by (cases t) (auto simp: count_card)

lemma books_do_dom:
  assumes "books_do p b = Some b'"
  shows "(\<exists>x. dom (fst b') \<subseteq> insert x (dom (fst b))) \<and> (\<exists>x. dom (snd b') \<subseteq> insert x (dom (snd b)))"
proof (cases p)
  case (Download url path)
  with assms have "dom (fst b') \<subseteq> insert path (dom (fst b)) \<and> dom (snd b') \<subseteq> insert url (dom (snd b))"
    by (auto simp: add_download_def forget_file_def split: prod.splits option.splits if_splits)
  then show ?thesis by blast
next
  case (Redirection src dst)
  with assms have "dom (fst b') \<subseteq> dom (fst b) \<and> dom (snd b') \<subseteq> insert src (dom (snd b))"
    by (auto split: option.splits if_splits)
  then show ?thesis by blast
next
  case (Delete path)
  with assms have "dom (fst b') \<subseteq> dom (fst b) \<and> dom (snd b') \<subseteq> dom (snd b)"
    by (auto simp: drop_file_def forget_file_def split: prod.splits if_splits)
  then show ?thesis by blast
qed (use assms in auto)

lemma card_insert_bound: "B \<subseteq> insert x A \<Longrightarrow> finite A \<Longrightarrow> card A \<le> n \<Longrightarrow> card B \<le> Suc n"
proof -
  assume "B \<subseteq> insert x A" "finite A" "card A \<le> n"
  then have "card B \<le> card (insert x A)" by (intro card_mono) simp_all
  also have "\<dots> \<le> Suc (card A)" using \<open>finite A\<close> by (simp add: card_insert_if)
  finally show ?thesis using \<open>card A \<le> n\<close> by simp
qed

lemma html_css_ok:
  assumes "dl_inv d" "books_bounded n d" "n < capacity" "p = Html path \<or> p = Css path"
  shows "\<exists>d'. dl_do p d = Some d' \<and> dl_inv d' \<and> books_of d' = books_of d \<and> books_bounded (Suc n) d'"
proof -
  have one: "\<exists>ht'. ensure t \<bind> (\<lambda>s. string_set_add s path) = Some ht' \<and> str_inv ht' \<and> ht_count ht' \<le> Suc n"
    if t: "tinv t" "tcount t \<le> n" for t
  proof -
    obtain ht where h: "ensure t = Some ht" "str_inv ht" "smap ht = tmap t" "ht_count ht = tcount t"
      using t(1) by (rule ensure_ok)
    have "ht_count ht < capacity" using h(4) t(2) assms(3) by simp
    with h(2) obtain ht' where "string_set_add ht path = Some ht'" "str_inv ht'"
      "ht_count ht' = (if path \<in> dom (smap ht) then ht_count ht else Suc (ht_count ht))" by (rule set_add_ok)
    with h t(2) show ?thesis by auto
  qed
  from one[of "downloaded_html_set d"] one[of "downloaded_css_set d"] assms show ?thesis
    by (auto simp: dl_inv_def books_bounded_def register_html_def register_css_def books_of_def bind_eq_Some_conv)
qed

lemma dl_do_refines:
  assumes inv: "dl_inv d" and b: "books_bounded n d" "n < capacity"
  shows "case books_do p (books_of d) of
      None \<Rightarrow> dl_do p d = None
    | Some B \<Rightarrow> \<exists>d'. dl_do p d = Some d' \<and> dl_inv d' \<and> books_of d' = B \<and> books_bounded (Suc n) d'"
proof -
  have room: "dl_room d" using b by (simp add: dl_room_def books_bounded_def)
  have bounded: "books_bounded (Suc n) d'" if "dl_inv d'" "books_do p (books_of d) = Some (books_of d')"
    "downloaded_html_set d' = downloaded_html_set d" "downloaded_css_set d' = downloaded_css_set d" for d'
  proof -
    from books_do_dom[OF that(2)] obtain x y where
      "dom (tmap (dl_file_url_map d')) \<subseteq> insert x (dom (tmap (dl_file_url_map d)))"
      "dom (tmap (dl_url_file_map d')) \<subseteq> insert y (dom (tmap (dl_url_file_map d)))" by (auto simp: books_of_def)
    with inv that(1) b(1) tcount_card card_insert_bound show ?thesis
      unfolding books_bounded_def dl_inv_def that(3,4) by (metis le_SucI)
  qed
  show ?thesis
  proof (cases p)
    case (Download url path)
    obtain d' where d': "register_download d url path = Some d'" "dl_inv d'" "books_of d' = add_download url path (books_of d)"
      "downloaded_html_set d' = downloaded_html_set d" "downloaded_css_set d' = downloaded_css_set d"
      using inv room by (rule register_download_ok)
    with Download bounded[of d'] show ?thesis by auto
  next
    case (Redirection src dst)
    show ?thesis
    proof (cases "snd (books_of d) dst")
      case None
      obtain fu uf where t: "ENSURE_TABLES_EXIST d = Some (fu, uf)" "str_inv uf" "smap uf = tmap (dl_url_file_map d)"
        using inv by (rule ensure_tables_ok)
      with None Redirection show ?thesis by (simp add: register_redirection_def str.get books_of_def)
    next
      case (Some path)
      obtain d' where d': "register_redirection d src dst = Some d'" "dl_inv d'"
        "books_of d' = (fst (books_of d), if snd (books_of d) src = None then (snd (books_of d))(src \<mapsto> path) else snd (books_of d))"
        "downloaded_html_set d' = downloaded_html_set d" "downloaded_css_set d' = downloaded_css_set d"
        using inv room Some by (rule register_redirection_ok)
      with Redirection Some bounded[of d'] show ?thesis by auto
    qed
  next
    case (Delete path)
    obtain d' where d': "register_delete_file d path = Some d'" "dl_inv d'" "books_of d' = drop_file path (books_of d)"
      "downloaded_html_set d' = downloaded_html_set d" "downloaded_css_set d' = downloaded_css_set d"
      using inv by (rule register_delete_ok)
    with Delete bounded[of d'] show ?thesis by auto
  next
    case (Html path)
    with html_css_ok[OF inv b, of p path] show ?thesis by auto
  next
    case (Css path)
    with html_css_ok[OF inv b, of p path] show ?thesis by auto
  qed
qed

lemma dl_run_refines:
  assumes "dl_inv d" "books_bounded n d" "n + length ops \<le> capacity"
  shows "case books_run ops (books_of d) of
      None \<Rightarrow> dl_run ops d = None
    | Some B \<Rightarrow> \<exists>d'. dl_run ops d = Some d' \<and> dl_inv d' \<and> books_of d' = B"
  using assms
proof (induction ops arbitrary: d n)
  case (Cons p ops)
  then have "n < capacity" by simp
  note R = dl_do_refines[OF Cons.prems(1,2) this, of p]
  show ?case
  proof (cases "books_do p (books_of d)")
    case None
    with R show ?thesis by simp
  next
    case (Some B)
    with R obtain d' where d': "dl_do p d = Some d'" "dl_inv d'" "books_of d' = B" "books_bounded (Suc n) d'" by auto
    with Cons.IH[OF d'(2,4)] Cons.prems(3) Some show ?thesis by (auto split: option.splits)
  qed
qed simp

definition files_known :: "books \<Rightarrow> bool" where
  "files_known b \<longleftrightarrow> (\<forall>u f. snd b u = Some f \<longrightarrow> fst b f \<noteq> None)"

lemma books_do_known: "books_do p b = Some b' \<Longrightarrow> files_known b \<Longrightarrow> files_known b'"
  by (cases p) (auto simp: files_known_def add_download_def drop_file_def forget_file_def split: prod.splits option.splits if_splits)

lemma books_run_known: "books_run ops b = Some b' \<Longrightarrow> files_known b \<Longrightarrow> files_known b'"
  by (induction ops arbitrary: b) (auto simp: bind_eq_Some_conv dest: books_do_known)

text \<open>
  C12. The books of downloads refine two plain maps, and the URLs never point to an unknown file.
  Whatever sequence of at most 805306367 registrations of downloads, redirections, deletions and
  document types is made, it returns exactly when every redirection leads to a URL that is
  registered at that moment (the assertion of \<open>register_redirection\<close>); the tables then hold what
  the specification computes: among others, dissociating a file while walking over the table
  misses no URL of that file. As the comment in \<open>register_download\<close> claims, a URL is mapped to a
  file only if the file is mapped to some URL.
\<close>
theorem download_books_correct:
  assumes "length ops \<le> 805306367"
  shows "case books_run ops (Map.empty, Map.empty) of
      None \<Rightarrow> dl_run ops no_downloads = None
    | Some (fu, uf) \<Rightarrow> (\<exists>d. dl_run ops no_downloads = Some d \<and> books_of d = (fu, uf)) \<and>
        (\<forall>url path. uf url = Some path \<longrightarrow> fu path \<noteq> None)"
proof -
  have i: "dl_inv no_downloads" "books_bounded 0 no_downloads" "books_of no_downloads = (Map.empty, Map.empty)"
    by (simp_all add: dl_inv_def books_bounded_def books_of_def no_downloads_def)
  have "files_known (Map.empty, Map.empty)" by (simp add: files_known_def)
  with dl_run_refines[OF i(1,2), of ops] assms books_run_known[of ops "(Map.empty, Map.empty)"] i(3) show ?thesis
    by (auto simp: capacity_def files_known_def split: option.splits)
qed

theorem download_books_correct_witness:
  "\<exists>d. dl_run [Download ''http://h/'' ''h/index.html'', Redirection ''http://h/old'' ''http://h/'', Download ''http://h/x'' ''h/index.html''] no_downloads = Some d
     \<and> snd (books_of d) ''http://h/x'' = Some ''h/index.html'' \<and> snd (books_of d) ''http://h/old'' = None"
proof -
  let ?ops = "[Download ''http://h/'' ''h/index.html'', Redirection ''http://h/old'' ''http://h/'', Download ''http://h/x'' ''h/index.html'']"
  have m: "match_except_index ''http://h/x'' ''http://h/'' = False" by code_simp
  have "length ?ops \<le> 805306367" by simp
  from download_books_correct[OF this] show ?thesis
    by (auto simp: add_download_def forget_file_def m)
qed

text \<open>
  A URL that is downloaded again to a file it was saved to earlier keeps pointing to the file it
  was saved to in between: \<open>register_download\<close> takes the registration for a repeated one.
\<close>
theorem register_download_stale:
  "\<exists>d. dl_run [Download ''http://h/a'' ''a'', Download ''http://h/a'' ''a.1'', Download ''http://h/a'' ''a''] no_downloads = Some d
     \<and> snd (books_of d) ''http://h/a'' = Some ''a.1''"
proof -
  let ?ops = "[Download ''http://h/a'' ''a'', Download ''http://h/a'' ''a.1'', Download ''http://h/a'' ''a'']"
  have i: "dl_inv no_downloads" "books_bounded 0 no_downloads" "books_of no_downloads = (Map.empty, Map.empty)"
    by (simp_all add: dl_inv_def books_bounded_def books_of_def no_downloads_def)
  from dl_run_refines[OF i(1,2), of ?ops] i(3) show ?thesis
    by (auto simp: add_download_def capacity_def)
qed

subsection \<open>URLs that differ in index.html\<close>

lemma common_prefix_split:
  "\<exists>p r1 r2. s1 = p @ r1 \<and> s2 = p @ r2 \<and> length p = common_prefix s1 s2 \<and> (r1 = [] \<or> r2 = [] \<or> hd r1 \<noteq> hd r2)"
proof (induction s1 s2 rule: common_prefix.induct)
  case (1 a s1 b s2)
  show ?case
  proof (cases "a = b")
    case True
    with 1 obtain p r1 r2 where "s1 = p @ r1" "s2 = p @ r2" "length p = common_prefix s1 s2" "r1 = [] \<or> r2 = [] \<or> hd r1 \<noteq> hd r2" by blast
    with True show ?thesis by (intro exI[of _ "a # p"] exI[of _ r1] exI[of _ r2]) simp
  qed (intro exI[of _ "[]"] exI[of _ "a # s1"] exI[of _ "b # s2"], auto)
qed auto

lemma common_prefix_app: "common_prefix s (s @ r) = length s" "common_prefix (s @ r) s = length s"
  by (induction s) auto

lemma match_extension:
  assumes "r \<noteq> []"
  shows "match_except_index s (s @ r) \<longleftrightarrow> s \<noteq> [] \<and> (r = ''/'' \<or> r = ''/index.html'' \<or> last s = CHR ''/'' \<and> r = ''index.html'')"
    and "match_except_index (s @ r) s \<longleftrightarrow> s \<noteq> [] \<and> (r = ''/'' \<or> r = ''/index.html'' \<or> last s = CHR ''/'' \<and> r = ''index.html'')"
proof -
  have "drop (length s - 1) s @ r = last s # r" if "s \<noteq> []"
    using that by (cases s rule: rev_cases) auto
  then show "match_except_index s (s @ r) \<longleftrightarrow> s \<noteq> [] \<and> (r = ''/'' \<or> r = ''/index.html'' \<or> last s = CHR ''/'' \<and> r = ''index.html'')"
    "match_except_index (s @ r) s \<longleftrightarrow> s \<noteq> [] \<and> (r = ''/'' \<or> r = ''/index.html'' \<or> last s = CHR ''/'' \<and> r = ''index.html'')"
    using assms by (auto simp: match_except_index_def common_prefix_app Let_def)
qed

lemma match_same: "match_except_index s s \<longleftrightarrow> s \<noteq> []"
  using common_prefix_app(1)[of s "[]"] by (auto simp: match_except_index_def)

definition index_variant :: "string \<Rightarrow> string \<Rightarrow> bool" where
  \<comment> \<open>the second string is the first one with a slash or an index page added\<close>
  "index_variant s l \<longleftrightarrow> l = s @ ''/'' \<or> l = s @ ''/index.html'' \<or> (\<exists>p. s = p @ ''/'' \<and> l = p @ ''/index.html'')"

lemma index_variant_app:
  "index_variant s (s @ r) \<longleftrightarrow> r = ''/'' \<or> r = ''/index.html'' \<or> s \<noteq> [] \<and> last s = CHR ''/'' \<and> r = ''index.html''"
  by (cases s rule: rev_cases) (auto simp: index_variant_def)

lemma index_variantD: "index_variant s l \<Longrightarrow> \<exists>r. l = s @ r \<and> r \<noteq> []"
  by (auto simp: index_variant_def)

text \<open>
  When two URLs count as the same up to the index page: exactly when both are nonempty and they
  are equal, or one is the other with \<open>/\<close>, with \<open>/index.html\<close>, or, if it ends in a slash, with
  \<open>index.html\<close> behind it.
\<close>
theorem match_except_index_iff:
  "match_except_index a b \<longleftrightarrow> a \<noteq> [] \<and> b \<noteq> [] \<and> (a = b \<or> index_variant a b \<or> index_variant b a)"
proof -
  obtain p r1 r2 where s: "a = p @ r1" "b = p @ r2" "length p = common_prefix a b" "r1 = [] \<or> r2 = [] \<or> hd r1 \<noteq> hd r2"
    using common_prefix_split by blast
  consider "r1 = []" "r2 = []" | "r1 = []" "r2 \<noteq> []" | "r1 \<noteq> []" "r2 = []" | "r1 \<noteq> []" "r2 \<noteq> []" by blast
  then show ?thesis
  proof cases
    case 1
    with s match_same show ?thesis by simp
  next
    case 2
    have "\<not> index_variant (p @ r2) p" using 2 by (auto dest: index_variantD)
    with 2 s match_extension(1)[of r2 p] index_variant_app[of p r2] show ?thesis by auto
  next
    case 3
    have "\<not> index_variant (p @ r1) p" using 3 by (auto dest: index_variantD)
    with 3 s match_extension(2)[of r1 p] index_variant_app[of p r1] show ?thesis by auto
  next
    case 4
    then have h: "hd r1 \<noteq> hd r2" using s(4) by blast
    have "\<not> match_except_index a b" using 4 s by (simp add: match_except_index_def Let_def)
    moreover have "\<not> index_variant a b" "\<not> index_variant b a" "a \<noteq> b"
      using h 4 by (auto simp: s(1,2) dest!: index_variantD)
    ultimately show ?thesis by simp
  qed
qed

end
