(* ===== verification/Wget_Exits.thy ===== *)
theory Wget_Exits
  imports C_Prelude
begin

section \<open>Errors and the exit status (wget/src/wget.h, exits.c)\<close>

text \<open>
  The error type of the retrieval functions and the bookkeeping of the exit status: every
  problem is reported with \<open>inform_exit_status\<close>, which keeps the most important one, and
  \<open>get_exit_status\<close> is what the program returns. The static variable \<open>final_exit_status\<close> is
  passed explicitly.
\<close>

datatype uerr_t =
    NOCONERROR | HOSTERR | CONSOCKERR | CONERROR | CONSSLERR | CONIMPOSSIBLE | NEWLOCATION
  | FTPOK | FTPLOGINC | FTPLOGREFUSED | FTPPORTERR | FTPSYSERR | FTPNSFOD | FTPUNKNOWNTYPE | FTPRERR
  | FTPSRVERR | FTPRETRINT | FTPRESTFAIL | URLERROR | FOPENERR | FOPEN_EXCL_ERR | FWRITEERR | HEOF | GATEWAYTIMEOUT
  | HERR | RETROK | RECLEVELEXC | WRONGCODE | FTPINVPASV | FTPNOPASV | FTPNOPBSZ | FTPNOPROT | FTPNOAUTH
  | CONTNOTSUPPORTED | RETRUNNEEDED | RETRFINISHED | READERR | TRYLIMEXC | FILEBADFILE | RANGEERR
  | RETRBADPATTERN | PROXERR | AUTHFAILED | QUOTEXC | WRITEFAILED | SSLINITFAILED | VERIFCERTERR
  | UNLINKERR | NEWLOCATION_KEEP_POST | CLOSEFAILED | ATTRMISSING | UNKNOWNATTR
  | WARC_ERR | WARC_TMP_FOPENERR | WARC_TMP_FWRITEERR | TIMECONV_ERR
  | METALINK_PARSE_ERROR | METALINK_RETR_ERROR | METALINK_CHKSUM_ERROR | METALINK_SIG_ERROR | METALINK_MISSING_RESOURCE
  | RETR_WITH_METALINK | METALINK_SIZE_ERROR

definition WGET_EXIT_SUCCESS :: nat where "WGET_EXIT_SUCCESS = 0"

definition WGET_EXIT_UNKNOWN :: nat where
  \<comment> \<open>the last member of the enumeration, after \<open>WGET_EXIT_SERVER_ERROR = 8\<close>\<close>
  "WGET_EXIT_UNKNOWN = 9"

fun get_status_for_err :: "uerr_t \<Rightarrow> nat" where
  "get_status_for_err err =
     (if err = RETROK then WGET_EXIT_SUCCESS
      else if err \<in> {FOPENERR, FOPEN_EXCL_ERR, FWRITEERR, WRITEFAILED, UNLINKERR, CLOSEFAILED, FILEBADFILE}
      then 3 \<comment> \<open>\<open>WGET_EXIT_IO_FAIL\<close>\<close>
      else if err \<in> {NOCONERROR, HOSTERR, CONSOCKERR, CONERROR, CONSSLERR, CONIMPOSSIBLE, FTPRERR, FTPINVPASV, READERR, TRYLIMEXC}
      then 4 \<comment> \<open>\<open>WGET_EXIT_NETWORK_FAIL\<close>\<close>
      else if err = VERIFCERTERR then 5 \<comment> \<open>\<open>WGET_EXIT_SSL_AUTH_FAIL\<close>\<close>
      else if err \<in> {FTPLOGINC, FTPLOGREFUSED, AUTHFAILED} then 6 \<comment> \<open>\<open>WGET_EXIT_SERVER_AUTH_FAIL\<close>\<close>
      else if err \<in> {HEOF, HERR, ATTRMISSING} then 7 \<comment> \<open>\<open>WGET_EXIT_PROTOCOL_ERROR\<close>\<close>
      else if err \<in> {WRONGCODE, FTPPORTERR, FTPSYSERR, FTPNSFOD, FTPUNKNOWNTYPE, FTPSRVERR, FTPRETRINT, FTPRESTFAIL,
        FTPNOPASV, CONTNOTSUPPORTED, RANGEERR, RETRBADPATTERN, PROXERR, GATEWAYTIMEOUT}
      then 8 \<comment> \<open>\<open>WGET_EXIT_SERVER_ERROR\<close>\<close>
      else WGET_EXIT_UNKNOWN)"

definition inform_exit_status :: "uerr_t \<Rightarrow> nat \<Rightarrow> nat" where
  "inform_exit_status err final_exit_status =
     (let new_status = get_status_for_err err in
      if new_status \<noteq> WGET_EXIT_SUCCESS
         \<and> (final_exit_status = WGET_EXIT_SUCCESS \<or> new_status < final_exit_status)
      then new_status else final_exit_status)"

definition get_exit_status :: "nat \<Rightarrow> nat" where
  "get_exit_status final_exit_status =
     (if final_exit_status = WGET_EXIT_UNKNOWN then 1 else final_exit_status)"

lemma status_range: "get_status_for_err e = 0 \<or> 3 \<le> get_status_for_err e \<and> get_status_for_err e \<le> 9"
  by (simp add: WGET_EXIT_SUCCESS_def WGET_EXIT_UNKNOWN_def)

lemma status_zero: "get_status_for_err e = 0 \<longleftrightarrow> e = RETROK"
  by (simp add: WGET_EXIT_SUCCESS_def WGET_EXIT_UNKNOWN_def)

declare get_status_for_err.simps [simp del]

definition statuses :: "uerr_t list \<Rightarrow> nat set" where
  "statuses errs = get_status_for_err ` {e \<in> set errs. e \<noteq> RETROK}"

lemma statuses_simps: "statuses [] = {}" "finite (statuses errs)"
  "statuses (e # errs) = (if e = RETROK then statuses errs else insert (get_status_for_err e) (statuses errs))"
  by (auto simp: statuses_def)

lemma Min_insert2: "finite T \<Longrightarrow> Min (insert (min s n) T) = Min (insert s (insert n T))" for s n :: nat
  by (cases "T = {}") (auto simp: min.assoc)

lemma fold_inform:
  "fold inform_exit_status errs s =
     (let S = (if s = 0 then statuses errs else insert s (statuses errs)) in if S = {} then 0 else Min S)"
proof (induction errs arbitrary: s)
  case (Cons e errs)
  show ?case
  proof (cases "e = RETROK")
    case True
    then have "inform_exit_status e s = s" using status_zero[of e] by (simp add: inform_exit_status_def WGET_EXIT_SUCCESS_def)
    with True Cons.IH[of s] show ?thesis by (simp add: statuses_simps)
  next
    case False
    let ?n = "get_status_for_err e"
    have n: "?n \<noteq> 0" using False status_zero by simp
    have step: "inform_exit_status e s = (if s = 0 then ?n else min s ?n)"
      using n by (simp add: inform_exit_status_def WGET_EXIT_SUCCESS_def min_def)
    from False n show ?thesis
      using Cons.IH[of "inform_exit_status e s"] Min_insert2[OF statuses_simps(2), of s ?n errs]
      unfolding step by (simp add: step statuses_simps(3) Let_def min_def split: if_splits)
  qed
qed (simp add: statuses_simps)

text \<open>
  The exit status is the most important problem, whatever the order of the reports: after any
  sequence of reports it is 0 exactly when all of them were \<open>RETROK\<close>; otherwise it is the
  smallest status among the reported errors, with 9 (for an error without a status of its own)
  shown as 1.
\<close>
theorem exit_status_correct:
  "get_exit_status (fold inform_exit_status errs WGET_EXIT_SUCCESS) =
     (if set errs \<subseteq> {RETROK} then 0
      else if Min (statuses errs) = 9 then 1 else Min (statuses errs))"
proof -
  have "statuses errs = {} \<longleftrightarrow> set errs \<subseteq> {RETROK}" by (auto simp: statuses_def)
  then show ?thesis
    by (simp add: fold_inform Let_def get_exit_status_def WGET_EXIT_SUCCESS_def WGET_EXIT_UNKNOWN_def)
qed

end
