(* ===== verification/Wget_Robots.thy ===== *)
theory Wget_Robots
  imports Wget_Hash_Map
begin

section \<open>Robots exclusion (wget/src/res.c)\<close>

text \<open>
  The parser of \<open>robots.txt\<close>, the matching of paths against its rules and the registry of the
  specifications by host and port. A region of the source text is a string; it may hold NUL
  bytes, and a C string ends at the first of them. Fetching the file over the network is not
  modelled.

  The parser is a state machine over the lines. Its reference is \<open>records\<close>: the lines grouped
  into records of user agents and rules, as the comment above \<open>res_parse\<close> describes them.
\<close>

subsection \<open>Structures\<close>

record path_info =
  pi_path :: string
  allowedp :: bool
  user_agent_exact_p :: bool

record robot_specs =
  rs_paths :: "path_info list" \<comment> \<open>\<open>count\<close> is its length\<close>
  rs_size :: nat \<comment> \<open>how many elements are allocated\<close>

definition match_user_agent :: "string \<Rightarrow> bool \<times> bool" where
  \<comment> \<open>\<open>*matches\<close> and \<open>*exact_match\<close>\<close>
  "match_user_agent agent =
     (if length agent = 1 \<and> hd agent = CHR ''*'' then (True, False)
      else if BOUNDED_EQUAL_NO_CASE agent ''wget'' then (True, True)
      else (False, False))"

definition add_path :: "robot_specs \<Rightarrow> string \<Rightarrow> bool \<Rightarrow> bool \<Rightarrow> robot_specs run" where
  \<comment> \<open>\<^term>\<open>None\<close> when the new element does not lie in the allocated array\<close>
  "add_path specs path alw exactp =
     (let path = (if path \<noteq> [] \<and> hd path = CHR ''/'' then tl path else path);
          pp = \<lparr>pi_path = path, allowedp = alw, user_agent_exact_p = exactp\<rparr>;
          count = length (rs_paths specs) + 1;
          sz = (if count > rs_size specs then (if rs_size specs = 0 then 1 else 2 * rs_size specs) else rs_size specs)
      in if count - 1 < sz then Some \<lparr>rs_paths = rs_paths specs @ [pp], rs_size = sz\<rparr> else None)"

definition prune_non_exact :: "robot_specs \<Rightarrow> robot_specs" where
  "prune_non_exact specs =
     (let newpaths = filter user_agent_exact_p (rs_paths specs)
      in \<lparr>rs_paths = newpaths, rs_size = length newpaths\<rparr>)"

subsection \<open>Lines\<close>

definition cut_line :: "string \<Rightarrow> string \<times> string" where
  \<comment> \<open>the line at \<open>p\<close> with its newline, and the text from \<open>lineend_real\<close> on\<close>
  "cut_line p =
     (let l = takeWhile (\<lambda>c. c \<noteq> LF) p
      in if length l < length p then (l @ [LF], drop (length l + 1) p) else (p, []))"

fun cut_comment :: "bool \<Rightarrow> string \<Rightarrow> string" where
  \<comment> \<open>the loop that sets \<open>lineend\<close>; the flag is \<open>lineend == p || c_isspace (*(lineend - 1))\<close>\<close>
  "cut_comment at_start [] = []"
| "cut_comment at_start (c # s) =
     (if at_start \<and> c = CHR ''#'' then [] else c # cut_comment (c_isspace c) s)"

definition parse_line :: "string \<Rightarrow> (string \<times> string) option run" where
  \<comment> \<open>the field and the value of a line; the inner \<^term>\<open>None\<close> is \<open>goto next\<close>, the outer one the failed
      assertion \<open>!EOL (p)\<close>\<close>
  "parse_line line =
     (let p = skip_space line in
      if p = [] \<or> hd p = CHR ''#'' then Some None
      else
        let p = rtrim_space (cut_comment True p) in
        if p = [] then None
        else
          let field = takeWhile (\<lambda>c. c_isalnum c \<or> c = CHR ''-'') p;
              p = skip_space (dropWhile (\<lambda>c. c_isalnum c \<or> c = CHR ''-'') p)
          in if field = [] \<or> p = [] \<or> hd p \<noteq> CHR '':'' then Some None
             else Some (Some (field, skip_space (tl p))))"

record res_state =
  user_agent_applies :: bool
  user_agent_exact :: bool
  found_exact :: bool
  record_count :: nat
  rspecs :: robot_specs

definition FIELD_IS :: "string \<Rightarrow> string \<Rightarrow> bool" where
  "FIELD_IS field lit = BOUNDED_EQUAL_NO_CASE field lit"

definition res_field :: "string \<times> string \<Rightarrow> res_state \<Rightarrow> res_state run" where
  \<comment> \<open>the effect of a syntactically valid line\<close>
  "res_field fv st =
     (let field = fst fv; v = snd fv in
      if FIELD_IS field ''user-agent'' then
        let (applies, exact) =
              (if record_count st \<noteq> 0 \<or> \<not> user_agent_applies st then match_user_agent v
               else (user_agent_applies st, user_agent_exact st))
        in Some (st\<lparr>user_agent_applies := applies, user_agent_exact := exact,
             found_exact := (found_exact st \<or> exact), record_count := 0\<rparr>)
      else if FIELD_IS field ''allow'' then do {
        sp \<leftarrow> (if user_agent_applies st then add_path (rspecs st) v True (user_agent_exact st) else Some (rspecs st));
        Some (st\<lparr>rspecs := sp, record_count := record_count st + 1\<rparr>) }
      else if FIELD_IS field ''disallow'' then do {
        sp \<leftarrow> (if user_agent_applies st then add_path (rspecs st) v (v = []) (user_agent_exact st) else Some (rspecs st));
        Some (st\<lparr>rspecs := sp, record_count := record_count st + 1\<rparr>) }
      else Some st)"

lemma cut_line_shorter: "p \<noteq> [] \<Longrightarrow> length (snd (cut_line p)) < length p"
  by (auto simp: cut_line_def Let_def)

function res_loop :: "string \<Rightarrow> res_state \<Rightarrow> res_state run" where
  "res_loop p st =
     (if p = [] then Some st
      else do {
        fv \<leftarrow> parse_line (fst (cut_line p));
        st \<leftarrow> (case fv of None \<Rightarrow> Some st | Some fv \<Rightarrow> res_field fv st);
        res_loop (snd (cut_line p)) st })"
  by pat_completeness auto
termination
  by (relation "measure (\<lambda>(p, st). length p)") (auto simp: cut_line_shorter)

declare res_loop.simps [simp del]

definition res_init :: res_state where
  "res_init = \<lparr>user_agent_applies = False, user_agent_exact = False, found_exact = False, record_count = 0,
     rspecs = \<lparr>rs_paths = [], rs_size = 0\<rparr>\<rparr>"

definition res_parse :: "string \<Rightarrow> robot_specs run" where
  "res_parse source = do {
     st \<leftarrow> res_loop source res_init;
     Some (if found_exact st then prune_non_exact (rspecs st)
           else if rs_size (rspecs st) > length (rs_paths (rspecs st))
           then (rspecs st)\<lparr>rs_size := length (rs_paths (rspecs st))\<rparr>
           else rspecs st) }"

definition res_parse_from_file :: "string option \<Rightarrow> robot_specs option run" where
  \<comment> \<open>the contents of the file, if it can be read\<close>
  "res_parse_from_file content =
     (case content of None \<Rightarrow> Some None | Some source \<Rightarrow> do { specs \<leftarrow> res_parse source; Some (Some specs) })"

subsection \<open>Matching\<close>

definition DECODE_MAYBE :: "string \<Rightarrow> char \<times> string" where
  \<comment> \<open>the character at \<open>ptr\<close>, and \<open>ptr\<close> after the following \<open>++\<close>\<close>
  "DECODE_MAYBE ptr =
     (let c = deref ptr 0 in
      if c = CHR ''%'' \<and> c_isxdigit (deref ptr 1) \<and> c_isxdigit (deref ptr 2) \<and>
         X2DIGITS_TO_NUM (deref ptr 1) (deref ptr 2) \<noteq> byte (CHR ''/'')
      then (char_of (X2DIGITS_TO_NUM (deref ptr 1) (deref ptr 2)), drop 3 ptr)
      else (c, drop 1 ptr))"

lemma DECODE_MAYBE_shorter: "deref p 0 \<noteq> NUL \<Longrightarrow> length (snd (DECODE_MAYBE p)) < length p"
  by (auto simp: DECODE_MAYBE_def Let_def deref_def split: if_splits)

function matches :: "string \<Rightarrow> string \<Rightarrow> bool" where
  "matches rp up =
     (if deref rp 0 = NUL then True
      else if deref up 0 = NUL then False
      else if fst (DECODE_MAYBE rp) \<noteq> fst (DECODE_MAYBE up) then False
      else matches (snd (DECODE_MAYBE rp)) (snd (DECODE_MAYBE up)))"
  by pat_completeness auto
termination
  by (relation "measure (\<lambda>(rp, up). length rp)") (auto simp: DECODE_MAYBE_shorter)

declare matches.simps [simp del]

fun match_paths :: "path_info list \<Rightarrow> string \<Rightarrow> bool" where
  "match_paths [] path = True"
| "match_paths (pp # paths) path = (if matches (pi_path pp) path then allowedp pp else match_paths paths path)"

definition res_match_path :: "robot_specs option \<Rightarrow> string \<Rightarrow> bool" where
  "res_match_path specs path = (case specs of None \<Rightarrow> True | Some s \<Rightarrow> match_paths (rs_paths s) path)"

subsection \<open>The registry\<close>

type_synonym registry = "(string, robot_specs option) hash_table option" \<comment> \<open>\<open>registered_specs\<close>, NULL at first\<close>

definition host_port :: "string \<Rightarrow> int \<Rightarrow> string" where
  \<comment> \<open>\<open>hp\<close>, printed into the buffer or by \<open>aprintf\<close>\<close>
  "host_port host port = host @ '':'' @ print_int port"

definition res_register_specs :: "registry \<Rightarrow> string \<Rightarrow> int \<Rightarrow> robot_specs option \<Rightarrow> registry run" where
  "res_register_specs registered host port specs = do {
     let hp = host_port host port;
     ht \<leftarrow> (case registered of None \<Rightarrow> make_nocase_string_hash_table 0 | Some ht \<Rightarrow> Some ht);
     pair \<leftarrow> hash_table_get_pair ht hp;
     ht \<leftarrow> (case pair of
              Some (hp_old, old) \<Rightarrow> hash_table_put ht hp_old specs
            | None \<Rightarrow> hash_table_put ht hp specs);
     Some (Some ht) }"

definition res_get_specs :: "registry \<Rightarrow> string \<Rightarrow> int \<Rightarrow> robot_specs option run" where
  "res_get_specs registered host port =
     (case registered of
        None \<Rightarrow> Some None
      | Some ht \<Rightarrow> do {
          v \<leftarrow> hash_table_get ht (host_port host port);
          Some (case v of None \<Rightarrow> None | Some s \<Rightarrow> s) })"

end
