(* ===== verification/Wget_Robots_Props.thy ===== *)
theory Wget_Robots_Props
  imports Wget_Robots
begin

section \<open>Robots exclusion: the parser against records, matching, the registry\<close>

text \<open>
  The parser never fails and yields exactly the rules of the records that apply to wget;
  matching a path is a prefix test on decoded paths; the registry is a map over host and
  port.
\<close>

subsection \<open>Records\<close>

datatype res_line = Agent string | Rule string bool \<comment> \<open>the path without a leading slash, and whether it is allowed\<close>

definition strip_slash :: "string \<Rightarrow> string" where
  "strip_slash path = (if path \<noteq> [] \<and> hd path = CHR ''/'' then tl path else path)"

definition classify :: "string \<times> string \<Rightarrow> res_line list" where
  "classify fv =
     (if lower (fst fv) = ''user-agent'' then [Agent (snd fv)]
      else if lower (fst fv) = ''allow'' then [Rule (strip_slash (snd fv)) True]
      else if lower (fst fv) = ''disallow'' then [Rule (strip_slash (snd fv)) (snd fv = [])]
      else [])"

function source_lines :: "string \<Rightarrow> string list" where
  "source_lines p = (if p = [] then [] else fst (cut_line p) # source_lines (snd (cut_line p)))"
  by pat_completeness auto
termination
  by (relation "measure length") (auto simp: cut_line_shorter)

declare source_lines.simps [simp del]

definition line_fields :: "string \<Rightarrow> res_line list" where
  "line_fields l = (case parse_line l of Some (Some fv) \<Rightarrow> classify fv | _ \<Rightarrow> [])"

definition res_lines :: "string \<Rightarrow> res_line list" where
  "res_lines source = concat (map line_fields (source_lines source))"

fun is_rule :: "res_line \<Rightarrow> bool" where
  "is_rule (Agent a) = False"
| "is_rule (Rule p b) = True"

fun agent_of :: "res_line \<Rightarrow> string" where
  "agent_of (Agent a) = a"
| "agent_of (Rule p b) = []"

fun rule_of :: "res_line \<Rightarrow> string \<times> bool" where
  "rule_of (Rule p b) = (p, b)"
| "rule_of (Agent a) = ([], False)"

function records :: "res_line list \<Rightarrow> (string list \<times> (string \<times> bool) list) list" where
  \<comment> \<open>agents followed by rules; rules before the first agent belong to no record\<close>
  "records ls =
     (case dropWhile is_rule ls of
        [] \<Rightarrow> []
      | l # ls' \<Rightarrow>
          (agent_of l # map agent_of (takeWhile (\<lambda>x. \<not> is_rule x) ls'),
           map rule_of (takeWhile is_rule (dropWhile (\<lambda>x. \<not> is_rule x) ls')))
          # records (dropWhile (\<lambda>x. \<not> is_rule x) ls'))"
  by pat_completeness auto
termination
proof (relation "measure length", goal_cases)
  case (2 ls l ls')
  have "length (dropWhile is_rule ls) \<le> length ls" "length (dropWhile (\<lambda>x. \<not> is_rule x) ls') \<le> length ls'"
    by (rule length_dropWhile_le)+
  then show ?case using 2 by simp
qed simp

declare records.simps [simp del]

definition applying :: "string list \<Rightarrow> string option" where
  \<comment> \<open>the first agent of a record that stands for wget\<close>
  "applying agents = find (\<lambda>a. fst (match_user_agent a)) agents"

definition record_exact :: "string list \<times> (string \<times> bool) list \<Rightarrow> bool" where
  "record_exact r = (case applying (fst r) of None \<Rightarrow> False | Some a \<Rightarrow> snd (match_user_agent a))"

definition record_rules :: "string list \<times> (string \<times> bool) list \<Rightarrow> path_info list" where
  "record_rules r =
     (case applying (fst r) of
        None \<Rightarrow> []
      | Some a \<Rightarrow> map (\<lambda>(p, b). \<lparr>pi_path = p, allowedp = b, user_agent_exact_p = snd (match_user_agent a)\<rparr>) (snd r))"

definition robot_rules :: "string \<Rightarrow> path_info list" where
  \<comment> \<open>the reference: the rules of the records that apply, only the exact ones if there are any\<close>
  "robot_rules source =
     (let rs = records (res_lines source)
      in concat (map record_rules (if list_ex record_exact rs then filter record_exact rs else rs)))"

subsection \<open>The parser as a fold over lines\<close>

lemma rtrim_not_Nil: "c \<in> set s \<Longrightarrow> \<not> c_isspace c \<Longrightarrow> rtrim_space s \<noteq> []"
  by (auto simp: rtrim_space_def)

lemma parse_line_total: "\<exists>r. parse_line line = Some r"
proof -
  let ?p = "skip_space line"
  have "rtrim_space (cut_comment True ?p) \<noteq> []" if "?p \<noteq> []" "hd ?p \<noteq> CHR ''#''"
  proof -
    have "\<not> c_isspace (hd ?p)" using that(1) hd_dropWhile[of c_isspace line] by (simp add: skip_space_def)
    moreover have "hd ?p \<in> set (cut_comment True ?p)" using that by (cases ?p) auto
    ultimately show ?thesis using rtrim_not_Nil by blast
  qed
  then show ?thesis by (auto simp: parse_line_def Let_def)
qed

type_synonym rstate = "bool \<times> bool \<times> bool \<times> nat \<times> path_info list"

fun rstep :: "res_line \<Rightarrow> rstate \<Rightarrow> rstate" where
  "rstep (Agent a) (ap, ex, fe, rc, ps) =
     (let (ap, ex) = (if rc \<noteq> 0 \<or> \<not> ap then match_user_agent a else (ap, ex)) in (ap, ex, fe \<or> ex, 0, ps))"
| "rstep (Rule p b) (ap, ex, fe, rc, ps) =
     (ap, ex, fe, rc + 1, if ap then ps @ [\<lparr>pi_path = p, allowedp = b, user_agent_exact_p = ex\<rparr>] else ps)"

definition abs_state :: "res_state \<Rightarrow> rstate" where
  "abs_state st = (user_agent_applies st, user_agent_exact st, found_exact st, record_count st, rs_paths (rspecs st))"

definition specs_ok :: "robot_specs \<Rightarrow> bool" where
  "specs_ok specs \<longleftrightarrow> length (rs_paths specs) \<le> rs_size specs"

lemma add_path_ok:
  assumes "specs_ok specs"
  obtains sp where "add_path specs p b e = Some sp" "specs_ok sp"
    "rs_paths sp = rs_paths specs @ [\<lparr>pi_path = strip_slash p, allowedp = b, user_agent_exact_p = e\<rparr>]"
proof -
  let ?n = "length (rs_paths specs)"
  let ?sz = "if ?n + 1 > rs_size specs then (if rs_size specs = 0 then 1 else 2 * rs_size specs) else rs_size specs"
  have "?n < ?sz" using assms by (auto simp: specs_ok_def)
  then show thesis
    using that[of "\<lparr>rs_paths = rs_paths specs @ [\<lparr>pi_path = strip_slash p, allowedp = b, user_agent_exact_p = e\<rparr>], rs_size = ?sz\<rparr>"]
    by (simp add: add_path_def specs_ok_def Let_def strip_slash_def)
qed

lemma field_is_lower: "lower l = l \<Longrightarrow> FIELD_IS f l \<longleftrightarrow> lower f = l"
  by (auto simp: FIELD_IS_def BOUNDED_EQUAL_NO_CASE_def)

lemma field_names: "lower ''user-agent'' = ''user-agent''" "lower ''allow'' = ''allow''" "lower ''disallow'' = ''disallow''"
  by code_simp+

lemma res_field_ok:
  assumes "specs_ok (rspecs st)"
  obtains st' where "res_field fv st = Some st'" "specs_ok (rspecs st')" "abs_state st' = fold rstep (classify fv) (abs_state st)"
proof -
  note F = res_field_def Let_def classify_def abs_state_def field_is_lower[OF field_names(1)] field_is_lower[OF field_names(2)]
    field_is_lower[OF field_names(3)]
  obtain sp1 where sp1: "add_path (rspecs st) (snd fv) True (user_agent_exact st) = Some sp1" "specs_ok sp1"
    "rs_paths sp1 = rs_paths (rspecs st) @ [\<lparr>pi_path = strip_slash (snd fv), allowedp = True, user_agent_exact_p = user_agent_exact st\<rparr>]"
    by (rule add_path_ok[OF assms])
  obtain sp2 where sp2: "add_path (rspecs st) (snd fv) (snd fv = []) (user_agent_exact st) = Some sp2" "specs_ok sp2"
    "rs_paths sp2 = rs_paths (rspecs st) @ [\<lparr>pi_path = strip_slash (snd fv), allowedp = (snd fv = []), user_agent_exact_p = user_agent_exact st\<rparr>]"
    by (rule add_path_ok[OF assms])
  consider "lower (fst fv) = ''user-agent''" | "lower (fst fv) = ''allow''" | "lower (fst fv) = ''disallow''"
    | "lower (fst fv) \<noteq> ''user-agent''" "lower (fst fv) \<noteq> ''allow''" "lower (fst fv) \<noteq> ''disallow''" by blast
  then have "\<exists>st'. res_field fv st = Some st' \<and> specs_ok (rspecs st') \<and> abs_state st' = fold rstep (classify fv) (abs_state st)"
  proof cases
    case 1
    then show ?thesis using assms by (auto simp: F split: prod.splits)
  next
    case 2
    then show ?thesis using assms sp1 by (auto simp: F)
  next
    case 3
    then show ?thesis using assms sp2 by (auto simp: F)
  next
    case 4
    then show ?thesis using assms by (auto simp: F)
  qed
  then show thesis using that by blast
qed

lemma res_loop_ok:
  assumes "specs_ok (rspecs st)"
  shows "\<exists>st'. res_loop p st = Some st' \<and> specs_ok (rspecs st') \<and> abs_state st' = fold rstep (res_lines p) (abs_state st)"
  using assms
proof (induction p st rule: res_loop.induct)
  case (1 p st)
  show ?case
  proof (cases "p = []")
    case True
    then show ?thesis using 1 by (simp add: res_loop.simps[of "[]"] res_lines_def source_lines.simps[of "[]"])
  next
    case False
    obtain r where r: "parse_line (fst (cut_line p)) = Some r" using parse_line_total by blast
    have lines: "res_lines p = line_fields (fst (cut_line p)) @ res_lines (snd (cut_line p))"
      using False by (simp add: res_lines_def source_lines.simps[of p])
    obtain st1 where st1: "(case r of None \<Rightarrow> Some st | Some fv \<Rightarrow> res_field fv st) = Some st1" "specs_ok (rspecs st1)"
      "abs_state st1 = fold rstep (line_fields (fst (cut_line p))) (abs_state st)"
    proof (cases r)
      case None
      then show thesis using that[of st] 1 r by (simp add: line_fields_def)
    next
      case (Some fv)
      then show thesis using that res_field_ok[OF "1.prems", of fv] r by (auto simp: line_fields_def)
    qed
    from "1.IH"[OF False r, of st1] st1 show ?thesis
      using False r by (simp add: res_loop.simps[of p] lines)
  qed
qed

subsection \<open>The fold as records\<close>

lemma unmatched_agent: "\<not> fst (match_user_agent a) \<Longrightarrow> match_user_agent a = (False, False)"
  by (auto simp: match_user_agent_def split: if_splits)

lemma fold_agents_settled:
  "fold rstep (map Agent as) (True, ex, fe \<or> ex, 0, ps) = (True, ex, fe \<or> ex, 0, ps)"
  by (induction as) auto

lemma fold_agents:
  assumes "rc \<noteq> 0 \<or> \<not> ap"
  shows "fold rstep (map Agent (a # as)) (ap, ex, fe, rc, ps) =
    (case applying (a # as) of
       None \<Rightarrow> (False, False, fe, 0, ps)
     | Some b \<Rightarrow> (True, snd (match_user_agent b), fe \<or> snd (match_user_agent b), 0, ps))"
  using assms
proof (induction as arbitrary: a ap ex rc)
  case Nil
  then show ?case using unmatched_agent[of a] by (cases "match_user_agent a") (auto simp: applying_def)
next
  case (Cons a' as)
  show ?case
  proof (cases "fst (match_user_agent a)")
    case True
    then have m: "match_user_agent a = (True, snd (match_user_agent a))" by (cases "match_user_agent a") auto
    have "fold rstep (map Agent (a # a' # as)) (ap, ex, fe, rc, ps) =
        fold rstep (map Agent (a' # as)) (True, snd (match_user_agent a), fe \<or> snd (match_user_agent a), 0, ps)"
      using Cons.prems m by (cases "match_user_agent a") simp
    also have "\<dots> = (True, snd (match_user_agent a), fe \<or> snd (match_user_agent a), 0, ps)" by (rule fold_agents_settled)
    finally show ?thesis using True by (simp add: applying_def)
  next
    case False
    then have "fold rstep (map Agent (a # a' # as)) (ap, ex, fe, rc, ps) = fold rstep (map Agent (a' # as)) (False, False, fe, 0, ps)"
      using Cons.prems unmatched_agent[of a] by simp
    with Cons.IH[of 0 False a' False] False show ?thesis by (simp add: applying_def)
  qed
qed

lemma fold_rules:
  assumes "\<forall>x\<in>set rs. is_rule x"
  shows "fold rstep rs (ap, ex, fe, rc, ps) =
    (ap, ex, fe, rc + length rs,
     ps @ (if ap then map (\<lambda>(p, b). \<lparr>pi_path = p, allowedp = b, user_agent_exact_p = ex\<rparr>) (map rule_of rs) else []))"
  using assms
proof (induction rs arbitrary: rc ps)
  case (Cons r rs)
  then show ?case by (cases r) auto
qed simp

lemma agents_are_agents: "\<forall>x\<in>set xs. \<not> is_rule x \<Longrightarrow> xs = map Agent (map agent_of xs)"
proof (induction xs)
  case (Cons x xs)
  then show ?case by (cases x) auto
qed simp

lemma fold_record:
  assumes "rc \<noteq> 0 \<or> \<not> ap" "\<not> is_rule l" "\<forall>x\<in>set as. \<not> is_rule x" "\<forall>x\<in>set rs. is_rule x"
  defines "r \<equiv> (agent_of l # map agent_of as, map rule_of rs)"
  shows "\<exists>ap' ex'. fold rstep (l # as @ rs) (ap, ex, fe, rc, ps) =
    (ap', ex', fe \<or> record_exact r, length rs, ps @ record_rules r)"
proof -
  have "l # as = map Agent (agent_of l # map agent_of as)"
    using agents_are_agents[of "l # as"] assms(2,3) by simp
  with fold_agents[OF assms(1), of "agent_of l" "map agent_of as" ex fe ps]
  have "fold rstep (l # as) (ap, ex, fe, rc, ps) =
    (case applying (agent_of l # map agent_of as) of
       None \<Rightarrow> (False, False, fe, 0, ps)
     | Some b \<Rightarrow> (True, snd (match_user_agent b), fe \<or> snd (match_user_agent b), 0, ps))"
    by (simp only:)
  moreover have "fold rstep (l # as @ rs) s = fold rstep rs (fold rstep (l # as) s)" for s by simp
  ultimately have eq: "fold rstep (l # as @ rs) (ap, ex, fe, rc, ps) = fold rstep rs
    (case applying (agent_of l # map agent_of as) of
       None \<Rightarrow> (False, False, fe, 0, ps)
     | Some b \<Rightarrow> (True, snd (match_user_agent b), fe \<or> snd (match_user_agent b), 0, ps))" by metis
  show ?thesis
    unfolding eq
    by (cases "applying (agent_of l # map agent_of as)")
      (auto simp: r_def record_exact_def record_rules_def fold_rules[OF assms(4)])
qed

lemma records_skip_rules: "records (dropWhile is_rule ls) = records ls"
  unfolding records.simps[of ls] records.simps[of "dropWhile is_rule ls"] dropWhile_idem ..

lemma records_agent:
  "\<not> is_rule l \<Longrightarrow> records (l # ls) =
     (agent_of l # map agent_of (takeWhile (\<lambda>x. \<not> is_rule x) ls),
      map rule_of (takeWhile is_rule (dropWhile (\<lambda>x. \<not> is_rule x) ls))) # records (dropWhile (\<lambda>x. \<not> is_rule x) ls)"
  by (simp add: records.simps[of "l # ls"])

lemma records_Nil: "records [] = []"
  by (simp add: records.simps[of "[]"])

lemma fold_records:
  assumes "rc \<noteq> 0 \<or> \<not> ap" "ls = [] \<or> \<not> is_rule (hd ls)"
  shows "\<exists>ap' ex' rc'. fold rstep ls (ap, ex, fe, rc, ps) =
    (ap', ex', fe \<or> list_ex record_exact (records ls), rc', ps @ concat (map record_rules (records ls)))"
  using assms
proof (induction ls arbitrary: ap ex fe rc ps rule: length_induct)
  case (1 ls)
  show ?case
  proof (cases ls)
    case Nil
    then show ?thesis by (simp add: records_Nil)
  next
    case (Cons l ls')
    have l: "\<not> is_rule l" using 1(3) Cons by simp
    define as rest rs nxt where "as = takeWhile (\<lambda>x. \<not> is_rule x) ls'" and "rest = dropWhile (\<lambda>x. \<not> is_rule x) ls'"
      and "rs = takeWhile is_rule rest" and "nxt = dropWhile is_rule rest"
    note D = this
    let ?r = "(agent_of l # map agent_of as, map rule_of rs)"
    have split: "ls = (l # as @ rs) @ nxt" by (simp add: Cons D)
    have sets: "\<forall>x\<in>set as. \<not> is_rule x" "\<forall>x\<in>set rs. is_rule x" unfolding D using set_takeWhileD by fast+
    obtain ap' ex' where r: "fold rstep (l # as @ rs) (ap, ex, fe, rc, ps) = (ap', ex', fe \<or> record_exact ?r, length rs, ps @ record_rules ?r)"
      using fold_record[OF 1(2) l sets, of ex fe ps] by blast
    have rec: "records ls = ?r # records nxt"
      unfolding Cons D records_skip_rules by (rule records_agent[OF l])
    have fold: "fold rstep ls s = fold rstep nxt (fold rstep (l # as @ rs) s)" for s
      unfolding split by (simp only: fold_append comp_apply)
    show ?thesis
    proof (cases "nxt = []")
      case True
      then show ?thesis unfolding fold r rec by (simp add: records_Nil)
    next
      case False
      have nr: "\<not> is_rule (hd nxt)" using hd_dropWhile[of is_rule rest] False by (simp add: D(4))
      have "rs \<noteq> []"
      proof
        assume "rs = []"
        then have "nxt = rest" unfolding D by (metis append_Nil takeWhile_dropWhile_id)
        then show False using nr False hd_dropWhile[of "\<lambda>x. \<not> is_rule x" ls'] by (simp add: D(2))
      qed
      then have rc: "length rs \<noteq> 0 \<or> \<not> ap'" by simp
      have len: "length nxt < length ls" by (simp add: split)
      obtain ap2 ex2 rc2 where "fold rstep nxt (ap', ex', fe \<or> record_exact ?r, length rs, ps @ record_rules ?r) =
        (ap2, ex2, (fe \<or> record_exact ?r) \<or> list_ex record_exact (records nxt), rc2,
         (ps @ record_rules ?r) @ concat (map record_rules (records nxt)))"
        using 1(1)[rule_format, OF len rc] nr by blast
      then show ?thesis unfolding fold r rec by simp
    qed
  qed
qed

lemma fold_all_lines:
  "\<exists>ap ex rc. fold rstep ls (False, False, False, 0, []) =
     (ap, ex, list_ex record_exact (records ls), rc, concat (map record_rules (records ls)))"
proof -
  let ?a = "takeWhile is_rule ls" and ?b = "dropWhile is_rule ls"
  have "fold rstep ls s = fold rstep ?b (fold rstep ?a s)" for s
    by (metis comp_apply fold_append takeWhile_dropWhile_id)
  moreover have "fold rstep ?a (False, False, False, 0, []) = (False, False, False, length ?a, [])"
    using fold_rules[of ?a False False False 0 "[]"] by (auto dest: set_takeWhileD)
  moreover have "records ls = records ?b" by (rule records_skip_rules[symmetric])
  moreover have "?b = [] \<or> \<not> is_rule (hd ?b)" using hd_dropWhile by blast
  ultimately show ?thesis using fold_records[of "length ?a" False ?b False False "[]"] by simp
qed

lemma record_rules_exact: "pp \<in> set (record_rules r) \<Longrightarrow> user_agent_exact_p pp = record_exact r"
  by (auto simp: record_rules_def record_exact_def split: option.splits)

lemma filter_exact_rules:
  "filter user_agent_exact_p (concat (map record_rules rs)) = concat (map record_rules (filter record_exact rs))"
proof (induction rs)
  case (Cons r rs)
  have "filter user_agent_exact_p (record_rules r) = (if record_exact r then record_rules r else [])"
    using record_rules_exact[of _ r] by (auto simp: filter_id_conv filter_empty_conv)
  then show ?case using Cons by simp
qed simp

lemma res_parse_ok:
  "\<exists>specs. res_parse source = Some specs \<and> rs_paths specs = robot_rules source \<and>
     rs_size specs = length (rs_paths specs)"
proof -
  let ?rs = "records (res_lines source)"
  have "specs_ok (rspecs res_init)" by (simp add: specs_ok_def res_init_def)
  then obtain st where st: "res_loop source res_init = Some st" "specs_ok (rspecs st)"
    "abs_state st = fold rstep (res_lines source) (abs_state res_init)" using res_loop_ok by blast
  have init: "abs_state res_init = (False, False, False, 0, [])" by (simp add: abs_state_def res_init_def)
  obtain ap ex rc where f: "fold rstep (res_lines source) (False, False, False, 0, []) =
      (ap, ex, list_ex record_exact ?rs, rc, concat (map record_rules ?rs))" using fold_all_lines by blast
  then have "found_exact st = list_ex record_exact ?rs" "rs_paths (rspecs st) = concat (map record_rules ?rs)"
    using st(3) unfolding init f by (auto simp: abs_state_def)
  then show ?thesis using st
    by (auto simp: res_parse_def robot_rules_def Let_def prune_non_exact_def filter_exact_rules specs_ok_def)
qed

subsection \<open>Properties\<close>


function res_decode :: "string \<Rightarrow> string" where
  "res_decode p = (if deref p 0 = NUL then [] else fst (DECODE_MAYBE p) # res_decode (snd (DECODE_MAYBE p)))"
  by pat_completeness auto
termination
  by (relation "measure length") (auto simp: DECODE_MAYBE_shorter)

declare res_decode.simps [simp del]

lemma matches_iff: "matches r u \<longleftrightarrow> prefix (res_decode r) (res_decode u)"
proof (induction r u rule: matches.induct)
  case (1 r u)
  then show ?case
    by (cases "deref r 0 = NUL"; cases "deref u 0 = NUL")
      (auto simp: matches.simps[of r u] res_decode.simps[of r] res_decode.simps[of u])
qed

lemma match_paths_find:
  "match_paths pps path \<longleftrightarrow>
     (case find (\<lambda>pp. prefix (res_decode (pi_path pp)) (res_decode path)) pps of None \<Rightarrow> True | Some pp \<Rightarrow> allowedp pp)"
  by (induction pps) (auto simp: matches_iff)


definition registry_ok :: "registry \<Rightarrow> bool" where
  "registry_ok reg = (case reg of None \<Rightarrow> True | Some ht \<Rightarrow> ht_inv hash_string_nocase string_cmp_nocase ht \<and> hash_table_count ht < 805306367)"

lemma digits_lower: "\<forall>c\<in>set s. c_isdigit c \<or> c = CHR ''-'' \<Longrightarrow> lower s = s"
  by (induction s) (auto simp: lower_def tolower_of_digit c_tolower_def c_isupper_def c_isdigit_def)

lemma print_nat_inj: "print_nat m = print_nat n \<Longrightarrow> m = n"
  by (metis digits_value_print_nat of_nat_eq_iff)

lemma print_int_inj: "print_int i = print_int j \<Longrightarrow> i = j"
proof -
  have no: "print_nat n \<noteq> CHR ''-'' # s" for n s
    using print_nat_digits[of n] by (auto simp: c_isdigit_def)
  show "print_int i = print_int j \<Longrightarrow> i = j"
    using no print_nat_inj[of "nat i" "nat j"] print_nat_inj[of "nat (- i)" "nat (- j)"] no[symmetric]
    by (auto simp: print_int_def split: if_splits)
qed

lemma host_port_inj: "lower (host_port h p) = lower (host_port h' p') \<longleftrightarrow> lower h = lower h' \<and> p = p'"
proof
  assume eq: "lower (host_port h p) = lower (host_port h' p')"
  have l: "lower (print_int i) = print_int i" "CHR '':'' \<notin> set (print_int i)" for i
    using digits_lower print_int_chars by (auto simp: c_isdigit_def dest!: print_int_chars)
  have c: "c_tolower (CHR '':'') = CHR '':''" by (simp add: tolower_nonletter)
  have "lower h @ CHR '':'' # print_int p = lower h' @ CHR '':'' # print_int p'"
    using eq by (simp add: host_port_def lower_Cons l c)
  then have "rev (print_int p) @ CHR '':'' # rev (lower h) = rev (print_int p') @ CHR '':'' # rev (lower h')"
    by (metis append.assoc append_Cons append_Nil rev.simps(2) rev_append)
  moreover have "takeWhile (\<lambda>c. c \<noteq> CHR '':'') (rev (print_int i) @ CHR '':'' # s) = rev (print_int i)" for i s
    using l(2)[of i] by (subst takeWhile_append2) auto
  ultimately have "rev (print_int p) = rev (print_int p') \<and> rev (lower h) = rev (lower h')"
    by (metis list.inject same_append_eq)
  then show "lower h = lower h' \<and> p = p'" using print_int_inj by simp
qed (simp add: host_port_def)

lemma register_ok:
  assumes "registry_ok reg"
  obtains ht where "res_register_specs reg host port specs = Some (Some ht)" "ht_inv hash_string_nocase string_cmp_nocase ht"
    "\<And>h p. res_get_specs (Some ht) h p = (if lower h = lower host \<and> p = port then Some specs else res_get_specs reg h p)"
proof -
  let ?hp = "host_port host port"
  obtain ht0 :: "(string, robot_specs option) hash_table" where
    ht0: "(case reg of None \<Rightarrow> make_nocase_string_hash_table 0 | Some ht \<Rightarrow> Some ht) = Some ht0"
      "ht_inv hash_string_nocase string_cmp_nocase ht0" "hash_table_count ht0 < 805306367"
      "\<And>h p. res_get_specs (Some ht0) h p = res_get_specs reg h p"
  proof (cases reg)
    case None
    obtain ht :: "(string, robot_specs option) hash_table" where ht: "hash_table_new 0 hash_string_nocase string_cmp_nocase = Some ht"
      using hash_table_new_0 by blast
    note N = nocase_keys.new_ok[OF ht]
    have "ht_find ht k = None" for k using N(2) by (simp add: ht_find_def)
    then show thesis using None ht N
      by (intro that[of ht])
        (auto simp: make_nocase_string_hash_table_def res_get_specs_def nocase_keys.get_ok hash_table_count_def ht_inv_def)
  qed (use assms that in \<open>auto simp: registry_ok_def\<close>)
  have get: "res_get_specs (Some ht) h p = Some (case ht_find ht (host_port h p) of None \<Rightarrow> None | Some (k, s) \<Rightarrow> s)"
    if "ht_inv hash_string_nocase string_cmp_nocase ht" for ht h p
    using that by (auto simp: res_get_specs_def nocase_keys.get_ok split: option.splits)
  have eq: "string_cmp_nocase a b \<longleftrightarrow> lower a = lower b" for a b by (simp add: string_cmp_nocase_def strcaseeq_def)
  obtain key where key: "lower key = lower ?hp" "(case ht_find ht0 ?hp of Some (k, v) \<Rightarrow> k | None \<Rightarrow> ?hp) = key"
  proof (cases "ht_find ht0 ?hp")
    case (Some kv)
    then show thesis using that nocase_keys.ht_find_iff[OF ht0(2), of ?hp kv] by (cases kv) (auto simp: eq)
  qed (use that in auto)
  obtain ht where ht: "hash_table_put ht0 key specs = Some ht"
    using nocase_keys.put_total[OF ht0(2)] ht0(3) by (auto simp: hash_table_count_def)
  note P = nocase_keys.put_ok[OF ht0(2) ht]
  show thesis
  proof (rule that[of ht])
    show "res_register_specs reg host port specs = Some (Some ht)"
      using ht0 ht key(2) by (auto simp: res_register_specs_def nocase_keys.get_pair_ok split: option.splits)
    show "ht_inv hash_string_nocase string_cmp_nocase ht" by (rule P(1))
    show "res_get_specs (Some ht) h p = (if lower h = lower host \<and> p = port then Some specs else res_get_specs reg h p)" for h p
      using P(2)[of "host_port h p"] host_port_inj[of host port h p] key(1)
      by (auto simp: get[OF P(1)] ht0(4)[symmetric] get[OF ht0(2)] eq)
  qed
qed

text \<open>
  The registry is a map over host (in any case) and port: after registering
  specifications a lookup for the same host and port returns them, and every other lookup
  returns what it did before; this also holds for hosts that contain colons.
\<close>

theorem res_registry_correct:
  assumes "registry_ok reg"
  shows "\<exists>reg'. res_register_specs reg host port specs = Some reg' \<and>
    (\<forall>h p. res_get_specs reg' h p = (if lower h = lower host \<and> p = port then Some specs else res_get_specs reg h p))"
  by (rule register_ok[OF assms, of host port specs]) blast

theorem res_registry_correct_witness:
  "\<exists>reg'. res_register_specs None ''Host'' 80 (Some \<lparr>rs_paths = [], rs_size = 0\<rparr>) = Some reg' \<and>
     res_get_specs reg' ''hOST'' 80 = Some (Some \<lparr>rs_paths = [], rs_size = 0\<rparr>) \<and> res_get_specs reg' ''Host'' 8080 = Some None"
proof -
  have l: "lower ''hOST'' = lower ''Host''" by code_simp
  have "registry_ok None" by (simp add: registry_ok_def)
  from res_registry_correct[OF this, of "''Host''" 80 "Some \<lparr>rs_paths = [], rs_size = 0\<rparr>"] l
  show ?thesis by (auto simp: res_get_specs_def[of None])
qed

text \<open>
  A record that names \<open>*\<close> before \<open>wget\<close> is not taken as a record for wget: as soon as
  another record names wget, its rules are thrown away with those for everybody.
\<close>

theorem star_before_wget_is_not_exact:
  "map_option (map pi_path \<circ> rs_paths)
     (res_parse (''User-Agent: *'' @ [LF] @ ''User-Agent: wget'' @ [LF] @ ''Disallow: /a'' @ [LF] @
                 ''User-Agent: wget'' @ [LF] @ ''Disallow: /b'')) = Some [''b''] \<and>
   map_option (map pi_path \<circ> rs_paths)
     (res_parse (''User-Agent: wget'' @ [LF] @ ''User-Agent: *'' @ [LF] @ ''Disallow: /a'' @ [LF] @
                 ''User-Agent: wget'' @ [LF] @ ''Disallow: /b'')) = Some [''a'', ''b'']"
  by code_simp

end
