(* ===== verification/Wget_Recur.thy ===== *)
theory Wget_Recur
  imports Wget_Url_Queue Wget_Downloads Wget_Exits Wget_Robots_Props Wget_Url_Merge Wget_Host Wget_Utils
begin

section \<open>Recursive retrieval (wget/src/recur.c)\<close>

text \<open>
  The traversal \<open>retrieve_tree\<close>: a breadth-first search over the links of the pages, the policy
  \<open>download_child\<close> that decides which link is enqueued, the blacklist of URLs that were enqueued
  before, the memory of the robots specifications, the limit of the depth and the log of rejected
  URLs; from \<open>res.c\<close> the download of \<open>robots.txt\<close>, from \<open>spider.c\<close> the list of broken links and
  from \<open>utils.c\<close> the filter by regular expressions.

  Fetching a URL (\<open>retrieve_url\<close>), extracting the links of a saved page and the file system
  are parameters, collected in the record \<open>web\<close>; they act on an abstract world \<open>'w\<close>, the books of
  downloads and the exit status. Everything else of the traversal is in the record \<open>tree\<close>. A
  failing assertion does not return.
\<close>

unbundle bit_operations_syntax

subsection \<open>Data\<close>

datatype reject_reason =
    WG_RR_SUCCESS | WG_RR_BLACKLIST | WG_RR_NOTHTTPS | WG_RR_NONHTTP | WG_RR_ABSOLUTE
  | WG_RR_DOMAIN | WG_RR_PARENT | WG_RR_LIST | WG_RR_REGEX | WG_RR_RULES
  | WG_RR_SPANNEDHOST | WG_RR_ROBOTS

datatype convert_options =
  CO_NOCONVERT | CO_CONVERT_TO_RELATIVE | CO_CONVERT_BASENAME_ONLY | CO_CONVERT_TO_COMPLETE | CO_NULLIFY_BASE

record urlpos =
  up_url :: url_struct
  local_name :: "string option"
  ignore_when_downloading :: bool
  link_relative_p :: bool
  link_complete_p :: bool
  link_base_p :: bool
  link_inline_p :: bool
  link_css_p :: bool
  link_noquote_html_p :: bool
  link_expect_html :: bool
  link_expect_css :: bool
  link_refresh_p :: bool
  refresh_timeout :: int
  convert :: convert_options
  up_pos :: int
  up_size :: int

definition new_urlpos :: "url_struct \<Rightarrow> urlpos" where
  \<comment> \<open>\<open>xnew0 (struct urlpos)\<close> with the URL set\<close>
  "new_urlpos u = \<lparr>up_url = u, local_name = None, ignore_when_downloading = False, link_relative_p = False,
     link_complete_p = False, link_base_p = False, link_inline_p = False, link_css_p = False,
     link_noquote_html_p = False, link_expect_html = False, link_expect_css = False, link_refresh_p = False,
     refresh_timeout = 0, convert = CO_NOCONVERT, up_pos = 0, up_size = 0\<rparr>"

record recur_options =
  filters :: match_options
  domains :: "string list option"
  exclude_domains :: "string list option"
  acceptregex :: "(string \<Rightarrow> bool) option" \<comment> \<open>the compiled expression under \<open>regex_match_fun\<close>\<close>
  rejectregex :: "(string \<Rightarrow> bool) option"
  https_only :: bool
  follow_ftp :: bool
  relative_only :: bool
  no_parent :: bool
  page_requisites :: bool
  spanhost :: bool
  use_robots :: bool
  spider :: bool
  delete_after :: bool
  reclevel :: int
  quota :: int
  rejected_log :: bool \<comment> \<open>a log is wanted and its file can be opened\<close>
  disabled_schemes :: "url_scheme list"

definition INFINITE_RECURSION :: int where "INFINITE_RECURSION = - 1"

record retr = \<comment> \<open>what \<open>retrieve_url\<close> returns\<close>
  r_status :: uerr_t
  r_file :: "string option"
  r_redirected :: "string option"
  r_dt :: "32 word"

record 'w web =
  web_fnmatch :: fnmatch
  retrieve_url :: "url_struct \<Rightarrow> string \<Rightarrow> string option \<Rightarrow> bool \<Rightarrow> 'w \<times> dl_state \<times> nat \<Rightarrow> retr \<times> 'w \<times> dl_state \<times> nat"
    \<comment> \<open>the flag tells the retrieval of a page from that of \<open>robots.txt\<close>\<close>
  get_urls_html :: "'w \<Rightarrow> string \<Rightarrow> string \<Rightarrow> urlpos list \<times> bool" \<comment> \<open>the links, and whether following is forbidden\<close>
  get_urls_css_file :: "'w \<Rightarrow> string \<Rightarrow> string \<Rightarrow> urlpos list"
  read_file :: "'w \<Rightarrow> string \<Rightarrow> string option"
  unlink_file :: "'w \<Rightarrow> string \<Rightarrow> 'w"
  total_downloaded_bytes :: "'w \<Rightarrow> int"

record 'w tree =
  t_queue :: url_queue
  t_blacklist :: "(string, string) hash_table"
  t_registry :: registry
  t_world :: 'w
  t_dl :: dl_state
  t_exit :: nat
  t_status :: uerr_t
  t_log :: "string option"

definition TEXTHTML :: "32 word" where "TEXTHTML = 0x0001"

definition RETROKF :: "32 word" where "RETROKF = 0x0002"

definition TEXTCSS :: "32 word" where "TEXTCSS = 0x0040"

subsection \<open>The blacklist and the filters\<close>

definition blacklist_add :: "(string, string) hash_table \<Rightarrow> string \<Rightarrow> (string, string) hash_table run" where
  "blacklist_add blacklist url = string_set_add blacklist (url_unescape url)"

definition blacklist_contains :: "(string, string) hash_table \<Rightarrow> string \<Rightarrow> bool run" where
  "blacklist_contains blacklist url = string_set_contains blacklist (url_unescape url)"

definition accept_url :: "recur_options \<Rightarrow> string \<Rightarrow> bool" where
  "accept_url opt s =
     (if (case acceptregex opt of None \<Rightarrow> False | Some m \<Rightarrow> \<not> m s) then False
      else if (case rejectregex opt of None \<Rightarrow> False | Some m \<Rightarrow> m s) then False
      else True)"

subsection \<open>robots.txt and broken links\<close>

definition RES_SPECS_LOCATION :: string where "RES_SPECS_LOCATION = ''/robots.txt''"

definition is_robots_txt_url :: "url_scheme list \<Rightarrow> string \<Rightarrow> bool" where
  "is_robots_txt_url disabled url = are_urls_equal url (uri_merge disabled url RES_SPECS_LOCATION)"

definition res_retrieve_file ::
  "'w web \<Rightarrow> recur_options \<Rightarrow> string \<Rightarrow> 'w \<times> dl_state \<times> nat \<Rightarrow> (string option option \<times> 'w \<times> dl_state \<times> nat) run" where
  \<comment> \<open>the file if the retrieval succeeded; the options it saves and restores only concern \<open>retrieve_url\<close>\<close>
  "res_retrieve_file web opt url sh = do {
     let robots_url = uri_merge (disabled_schemes opt) url RES_SPECS_LOCATION;
     p \<leftarrow> url_parse (disabled_schemes opt) robots_url True;
     Some (case p of
             Inl e \<Rightarrow> (None, sh)
           | Inr url_parsed \<Rightarrow>
               let (r, sh) = retrieve_url web url_parsed robots_url None False sh
               in (if r_status r = RETROK then Some (r_file r) else None, sh)) }"

definition nonexisting_url :: "url_scheme list \<Rightarrow> string string_table \<Rightarrow> string \<Rightarrow> string string_table run" where
  "nonexisting_url disabled nonexisting_urls_set url =
     (if is_robots_txt_url disabled url then Some nonexisting_urls_set
      else do {
        s \<leftarrow> ensure nonexisting_urls_set;
        s \<leftarrow> string_set_add s url;
        Some (Some s) })"

definition print_broken_links :: "string string_table \<Rightarrow> (nat \<times> string list) option run" where
  \<comment> \<open>the number and the lines that are printed; \<^term>\<open>Some None\<close> for "Found no broken links"\<close>
  "print_broken_links nonexisting_urls_set =
     (case nonexisting_urls_set of
        None \<Rightarrow> Some None
      | Some ht \<Rightarrow>
          if hash_table_count ht > 0 then Some (Some (hash_table_count ht, map fst (hash_table_drain ht)))
          else None)"

subsection \<open>The log of rejected URLs\<close>

definition write_reject_log_header :: string where
  "write_reject_log_header =
     concat (map (\<lambda>f. f @ [TAB]) [''REASON'', ''U_URL'', ''U_SCHEME'', ''U_HOST'', ''U_PORT'', ''U_PATH'', ''U_PARAMS'', ''U_QUERY'',
       ''U_FRAGMENT'', ''P_URL'', ''P_SCHEME'', ''P_HOST'', ''P_PORT'', ''P_PATH'', ''P_PARAMS'', ''P_QUERY'']) @ ''P_FRAGMENT'' @ [LF]"

fun scheme_str :: "url_scheme \<Rightarrow> string" where
  "scheme_str SCHEME_HTTP = ''SCHEME_HTTP''"
| "scheme_str SCHEME_HTTPS = ''SCHEME_HTTPS''"
| "scheme_str SCHEME_FTPS = ''SCHEME_FTPS''"
| "scheme_str SCHEME_FTP = ''SCHEME_FTP''"
| "scheme_str SCHEME_INVALID = ''SCHEME_INVALID''"

definition or_empty :: "string option \<Rightarrow> string" where
  "or_empty s = (case s of None \<Rightarrow> [] | Some s \<Rightarrow> s)"

definition write_reject_log_url :: "url_struct \<Rightarrow> string run" where
  "write_reject_log_url url = do {
     escaped_str \<leftarrow> url_escape (u_url url);
     Some (escaped_str @ [TAB] @ scheme_str (u_scheme url) @ [TAB] @ u_host url @ [TAB] @ print_int (u_port url) @ [TAB]
       @ u_path url @ [TAB] @ or_empty (u_params url) @ [TAB] @ or_empty (u_query url) @ [TAB] @ or_empty (u_fragment url)) }"

fun reason_str :: "reject_reason \<Rightarrow> string" where
  "reason_str WG_RR_SUCCESS = ''SUCCESS''"
| "reason_str WG_RR_BLACKLIST = ''BLACKLIST''"
| "reason_str WG_RR_NOTHTTPS = ''NOTHTTPS''"
| "reason_str WG_RR_NONHTTP = ''NONHTTP''"
| "reason_str WG_RR_ABSOLUTE = ''ABSOLUTE''"
| "reason_str WG_RR_DOMAIN = ''DOMAIN''"
| "reason_str WG_RR_PARENT = ''PARENT''"
| "reason_str WG_RR_LIST = ''LIST''"
| "reason_str WG_RR_REGEX = ''REGEX''"
| "reason_str WG_RR_RULES = ''RULES''"
| "reason_str WG_RR_SPANNEDHOST = ''SPANNEDHOST''"
| "reason_str WG_RR_ROBOTS = ''ROBOTS''"

definition write_reject_log_reason :: "string option \<Rightarrow> reject_reason \<Rightarrow> url_struct \<Rightarrow> url_struct \<Rightarrow> string option run" where
  "write_reject_log_reason fp reason url parent =
     (case fp of
        None \<Rightarrow> Some None
      | Some t \<Rightarrow> do {
          u \<leftarrow> write_reject_log_url url;
          p \<leftarrow> write_reject_log_url parent;
          Some (Some (t @ reason_str reason @ [TAB] @ u @ [TAB] @ p @ [LF])) })"

subsection \<open>Which links to follow\<close>

definition robots_specs :: "'w web \<Rightarrow> recur_options \<Rightarrow> url_struct \<Rightarrow> 'w tree \<Rightarrow> (robot_specs option \<times> 'w tree) run" where
  \<comment> \<open>the specifications for the host of the URL, retrieved and registered when there are none yet\<close>
  "robots_specs web opt u st = do {
     specs \<leftarrow> res_get_specs (t_registry st) (u_host u) (u_port u);
     if specs \<noteq> None then Some (specs, st)
     else do {
       (rfile, w, dl, x) \<leftarrow> res_retrieve_file web opt (u_url u) (t_world st, t_dl st, t_exit st);
       (specs, w) \<leftarrow>
         (case rfile of
            Some name \<Rightarrow> do {
              rfile \<leftarrow> name; \<comment> \<open>a null name would be dereferenced\<close>
              specs \<leftarrow> res_parse_from_file (read_file web w rfile);
              Some (specs, if delete_after opt \<or> spider opt \<or> match_tail rfile ''.tmp'' False then unlink_file web w rfile else w) }
          | None \<Rightarrow> do { specs \<leftarrow> res_parse []; Some (Some specs, w) });
       reg \<leftarrow> res_register_specs (t_registry st) (u_host u) (u_port u) specs;
       Some (specs, st\<lparr>t_registry := reg, t_world := w, t_dl := dl, t_exit := x\<rparr>) } }"

definition download_child ::
  "'w web \<Rightarrow> recur_options \<Rightarrow> url_struct \<Rightarrow> urlpos \<Rightarrow> url_struct \<Rightarrow> int \<Rightarrow> 'w tree \<Rightarrow> (reject_reason \<times> 'w tree) run" where
  "download_child web opt start_url_parsed upos parent depth st = do {
     let u = up_url upos;
     let url = u_url u;
     known \<leftarrow> blacklist_contains (t_blacklist st) url;
     let u_scheme_like_http = schemes_are_similar_p (u_scheme u) SCHEME_HTTP;
     if known then Some (WG_RR_BLACKLIST, st)
     else if https_only opt \<and> u_scheme u \<noteq> SCHEME_HTTPS then Some (WG_RR_NOTHTTPS, st)
     else if \<not> u_scheme_like_http \<and> \<not> ((u_scheme u = SCHEME_FTP \<or> u_scheme u = SCHEME_FTPS) \<and> follow_ftp opt)
     then Some (WG_RR_NONHTTP, st)
     else if u_scheme_like_http \<and> relative_only opt \<and> \<not> link_relative_p upos then Some (WG_RR_ABSOLUTE, st)
     else if \<not> accept_domain (domains opt) (exclude_domains opt) u then Some (WG_RR_DOMAIN, st)
     else if no_parent opt
        \<and> schemes_are_similar_p (u_scheme u) (u_scheme start_url_parsed)
        \<and> strcaseeq (u_host u) (u_host start_url_parsed)
        \<and> (u_scheme u \<noteq> u_scheme start_url_parsed \<or> u_port u = u_port start_url_parsed)
        \<and> \<not> (page_requisites opt \<and> link_inline_p upos)
        \<and> \<not> subdir_p (filters opt) (u_dir start_url_parsed) (u_dir u)
     then Some (WG_RR_PARENT, st)
     else if (include_dirs (filters opt) \<noteq> None \<or> exclude_dirs (filters opt) \<noteq> None)
        \<and> \<not> accdir (web_fnmatch web) (filters opt) (u_dir u)
     then Some (WG_RR_LIST, st)
     else if \<not> accept_url opt url then Some (WG_RR_REGEX, st)
     else if u_file u \<noteq> []
        \<and> \<not> (has_html_suffix_p (u_file u)
             \<and> (reclevel opt = INFINITE_RECURSION \<or> depth < reclevel opt - 1 \<or> page_requisites opt))
        \<and> \<not> acceptable (web_fnmatch web) (filters opt) (u_file u)
     then Some (WG_RR_RULES, st)
     else if schemes_are_similar_p (u_scheme u) (u_scheme parent)
        \<and> \<not> spanhost opt \<and> \<not> strcaseeq (u_host parent) (u_host u)
     then Some (WG_RR_SPANNEDHOST, st)
     else if use_robots opt \<and> u_scheme_like_http then do {
       (specs, st) \<leftarrow> robots_specs web opt u st;
       if \<not> res_match_path specs (u_path u) then do {
         bl \<leftarrow> blacklist_add (t_blacklist st) url;
         Some (WG_RR_ROBOTS, st\<lparr>t_blacklist := bl\<rparr>) }
       else Some (WG_RR_SUCCESS, st) }
     else Some (WG_RR_SUCCESS, st) }"

definition descend_redirect ::
  "'w web \<Rightarrow> recur_options \<Rightarrow> url_struct \<Rightarrow> string \<Rightarrow> url_struct \<Rightarrow> int \<Rightarrow> 'w tree \<Rightarrow> (reject_reason \<times> 'w tree) run" where
  "descend_redirect web opt start_url_parsed redirected orig_parsed depth st = do {
     p \<leftarrow> url_parse (disabled_schemes opt) redirected False;
     (case p of
        Inl e \<Rightarrow> None \<comment> \<open>\<open>assert (new_parsed != NULL)\<close>\<close>
      | Inr new_parsed \<Rightarrow> do {
          (reason, st) \<leftarrow> download_child web opt start_url_parsed (new_urlpos new_parsed) orig_parsed depth st;
          if reason = WG_RR_SUCCESS \<or> reason = WG_RR_LIST \<or> reason = WG_RR_REGEX then do {
            bl \<leftarrow> blacklist_add (t_blacklist st) (u_url new_parsed);
            Some (WG_RR_SUCCESS, st\<lparr>t_blacklist := bl\<rparr>) }
          else Some (reason, st) }) }"

subsection \<open>One round of the traversal\<close>

definition set_has :: "string string_table \<Rightarrow> string \<Rightarrow> bool run" where
  \<comment> \<open>\<open>set && string_set_contains (set, file)\<close>\<close>
  "set_has t s = (case t of None \<Rightarrow> Some False | Some ht \<Rightarrow> string_set_contains ht s)"

record page =
  pg_descend :: bool
  pg_is_css :: bool
  pg_file :: "string option"
  pg_url :: string

definition downloaded_before :: "'w tree \<Rightarrow> string \<Rightarrow> string option run" where
  \<comment> \<open>the file of the URL in \<open>dl_url_file_map\<close>\<close>
  "downloaded_before st url =
     (case dl_url_file_map (t_dl st) of None \<Rightarrow> Some None | Some ht \<Rightarrow> hash_table_get ht url)"

definition reuse_page :: "url_item \<Rightarrow> string \<Rightarrow> 'w tree \<Rightarrow> page run" where
  "reuse_page item path st = do {
     css \<leftarrow> set_has (downloaded_css_set (t_dl st)) path;
     html \<leftarrow> set_has (downloaded_html_set (t_dl st)) path;
     let is_css_bool = q_css_allowed item \<and> css;
     Some (if is_css_bool \<or> q_html_allowed item \<and> html
           then \<lparr>pg_descend = True, pg_is_css = is_css_bool, pg_file = Some path, pg_url = q_url item\<rparr>
           else \<lparr>pg_descend = False, pg_is_css = False, pg_file = Some path, pg_url = q_url item\<rparr>) }"

definition load_page :: "'w web \<Rightarrow> recur_options \<Rightarrow> url_struct \<Rightarrow> url_item \<Rightarrow> 'w tree \<Rightarrow> (page \<times> 'w tree) run" where
  \<comment> \<open>the branch for a URL that was not downloaded before\<close>
  "load_page web opt start_url_parsed item st = do {
     p \<leftarrow> url_parse (disabled_schemes opt) (q_url item) True;
     (case p of
        Inl e \<Rightarrow>
          Some (\<lparr>pg_descend = False, pg_is_css = False, pg_file = None, pg_url = q_url item\<rparr>,
            st\<lparr>t_exit := inform_exit_status URLERROR (t_exit st)\<rparr>)
      | Inr url_parsed \<Rightarrow> do {
          let (r, w, dl, x) = retrieve_url web url_parsed (q_url item) (q_referer item) True (t_world st, t_dl st, t_exit st);
          let st = st\<lparr>t_world := w, t_dl := dl, t_exit := x, t_status := r_status r\<rparr>;
          let loaded = (r_file r \<noteq> None \<and> r_status r = RETROK \<and> r_dt r AND RETROKF \<noteq> 0);
          let html = (q_html_allowed item \<and> loaded \<and> r_dt r AND TEXTHTML \<noteq> 0);
          let css = (loaded \<and> (r_dt r AND TEXTCSS \<noteq> 0 \<or> q_css_allowed item));
          let descend = (html \<or> css);
          (case r_redirected r of
             None \<Rightarrow> Some (\<lparr>pg_descend = descend, pg_is_css = css, pg_file = r_file r, pg_url = u_url url_parsed\<rparr>, st)
           | Some redirected \<Rightarrow> do {
               (descend, st) \<leftarrow>
                 (if descend then do {
                    (reason, st) \<leftarrow> descend_redirect web opt start_url_parsed redirected url_parsed (q_depth item) st;
                    if reason = WG_RR_SUCCESS then do {
                      bl \<leftarrow> blacklist_add (t_blacklist st) (q_url item);
                      Some (True, st\<lparr>t_blacklist := bl\<rparr>) }
                    else do {
                      log \<leftarrow> write_reject_log_reason (t_log st) reason url_parsed start_url_parsed;
                      Some (False, st\<lparr>t_log := log\<rparr>) } }
                  else Some (False, st));
               Some (\<lparr>pg_descend = descend, pg_is_css = css, pg_file = r_file r, pg_url = redirected\<rparr>, st) }) }) }"

definition get_page :: "'w web \<Rightarrow> recur_options \<Rightarrow> url_struct \<Rightarrow> url_item \<Rightarrow> 'w tree \<Rightarrow> (page \<times> 'w tree) run" where
  "get_page web opt start_url_parsed item st = do {
     old \<leftarrow> downloaded_before st (q_url item);
     (case old of
        Some path \<Rightarrow> do { pg \<leftarrow> reuse_page item path st; Some (pg, st) }
      | None \<Rightarrow> load_page web opt start_url_parsed item st) }"

definition depth_check :: "recur_options \<Rightarrow> int \<Rightarrow> bool \<Rightarrow> bool \<times> bool" where
  \<comment> \<open>\<open>descend\<close> and \<open>dash_p_leaf_HTML\<close>\<close>
  "depth_check opt depth descend =
     (if descend \<and> depth \<ge> reclevel opt \<and> reclevel opt \<noteq> INFINITE_RECURSION
      then if page_requisites opt \<and> (depth = reclevel opt \<or> depth = reclevel opt + 1) then (descend, True) else (False, False)
      else (descend, False))"

fun enqueue_children ::
  "'w web \<Rightarrow> recur_options \<Rightarrow> url_struct \<Rightarrow> url_struct \<Rightarrow> string \<Rightarrow> int \<Rightarrow> bool \<Rightarrow> urlpos list \<Rightarrow> 'w tree \<Rightarrow> 'w tree run" where
  \<comment> \<open>\<open>depth + 1\<close> cannot overflow: a URL at depth \<open>d\<close> has \<open>d\<close> blacklisted URLs above it\<close>
  "enqueue_children web opt start_url_parsed url_parsed referer_url depth dash_p_leaf_HTML [] st = Some st"
| "enqueue_children web opt start_url_parsed url_parsed referer_url depth dash_p_leaf_HTML (child # children) st =
     (if ignore_when_downloading child \<or> dash_p_leaf_HTML \<and> \<not> link_inline_p child
      then enqueue_children web opt start_url_parsed url_parsed referer_url depth dash_p_leaf_HTML children st
      else do {
        (r, st) \<leftarrow> download_child web opt start_url_parsed child url_parsed depth st;
        st \<leftarrow>
          (if r = WG_RR_SUCCESS then do {
             queue \<leftarrow> url_enqueue (t_queue st) \<lparr>q_url = u_url (up_url child), q_referer = Some referer_url, q_depth = depth + 1,
               q_html_allowed = link_expect_html child, q_css_allowed = link_expect_css child\<rparr>;
             bl \<leftarrow> blacklist_add (t_blacklist st) (u_url (up_url child));
             Some (st\<lparr>t_queue := queue, t_blacklist := bl\<rparr>) }
           else do {
             log \<leftarrow> write_reject_log_reason (t_log st) r (up_url child) url_parsed;
             Some (st\<lparr>t_log := log\<rparr>) });
        enqueue_children web opt start_url_parsed url_parsed referer_url depth dash_p_leaf_HTML children st })"

definition page_links :: "'w web \<Rightarrow> recur_options \<Rightarrow> page \<Rightarrow> 'w tree \<Rightarrow> urlpos list run" where
  "page_links web opt pg st = do {
     path \<leftarrow> pg_file pg;
     Some (if pg_is_css pg then get_urls_css_file web (t_world st) path (pg_url pg)
           else let (children, meta_disallow_follow) = get_urls_html web (t_world st) path (pg_url pg)
                in if use_robots opt \<and> meta_disallow_follow then [] else children) }"

definition follow_links :: "'w web \<Rightarrow> recur_options \<Rightarrow> url_struct \<Rightarrow> page \<Rightarrow> int \<Rightarrow> bool \<Rightarrow> 'w tree \<Rightarrow> 'w tree run" where
  "follow_links web opt start_url_parsed pg depth dash_p_leaf_HTML st = do {
     children \<leftarrow> page_links web opt pg st;
     if children = [] then Some st
     else do {
       p \<leftarrow> url_parse (disabled_schemes opt) (pg_url pg) True;
       (case p of
          Inl e \<Rightarrow> None \<comment> \<open>\<open>assert (url_parsed != NULL)\<close>\<close>
        | Inr url_parsed \<Rightarrow> do {
            referer_url \<leftarrow> (if u_user url_parsed \<noteq> None then url_string url_parsed URL_AUTH_HIDE else Some (pg_url pg));
            enqueue_children web opt start_url_parsed url_parsed referer_url depth dash_p_leaf_HTML children st }) } }"

definition discard_file :: "'w web \<Rightarrow> recur_options \<Rightarrow> string option \<Rightarrow> 'w tree \<Rightarrow> 'w tree run" where
  "discard_file web opt path st =
     (case path of
        None \<Rightarrow> Some st
      | Some path \<Rightarrow>
          if delete_after opt \<or> spider opt \<or> \<not> acceptable (web_fnmatch web) (filters opt) path then do {
            dl \<leftarrow> register_delete_file (t_dl st) path;
            Some (st\<lparr>t_world := unlink_file web (t_world st) path, t_dl := dl\<rparr>) }
          else Some st)"

definition over_quota :: "'w web \<Rightarrow> recur_options \<Rightarrow> 'w tree \<Rightarrow> bool" where
  "over_quota web opt st \<longleftrightarrow> quota opt \<noteq> 0 \<and> total_downloaded_bytes web (t_world st) > quota opt"

definition retrieve_step :: "'w web \<Rightarrow> recur_options \<Rightarrow> url_struct \<Rightarrow> 'w tree \<Rightarrow> (url_item \<times> 'w tree) option run" where
  \<comment> \<open>one round of \<open>while (1)\<close>, with the item it took from the queue; \<^term>\<open>Some None\<close> for \<open>break\<close>\<close>
  "retrieve_step web opt start_url_parsed st =
     (if over_quota web opt st then Some None
      else if t_status st = FWRITEERR then Some None
      else do {
        r \<leftarrow> url_dequeue (t_queue st);
        (case r of
           None \<Rightarrow> Some None
         | Some (item, queue) \<Rightarrow> do {
             (pg, st) \<leftarrow> get_page web opt start_url_parsed item (st\<lparr>t_queue := queue\<rparr>);
             let (descend, dash_p_leaf_HTML) = depth_check opt (q_depth item) (pg_descend pg);
             st \<leftarrow> (if descend then follow_links web opt start_url_parsed pg (q_depth item) dash_p_leaf_HTML st else Some st);
             st \<leftarrow> discard_file web opt (pg_file pg) st;
             Some (Some (item, st)) }) })"

partial_function (option) retrieve_loop :: "'w web \<Rightarrow> recur_options \<Rightarrow> url_struct \<Rightarrow> 'w tree \<Rightarrow> 'w tree run" where
  "retrieve_loop web opt start_url_parsed st = do {
     r \<leftarrow> retrieve_step web opt start_url_parsed st;
     (case r of None \<Rightarrow> Some st | Some (item, st) \<Rightarrow> retrieve_loop web opt start_url_parsed st) }"

declare retrieve_loop.simps [code]

definition tree_init :: "recur_options \<Rightarrow> url_struct \<Rightarrow> registry \<Rightarrow> 'w \<Rightarrow> dl_state \<Rightarrow> nat \<Rightarrow> 'w tree run" where
  "tree_init opt start_url_parsed reg w dl x = do {
     bl \<leftarrow> make_string_hash_table 0;
     queue \<leftarrow> url_enqueue url_queue_new \<lparr>q_url = u_url start_url_parsed, q_referer = None, q_depth = 0, q_html_allowed = True, q_css_allowed = False\<rparr>;
     bl \<leftarrow> blacklist_add bl (u_url start_url_parsed);
     Some \<lparr>t_queue = queue, t_blacklist = bl, t_registry = reg, t_world = w, t_dl = dl, t_exit = x, t_status = RETROK,
       t_log = (if rejected_log opt then Some write_reject_log_header else None)\<rparr> }"

definition retrieve_tree ::
  "'w web \<Rightarrow> recur_options \<Rightarrow> url_struct \<Rightarrow> registry \<Rightarrow> 'w \<Rightarrow> dl_state \<Rightarrow> nat \<Rightarrow> (uerr_t \<times> 'w tree) run" where
  "retrieve_tree web opt start_url_parsed reg w dl x = do {
     st \<leftarrow> tree_init opt start_url_parsed reg w dl x;
     st \<leftarrow> retrieve_loop web opt start_url_parsed st;
     Some (if over_quota web opt st then QUOTEXC else if t_status st = FWRITEERR then FWRITEERR else RETROK, st) }"

end
