(* ===== verification/Wget_Recur_Props.thy ===== *)
theory Wget_Recur_Props
  imports Wget_Recur
begin

section \<open>What the traversal loads (wget/src/recur.c)\<close>

text \<open>
  The decision of \<open>download_child\<close> as a policy, the invariant of the traversal (what is queued was
  admitted, no URL is queued twice), its termination on a finite web, and the memory of the robots
  specifications.
\<close>

subsection \<open>The policy\<close>

definition key :: "url_item \<Rightarrow> string" where
  "key i = url_unescape (q_url i)"

definition http_like :: "url_struct \<Rightarrow> bool" where
  "http_like u \<longleftrightarrow> u_scheme u = SCHEME_HTTP \<or> u_scheme u = SCHEME_HTTPS"

definition below_start :: "recur_options \<Rightarrow> url_struct \<Rightarrow> url_struct \<Rightarrow> bool" where
  \<comment> \<open>on the server of the start URL, in its directory\<close>
  "below_start opt start u \<longleftrightarrow> subdir_p (filters opt) (u_dir start) (u_dir u)"

definition same_server :: "url_struct \<Rightarrow> url_struct \<Rightarrow> bool" where
  "same_server u v \<longleftrightarrow> schemes_are_similar_p (u_scheme u) (u_scheme v) \<and> lower (u_host u) = lower (u_host v)
     \<and> (u_scheme u \<noteq> u_scheme v \<or> u_port u = u_port v)"

definition admissible ::
  "'w web \<Rightarrow> recur_options \<Rightarrow> url_struct \<Rightarrow> url_struct \<Rightarrow> int \<Rightarrow> urlpos \<Rightarrow> bool" where
  \<comment> \<open>the criteria that depend on the options, the link and the page only\<close>
  "admissible web opt start parent depth upos \<longleftrightarrow>
     (let u = up_url upos in
      (https_only opt \<longrightarrow> u_scheme u = SCHEME_HTTPS) \<and>
      (http_like u \<or> follow_ftp opt \<and> (u_scheme u = SCHEME_FTP \<or> u_scheme u = SCHEME_FTPS)) \<and>
      (relative_only opt \<and> http_like u \<longrightarrow> link_relative_p upos) \<and>
      accept_domain (domains opt) (exclude_domains opt) u \<and>
      (no_parent opt \<and> same_server u start \<and> \<not> (page_requisites opt \<and> link_inline_p upos) \<longrightarrow> below_start opt start u) \<and>
      ((include_dirs (filters opt) \<noteq> None \<or> exclude_dirs (filters opt) \<noteq> None) \<longrightarrow> accdir (web_fnmatch web) (filters opt) (u_dir u)) \<and>
      accept_url opt (u_url u) \<and>
      (u_file u \<noteq> [] \<longrightarrow> acceptable (web_fnmatch web) (filters opt) (u_file u) \<or>
         has_html_suffix_p (u_file u) \<and> (reclevel opt = - 1 \<or> depth < reclevel opt - 1 \<or> page_requisites opt)) \<and>
      (schemes_are_similar_p (u_scheme u) (u_scheme parent) \<longrightarrow> spanhost opt \<or> lower (u_host parent) = lower (u_host u)))"

lemma http_like_iff: "schemes_are_similar_p (u_scheme u) SCHEME_HTTP \<longleftrightarrow> http_like u"
  by (auto simp: schemes_are_similar_p_def http_like_def)

lemma contains_key: "str_inv bl \<Longrightarrow> blacklist_contains bl url = Some (url_unescape url \<in> dom (smap bl))"
  by (simp add: blacklist_contains_def set_contains_ok)

definition refusal :: "'w web \<Rightarrow> recur_options \<Rightarrow> url_struct \<Rightarrow> url_struct \<Rightarrow> int \<Rightarrow> urlpos \<Rightarrow> reject_reason option" where
  \<comment> \<open>the first criterion that fails, in the order of the code\<close>
  "refusal web opt start parent depth upos =
     (let u = up_url upos in
      if https_only opt \<and> u_scheme u \<noteq> SCHEME_HTTPS then Some WG_RR_NOTHTTPS
      else if \<not> schemes_are_similar_p (u_scheme u) SCHEME_HTTP \<and> \<not> ((u_scheme u = SCHEME_FTP \<or> u_scheme u = SCHEME_FTPS) \<and> follow_ftp opt)
      then Some WG_RR_NONHTTP
      else if schemes_are_similar_p (u_scheme u) SCHEME_HTTP \<and> relative_only opt \<and> \<not> link_relative_p upos then Some WG_RR_ABSOLUTE
      else if \<not> accept_domain (domains opt) (exclude_domains opt) u then Some WG_RR_DOMAIN
      else if no_parent opt \<and> schemes_are_similar_p (u_scheme u) (u_scheme start) \<and> strcaseeq (u_host u) (u_host start)
        \<and> (u_scheme u \<noteq> u_scheme start \<or> u_port u = u_port start) \<and> \<not> (page_requisites opt \<and> link_inline_p upos)
        \<and> \<not> subdir_p (filters opt) (u_dir start) (u_dir u)
      then Some WG_RR_PARENT
      else if (include_dirs (filters opt) \<noteq> None \<or> exclude_dirs (filters opt) \<noteq> None) \<and> \<not> accdir (web_fnmatch web) (filters opt) (u_dir u)
      then Some WG_RR_LIST
      else if \<not> accept_url opt (u_url u) then Some WG_RR_REGEX
      else if u_file u \<noteq> [] \<and> \<not> (has_html_suffix_p (u_file u) \<and> (reclevel opt = INFINITE_RECURSION \<or> depth < reclevel opt - 1 \<or> page_requisites opt))
        \<and> \<not> acceptable (web_fnmatch web) (filters opt) (u_file u)
      then Some WG_RR_RULES
      else if schemes_are_similar_p (u_scheme u) (u_scheme parent) \<and> \<not> spanhost opt \<and> \<not> strcaseeq (u_host parent) (u_host u)
      then Some WG_RR_SPANNEDHOST
      else None)"

lemma if_chain:
  "(if a1 then f r1 else if a2 then f r2 else if a3 then f r3 else if a4 then f r4 else if a5 then f r5 else if a6 then f r6
    else if a7 then f r7 else if a8 then f r8 else if a9 then f r9 else z)
   = (case (if a1 then Some r1 else if a2 then Some r2 else if a3 then Some r3 else if a4 then Some r4 else if a5 then Some r5 else if a6 then Some r6
        else if a7 then Some r7 else if a8 then Some r8 else if a9 then Some r9 else None) of Some r \<Rightarrow> f r | None \<Rightarrow> z)"
  by simp

lemma download_child_eq:
  assumes "str_inv (t_blacklist st)"
  shows "download_child web opt start upos parent depth st =
    (if url_unescape (u_url (up_url upos)) \<in> dom (smap (t_blacklist st)) then Some (WG_RR_BLACKLIST, st)
     else case refusal web opt start parent depth upos of
            Some r \<Rightarrow> Some (r, st)
          | None \<Rightarrow>
              if use_robots opt \<and> http_like (up_url upos) then do {
                (specs, st) \<leftarrow> robots_specs web opt (up_url upos) st;
                if \<not> res_match_path specs (u_path (up_url upos)) then do {
                  bl \<leftarrow> blacklist_add (t_blacklist st) (u_url (up_url upos));
                  Some (WG_RR_ROBOTS, st\<lparr>t_blacklist := bl\<rparr>) }
                else Some (WG_RR_SUCCESS, st) }
              else Some (WG_RR_SUCCESS, st))"
  unfolding download_child_def refusal_def Let_def contains_key[OF assms] bind.bind_lunit http_like_iff[symmetric]
  by (rule if_cong[OF refl refl], rule if_chain[where f = "\<lambda>r. Some (r, st)"])

lemma refusal_None: "refusal web opt start parent depth upos = None \<longleftrightarrow> admissible web opt start parent depth upos"
proof -
  have chain: "(if a then Some r else x) = None \<longleftrightarrow> \<not> a \<and> x = None" for a :: bool and r :: reject_reason and x by simp
  show ?thesis
    unfolding refusal_def admissible_def Let_def chain http_like_iff strcaseeq_def INFINITE_RECURSION_def same_server_def below_start_def
    by blast
qed

lemma refusal_reason: "refusal web opt start parent depth upos = Some r \<Longrightarrow> r \<noteq> WG_RR_SUCCESS \<and> r \<noteq> WG_RR_ROBOTS \<and> r \<noteq> WG_RR_BLACKLIST"
  unfolding refusal_def Let_def by (simp split: if_splits; blast)

lemma admits_core:
  assumes "str_inv (t_blacklist st)"
  shows "download_child web opt start upos parent depth st = Some (WG_RR_SUCCESS, st') \<longleftrightarrow>
    url_unescape (u_url (up_url upos)) \<notin> dom (smap (t_blacklist st)) \<and>
    admissible web opt start parent depth upos \<and>
    (if use_robots opt \<and> http_like (up_url upos)
     then \<exists>specs. robots_specs web opt (up_url upos) st = Some (specs, st') \<and> res_match_path specs (u_path (up_url upos))
     else st' = st)"
proof (cases "refusal web opt start parent depth upos")
  case None
  have "(robots_specs web opt (up_url upos) st \<bind> (\<lambda>(specs, st).
      if \<not> res_match_path specs (u_path (up_url upos))
      then blacklist_add (t_blacklist st) (u_url (up_url upos)) \<bind> (\<lambda>bl. Some (WG_RR_ROBOTS, st\<lparr>t_blacklist := bl\<rparr>))
      else Some (WG_RR_SUCCESS, st))) = Some (WG_RR_SUCCESS, st')
    \<longleftrightarrow> (\<exists>specs. robots_specs web opt (up_url upos) st = Some (specs, st') \<and> res_match_path specs (u_path (up_url upos)))"
    by (auto simp: bind_eq_Some_conv split: if_splits)
  with None refusal_None[of web opt start parent depth upos] show ?thesis
    by (simp add: download_child_eq[OF assms] eq_commute)
next
  case (Some r)
  with refusal_None[of web opt start parent depth upos] refusal_reason[OF Some] show ?thesis
    by (simp add: download_child_eq[OF assms])
qed

subsection \<open>What a step leaves alone\<close>

definition grows :: "'w tree \<Rightarrow> 'w tree \<Rightarrow> bool" where
  \<comment> \<open>the queue is untouched and the blacklist only grows\<close>
  "grows st st' \<longleftrightarrow> t_queue st' = t_queue st \<and>
     (str_inv (t_blacklist st) \<longrightarrow> str_inv (t_blacklist st') \<and> dom (smap (t_blacklist st)) \<subseteq> dom (smap (t_blacklist st')))"

lemma grows_refl: "grows st st"
  by (simp add: grows_def)

lemma grows_trans: "grows a b \<Longrightarrow> grows b c \<Longrightarrow> grows a c"
  by (auto simp: grows_def)

lemma grows_same: "t_queue st' = t_queue st \<Longrightarrow> t_blacklist st' = t_blacklist st \<Longrightarrow> grows st st'"
  by (simp add: grows_def)

lemma blacklist_add_Some:
  assumes "str_inv bl" "blacklist_add bl url = Some bl'"
  shows "str_inv bl'" "dom (smap bl') = insert (url_unescape url) (dom (smap bl))"
  using set_add_Some[OF assms(1)] assms(2) by (auto simp: blacklist_add_def)

lemma grows_add: "blacklist_add (t_blacklist st) url = Some bl \<Longrightarrow> grows st (st\<lparr>t_blacklist := bl\<rparr>)"
  using blacklist_add_Some[of "t_blacklist st" url bl] by (auto simp: grows_def)

lemma robots_specs_frame:
  assumes "robots_specs web opt u st = Some (specs, st')"
  shows "t_queue st' = t_queue st" "t_blacklist st' = t_blacklist st"
  using assms unfolding robots_specs_def by (auto simp: bind_eq_Some_conv split: if_splits)

lemma download_child_grows:
  assumes "str_inv (t_blacklist st)" "download_child web opt start upos parent depth st = Some (r, st')"
  shows "grows st st'"
proof -
  have robots: "grows st st'" if "robots_specs web opt (up_url upos) st = Some (specs, st1)"
    "(if \<not> res_match_path specs (u_path (up_url upos)) then do {
        bl \<leftarrow> blacklist_add (t_blacklist st1) (u_url (up_url upos));
        Some (WG_RR_ROBOTS, st1\<lparr>t_blacklist := bl\<rparr>) }
      else Some (WG_RR_SUCCESS, st1)) = Some (r, st')" for specs st1
    using that(2) grows_same[OF robots_specs_frame[OF that(1)]] grows_add[of st1] grows_trans[of st st1]
    by (auto simp: bind_eq_Some_conv split: if_splits)
  show ?thesis
    using assms(2) robots unfolding download_child_eq[OF assms(1)]
    by (auto simp: bind_eq_Some_conv grows_refl split: if_splits option.splits)
qed

lemma download_child_success:
  assumes "str_inv (t_blacklist st)" "download_child web opt start upos parent depth st = Some (WG_RR_SUCCESS, st')"
  shows "t_blacklist st' = t_blacklist st" "url_unescape (u_url (up_url upos)) \<notin> dom (smap (t_blacklist st))"
    "admissible web opt start parent depth upos"
  using assms(2) robots_specs_frame(2)[of web opt "up_url upos" st] unfolding admits_core[OF assms(1)] by (auto split: if_splits)

lemma descend_redirect_grows:
  assumes "str_inv (t_blacklist st)" "descend_redirect web opt start red orig depth st = Some (r, st')"
  shows "grows st st'"
proof -
  from assms(2) obtain p where p: "url_parse (disabled_schemes opt) red False = Some p"
    by (auto simp: descend_redirect_def bind_eq_Some_conv)
  with assms(2) obtain u where u: "p = Inr u" by (cases p) (auto simp: descend_redirect_def)
  from assms(2) p u obtain r1 st1 where d: "download_child web opt start (new_urlpos u) orig depth st = Some (r1, st1)"
    and r: "(if r1 = WG_RR_SUCCESS \<or> r1 = WG_RR_LIST \<or> r1 = WG_RR_REGEX then do {
            bl \<leftarrow> blacklist_add (t_blacklist st1) (u_url u);
            Some (WG_RR_SUCCESS, st1\<lparr>t_blacklist := bl\<rparr>) }
          else Some (r1, st1)) = Some (r, st')"
    by (auto simp: descend_redirect_def bind_eq_Some_conv)
  from download_child_grows[OF assms(1) d] r grows_add[of st1] grows_trans[of st st1] show ?thesis
    by (auto simp: bind_eq_Some_conv split: if_splits)
qed

definition loaded_page :: "url_item \<Rightarrow> retr \<Rightarrow> bool" where
  \<comment> \<open>the page has links to follow\<close>
  "loaded_page item r \<longleftrightarrow> r_file r \<noteq> None \<and> r_status r = RETROK \<and> r_dt r AND RETROKF \<noteq> 0 \<and>
     (q_html_allowed item \<and> r_dt r AND TEXTHTML \<noteq> 0 \<or> r_dt r AND TEXTCSS \<noteq> 0 \<or> q_css_allowed item)"

definition page_css :: "url_item \<Rightarrow> retr \<Rightarrow> bool" where
  "page_css item r \<longleftrightarrow> r_file r \<noteq> None \<and> r_status r = RETROK \<and> r_dt r AND RETROKF \<noteq> 0 \<and> (r_dt r AND TEXTCSS \<noteq> 0 \<or> q_css_allowed item)"

lemma load_page_eq:
  assumes "url_parse (disabled_schemes opt) (q_url item) True = Some (Inr u)"
    and "retrieve_url web u (q_url item) (q_referer item) True (t_world st, t_dl st, t_exit st) = (r, w, dl, x)"
    and "st1 = st\<lparr>t_world := w, t_dl := dl, t_exit := x, t_status := r_status r\<rparr>"
  shows "load_page web opt start item st =
    (case r_redirected r of
       None \<Rightarrow> Some (\<lparr>pg_descend = loaded_page item r, pg_is_css = page_css item r, pg_file = r_file r, pg_url = u_url u\<rparr>, st1)
     | Some red \<Rightarrow>
         if loaded_page item r then do {
           (reason, st) \<leftarrow> descend_redirect web opt start red u (q_depth item) st1;
           if reason = WG_RR_SUCCESS then do {
             bl \<leftarrow> blacklist_add (t_blacklist st) (q_url item);
             Some (\<lparr>pg_descend = True, pg_is_css = page_css item r, pg_file = r_file r, pg_url = red\<rparr>, st\<lparr>t_blacklist := bl\<rparr>) }
           else do {
             log \<leftarrow> write_reject_log_reason (t_log st) reason u start;
             Some (\<lparr>pg_descend = False, pg_is_css = page_css item r, pg_file = r_file r, pg_url = red\<rparr>, st\<lparr>t_log := log\<rparr>) } }
         else Some (\<lparr>pg_descend = False, pg_is_css = page_css item r, pg_file = r_file r, pg_url = red\<rparr>, st1))"
proof -
  have l: "(q_html_allowed item \<and> (r_file r \<noteq> None \<and> r_status r = RETROK \<and> r_dt r AND RETROKF \<noteq> 0) \<and> r_dt r AND TEXTHTML \<noteq> 0 \<or>
      (r_file r \<noteq> None \<and> r_status r = RETROK \<and> r_dt r AND RETROKF \<noteq> 0) \<and> (r_dt r AND TEXTCSS \<noteq> 0 \<or> q_css_allowed item)) = loaded_page item r"
    "((r_file r \<noteq> None \<and> r_status r = RETROK \<and> r_dt r AND RETROKF \<noteq> 0) \<and> (r_dt r AND TEXTCSS \<noteq> 0 \<or> q_css_allowed item)) = page_css item r"
    by (auto simp: loaded_page_def page_css_def)
  show ?thesis
    unfolding load_page_def assms(1) bind.bind_lunit sum.case Let_def assms(2) prod.case
    unfolding l(1) unfolding l(2) assms(3)[symmetric]
    by (cases "r_redirected r") (auto simp: Let_def split: prod.splits bind_splits if_splits)
qed

lemma load_page_grows:
  assumes "str_inv (t_blacklist st)" "load_page web opt start item st = Some (pg, st')"
  shows "grows st st'"
proof -
  obtain p where p: "url_parse (disabled_schemes opt) (q_url item) True = Some p" using url_parse_returns by blast
  show ?thesis
  proof (cases p)
    case (Inl e)
    with p assms(2) show ?thesis by (auto simp: load_page_def intro: grows_same)
  next
    case (Inr u)
    obtain r w dl x where r: "retrieve_url web u (q_url item) (q_referer item) True (t_world st, t_dl st, t_exit st) = (r, w, dl, x)"
      by (metis prod_cases4)
    define st1 where "st1 = st\<lparr>t_world := w, t_dl := dl, t_exit := x, t_status := r_status r\<rparr>"
    have g1: "grows st st1" "str_inv (t_blacklist st1)" using assms(1) by (auto simp: st1_def intro: grows_same)
    have desc: "grows st st2" if "descend_redirect web opt start red u (q_depth item) st1 = Some (reason, st2)" for red reason st2
      using descend_redirect_grows[OF g1(2) that] g1(1) grows_trans by blast
    have log: "grows st (st2\<lparr>t_log := l\<rparr>)" if "grows st st2" for st2 l
      using that by (simp add: grows_def)
    have add: "grows st (st2\<lparr>t_blacklist := bl\<rparr>)" if "grows st st2" "blacklist_add (t_blacklist st2) url = Some bl" for st2 bl url
      using grows_trans[OF that(1) grows_add[OF that(2)]] .
    show ?thesis
      using assms(2) g1(1) desc log add unfolding load_page_eq[OF p[unfolded Inr] r st1_def]
      by (auto simp: bind_eq_Some_conv split: option.splits if_splits)
  qed
qed

lemma get_page_grows:
  assumes "str_inv (t_blacklist st)" "get_page web opt start item st = Some (pg, st')"
  shows "grows st st'"
  using assms load_page_grows[OF assms(1)] by (auto simp: get_page_def bind_eq_Some_conv grows_refl split: option.splits)

lemma discard_file_grows: "discard_file web opt path st = Some st' \<Longrightarrow> grows st st'"
  by (auto simp: discard_file_def bind_eq_Some_conv grows_refl intro: grows_same split: option.splits if_splits)

subsection \<open>The invariant of the traversal\<close>

definition start_item :: "url_struct \<Rightarrow> url_item" where
  "start_item start = \<lparr>q_url = u_url start, q_referer = None, q_depth = 0, q_html_allowed = True, q_css_allowed = False\<rparr>"

definition depth_ok :: "recur_options \<Rightarrow> int \<Rightarrow> urlpos \<Rightarrow> bool" where
  \<comment> \<open>links of a page at this depth may be followed; beyond the limit only what the page needs, and two levels deep\<close>
  "depth_ok opt depth upos \<longleftrightarrow> reclevel opt = - 1 \<or> depth < reclevel opt \<or>
     page_requisites opt \<and> link_inline_p upos \<and> depth \<le> reclevel opt + 1"

definition admitted :: "'w web \<Rightarrow> recur_options \<Rightarrow> url_struct \<Rightarrow> url_item \<Rightarrow> bool" where
  "admitted web opt start i \<longleftrightarrow> (\<exists>upos parent. q_url i = u_url (up_url upos) \<and>
     admissible web opt start parent (q_depth i - 1) upos \<and> depth_ok opt (q_depth i - 1) upos)"

definition tree_inv :: "'w web \<Rightarrow> recur_options \<Rightarrow> url_struct \<Rightarrow> url_item list \<Rightarrow> 'w tree \<Rightarrow> url_item list \<Rightarrow> bool" where
  \<comment> \<open>after the given items have been taken from the queue, with the others still in it\<close>
  "tree_inv web opt start visited st queued \<longleftrightarrow>
     queue_rep (t_queue st) queued \<and> str_inv (t_blacklist st) \<and>
     distinct (map key (visited @ queued)) \<and> key ` set (visited @ queued) \<subseteq> dom (smap (t_blacklist st)) \<and>
     (\<forall>i\<in>set (visited @ queued). i = start_item start \<or> admitted web opt start i)"

lemma tree_inv_grows: "tree_inv web opt start v st q \<Longrightarrow> grows st st' \<Longrightarrow> tree_inv web opt start v st' q"
  unfolding tree_inv_def grows_def by (metis order_trans)

lemma enqueue_Some:
  assumes "queue_rep q xs" "url_enqueue q x = Some q'"
  shows "queue_rep q' (xs @ [x])"
proof -
  have "in_int32 (q_count q + 1)" using assms(2) by (auto simp: url_enqueue_def Let_def bind_eq_Some_conv split: if_splits)
  moreover have "q_count q = int (length xs)" using assms(1) unfolding queue_rep_def by (metis length_map)
  ultimately have "length xs < 2147483647" by (simp add: in_int32_def)
  from enqueue_ok[OF assms(1) this, of x] assms(2) show ?thesis by auto
qed

lemma dequeue_Some:
  assumes "queue_rep q xs" "url_dequeue q = Some (Some (x, q'))"
  obtains ys where "xs = x # ys" "queue_rep q' ys"
proof (cases xs)
  case Nil
  with assms dequeue_empty[of q] show thesis by simp
next
  case (Cons y ys)
  with assms dequeue_ok[of q y ys] show thesis using that by auto
qed

lemma enqueue_children_inv:
  assumes "tree_inv web opt start v st q" "enqueue_children web opt start parent ref depth leaf children st = Some st'"
    and "reclevel opt = - 1 \<or> depth < reclevel opt \<or> page_requisites opt \<and> leaf \<and> depth \<le> reclevel opt + 1"
  shows "\<exists>q'. tree_inv web opt start v st' q'"
  using assms(1,2)
proof (induction children arbitrary: st q)
  case (Cons c children)
  note inv = Cons.prems(1)
  have sinv: "str_inv (t_blacklist st)" using inv by (simp add: tree_inv_def)
  show ?case
  proof (cases "ignore_when_downloading c \<or> leaf \<and> \<not> link_inline_p c")
    case True
    with Cons show ?thesis by simp
  next
    case False
    let ?i = "\<lparr>q_url = u_url (up_url c), q_referer = Some ref, q_depth = depth + 1,
               q_html_allowed = link_expect_html c, q_css_allowed = link_expect_css c\<rparr>"
    from Cons.prems(2) False obtain r st1 where d: "download_child web opt start c parent depth st = Some (r, st1)" by (auto simp: bind_eq_Some_conv)
    note g = download_child_grows[OF sinv d]
    show ?thesis
    proof (cases "r = WG_RR_SUCCESS")
      case True
      with Cons.prems(2) False d obtain queue bl where q: "url_enqueue (t_queue st1) ?i = Some queue"
        and bl: "blacklist_add (t_blacklist st1) (u_url (up_url c)) = Some bl"
        and rec: "enqueue_children web opt start parent ref depth leaf children (st1\<lparr>t_queue := queue, t_blacklist := bl\<rparr>) = Some st'"
        by (auto simp: bind_eq_Some_conv)
      note S = download_child_success[OF sinv d[unfolded True]]
      have inv1: "tree_inv web opt start v st1 q" using tree_inv_grows[OF inv g] .
      then have I: "queue_rep (t_queue st1) q" "str_inv (t_blacklist st1)" "distinct (map key (v @ q))"
        "key ` set (v @ q) \<subseteq> dom (smap (t_blacklist st1))" "\<forall>i\<in>set (v @ q). i = start_item start \<or> admitted web opt start i"
        by (simp_all add: tree_inv_def)
      note B = blacklist_add_Some[OF I(2) bl]
      have "depth_ok opt depth c" using assms(3) False by (auto simp: depth_ok_def)
      with S(3) have adm: "admitted web opt start ?i" unfolding admitted_def by (intro exI[of _ c] exI[of _ parent]) simp
      have new: "key ?i \<notin> key ` set (v @ q)" using S(1,2) I(4) by (auto simp: key_def)
      have "tree_inv web opt start v (st1\<lparr>t_queue := queue, t_blacklist := bl\<rparr>) (q @ [?i])"
        unfolding tree_inv_def
      proof (intro conjI)
        show "queue_rep (t_queue (st1\<lparr>t_queue := queue, t_blacklist := bl\<rparr>)) (q @ [?i])" using enqueue_Some[OF I(1) q] by simp
        show "str_inv (t_blacklist (st1\<lparr>t_queue := queue, t_blacklist := bl\<rparr>))" using B(1) by simp
        show "distinct (map key (v @ q @ [?i]))" using I(3) new by (auto simp: image_Un)
        show "key ` set (v @ q @ [?i]) \<subseteq> dom (smap (t_blacklist (st1\<lparr>t_queue := queue, t_blacklist := bl\<rparr>)))"
          using I(4) B(2) by (auto simp: key_def)
        show "\<forall>i\<in>set (v @ q @ [?i]). i = start_item start \<or> admitted web opt start i" using I(5) adm by auto
      qed
      from Cons.IH[OF this rec] show ?thesis .
    next
      case False
      with Cons.prems(2) \<open>\<not> (_ \<or> _)\<close> d obtain log where
        rec: "enqueue_children web opt start parent ref depth leaf children (st1\<lparr>t_log := log\<rparr>) = Some st'"
        by (auto simp: bind_eq_Some_conv)
      have "grows st (st1\<lparr>t_log := log\<rparr>)" using g by (simp add: grows_def)
      from Cons.IH[OF tree_inv_grows[OF inv this] rec] show ?thesis .
    qed
  qed
qed auto

lemma depth_check_ok:
  assumes "depth_check opt depth b = (True, leaf)"
  shows "reclevel opt = - 1 \<or> depth < reclevel opt \<or> page_requisites opt \<and> leaf \<and> depth \<le> reclevel opt + 1"
  using assms by (auto simp: depth_check_def INFINITE_RECURSION_def split: if_splits)

lemma follow_links_inv:
  assumes "tree_inv web opt start v st q" "follow_links web opt start pg depth leaf st = Some st'"
    "depth_check opt depth b = (True, leaf)"
  shows "\<exists>q'. tree_inv web opt start v st' q'"
proof -
  from assms(2) obtain cs where "page_links web opt pg st = Some cs" by (auto simp: follow_links_def bind_eq_Some_conv)
  show ?thesis
  proof (cases "cs = []")
    case True
    with assms(1,2) \<open>page_links _ _ _ _ = _\<close> show ?thesis by (auto simp: follow_links_def)
  next
    case False
    obtain p where p: "url_parse (disabled_schemes opt) (pg_url pg) True = Some p" using url_parse_returns by blast
    with assms(2) False \<open>page_links _ _ _ _ = _\<close> obtain u ref where
      "enqueue_children web opt start u ref depth leaf cs st = Some st'"
      by (cases p) (auto simp: follow_links_def bind_eq_Some_conv)
    from enqueue_children_inv[OF assms(1) this depth_check_ok[OF assms(3)]] show ?thesis .
  qed
qed

lemma retrieve_step_inv:
  assumes inv: "tree_inv web opt start v st q" and step: "retrieve_step web opt start st = Some (Some (item, st'))"
  shows "\<exists>q'. tree_inv web opt start (v @ [item]) st' q'"
proof -
  from step obtain item0 queue where dq0: "url_dequeue (t_queue st) = Some (Some (item0, queue))"
    by (auto simp: retrieve_step_def bind_eq_Some_conv split: if_splits option.splits)
  obtain pg st1 where gp0: "get_page web opt start item0 (st\<lparr>t_queue := queue\<rparr>) = Some (pg, st1)"
    using step dq0 by (auto simp: retrieve_step_def bind_eq_Some_conv split: if_splits)
  obtain descend leaf where dc0: "depth_check opt (q_depth item0) (pg_descend pg) = (descend, leaf)" by fastforce
  obtain st2 where fl0: "(if descend then follow_links web opt start pg (q_depth item0) leaf st1 else Some st1) = Some st2"
    and df: "discard_file web opt (pg_file pg) st2 = Some st'" and i: "item0 = item"
    using step dq0 gp0 dc0 by (auto simp: retrieve_step_def bind_eq_Some_conv split: if_splits)
  note dq = dq0[unfolded i] and gp = gp0[unfolded i] and dc = dc0[unfolded i] and fl = fl0[unfolded i]
  have "queue_rep (t_queue st) q" using inv by (simp add: tree_inv_def)
  then obtain q1 where q1: "q = item # q1" "queue_rep queue q1" using dq by (rule dequeue_Some)
  have i0: "tree_inv web opt start (v @ [item]) (st\<lparr>t_queue := queue\<rparr>) q1"
    using inv q1 by (auto simp: tree_inv_def)
  then have "str_inv (t_blacklist (st\<lparr>t_queue := queue\<rparr>))" by (simp add: tree_inv_def)
  from tree_inv_grows[OF i0 get_page_grows[OF this gp]] have i1: "tree_inv web opt start (v @ [item]) st1 q1" .
  have "\<exists>q2. tree_inv web opt start (v @ [item]) st2 q2"
    using fl i1 follow_links_inv[OF i1 _ , of pg "q_depth item" leaf st2 "pg_descend pg"] dc by (auto split: if_splits)
  then show ?thesis using tree_inv_grows discard_file_grows[OF df] by blast
qed

subsection \<open>Runs\<close>

inductive rounds :: "'w web \<Rightarrow> recur_options \<Rightarrow> url_struct \<Rightarrow> 'w tree \<Rightarrow> url_item list \<Rightarrow> 'w tree \<Rightarrow> bool"
  for web :: "'w web" and opt :: recur_options and start :: url_struct and st0 :: "'w tree" where
  \<comment> \<open>some rounds of the loop, and the items they took from the queue\<close>
  rounds_none: "rounds web opt start st0 [] st0"
| rounds_more: "rounds web opt start st0 items st \<Longrightarrow> retrieve_step web opt start st = Some (Some (item, st')) \<Longrightarrow>
    rounds web opt start st0 (items @ [item]) st'"

lemma rounds_inv:
  assumes "rounds web opt start st0 items st" "tree_inv web opt start [] st0 q0"
  shows "\<exists>q. tree_inv web opt start items st q"
  using assms
proof (induction rule: rounds.induct)
  case rounds_none
  then show ?case by blast
next
  case (rounds_more items st item st')
  then show ?case using retrieve_step_inv by blast
qed

lemma tree_init_inv:
  assumes "tree_init opt start reg w dl x = Some st"
  shows "tree_inv web opt start [] st [start_item start]"
proof -
  from assms obtain bl0 queue bl where b: "make_string_hash_table 0 = Some bl0" "url_enqueue url_queue_new (start_item start) = Some queue"
    "blacklist_add bl0 (u_url start) = Some bl" and st: "t_queue st = queue" "t_blacklist st = bl"
    by (auto simp: tree_init_def start_item_def bind_eq_Some_conv)
  obtain bl1 :: "(string, string) hash_table" where "make_string_hash_table 0 = Some bl1" "str_inv bl1" by (rule make_string_table)
  with b(1) have "str_inv bl0" by simp
  note B = blacklist_add_Some[OF this b(3)]
  from enqueue_Some[OF url_fifo.new b(2)] B st show ?thesis
    by (simp add: tree_inv_def key_def start_item_def)
qed

subsection \<open>An example\<close>

definition example_url :: "string \<Rightarrow> url_struct" where
  "example_url p = \<lparr>u_url = ''http://h/'' @ p, u_scheme = SCHEME_HTTP, u_host = ''h'', u_port = 80, u_path = p, u_params = None,
     u_query = None, u_fragment = None, u_dir = [], u_file = p, u_user = None, u_passwd = None\<rparr>"

definition example_web :: "unit web" where
  \<comment> \<open>two pages that link to each other and to themselves\<close>
  "example_web = \<lparr>web_fnmatch = (\<lambda>p s a b. p = s),
     retrieve_url = (\<lambda>u url ref b (w, dl, x). (\<lparr>r_status = RETROK, r_file = Some ''saved'', r_redirected = None, r_dt = 3\<rparr>, w, dl, x)),
     get_urls_html = (\<lambda>w path url. ([new_urlpos (example_url []), new_urlpos (example_url ''a'')], False)),
     get_urls_css_file = (\<lambda>w path url. []), read_file = (\<lambda>w path. Some []), unlink_file = (\<lambda>w path. w), total_downloaded_bytes = (\<lambda>w. 0)\<rparr>"

definition example_opt :: recur_options where
  "example_opt = \<lparr>filters = \<lparr>ignore_case = False, output_document = None, accepts = None, rejects = None, include_dirs = None, exclude_dirs = None\<rparr>,
     domains = None, exclude_domains = None, acceptregex = None, rejectregex = None, https_only = False, follow_ftp = False,
     relative_only = False, no_parent = False, page_requisites = False, spanhost = False, use_robots = True, spider = False,
     delete_after = False, reclevel = 5, quota = 0, rejected_log = False, disabled_schemes = []\<rparr>"

lemma example_admissible:
  "admissible example_web example_opt (example_url []) (example_url []) 0 (new_urlpos (example_url ''a''))"
  by code_simp

text \<open>
  C10. The decision for a link. \<open>download_child\<close> admits a link exactly when its URL (without its escapes) is
  not blacklisted, it satisfies every criterion of the options, and, for HTTP and with robots in
  use, the specifications of its host, retrieved if they were not known, allow the path.
\<close>
theorem download_child_admits:
  assumes "str_inv (t_blacklist st)"
  shows "download_child web opt start upos parent depth st = Some (WG_RR_SUCCESS, st') \<longleftrightarrow>
    url_unescape (u_url (up_url upos)) \<notin> dom (smap (t_blacklist st)) \<and>
    admissible web opt start parent depth upos \<and>
    (if use_robots opt \<and> http_like (up_url upos)
     then \<exists>specs. robots_specs web opt (up_url upos) st = Some (specs, st') \<and> res_match_path specs (u_path (up_url upos))
     else st' = st)"
  using assms by (rule admits_core)

theorem download_child_admits_witness:
  "\<exists>st. download_child example_web (example_opt\<lparr>use_robots := False\<rparr>) (example_url []) (new_urlpos (example_url ''a'')) (example_url []) 0 st
     = Some (WG_RR_SUCCESS, st)"
proof -
  obtain bl :: "(string, string) hash_table" where bl: "str_inv bl" "smap bl = Map.empty" by (rule make_string_table)
  let ?st = "\<lparr>t_queue = url_queue_new, t_blacklist = bl, t_registry = None, t_world = (), t_dl = no_downloads, t_exit = 0, t_status = RETROK, t_log = None\<rparr>"
  have "str_inv (t_blacklist ?st)" using bl(1) by simp
  moreover have "admissible example_web (example_opt\<lparr>use_robots := False\<rparr>) (example_url []) (example_url []) 0 (new_urlpos (example_url ''a''))"
    using example_admissible by (simp add: admissible_def example_opt_def accept_url_def)
  ultimately show ?thesis
    using download_child_admits[of ?st example_web "example_opt\<lparr>use_robots := False\<rparr>" "example_url []" "new_urlpos (example_url ''a'')" "example_url []" 0 ?st] bl(2)
    by auto
qed

text \<open>
  With \<open>--relative\<close> the links of a redirected page are never followed, wherever the redirection
  leads: \<open>descend_redirect\<close> checks the new URL as a link that is not relative.
\<close>
theorem relative_only_stops_at_redirects:
  assumes "str_inv (t_blacklist st)" "relative_only opt" "url_parse (disabled_schemes opt) red False = Some (Inr u)" "http_like u"
    "include_dirs (filters opt) = None" "exclude_dirs (filters opt) = None"
  shows "\<not> (\<exists>st'. descend_redirect web opt start red orig depth st = Some (WG_RR_SUCCESS, st'))"
proof -
  let ?u = "new_urlpos u"
  have na: "\<not> admissible web opt start orig depth ?u" using assms(2,4) by (simp add: admissible_def new_urlpos_def)
  then obtain r where r: "refusal web opt start orig depth ?u = Some r"
    using refusal_None by (metis not_Some_eq)
  have "r = WG_RR_NOTHTTPS \<or> r = WG_RR_NONHTTP \<or> r = WG_RR_ABSOLUTE"
    using r assms(2,4) unfolding refusal_def Let_def http_like_iff by (simp add: new_urlpos_def split: if_splits)
  with r assms(3) show ?thesis
    by (auto simp: descend_redirect_def download_child_eq[OF assms(1)] bind_eq_Some_conv split: if_splits)
qed

text \<open>
  URLs that differ only in whether a slash is escaped are different resources, but the blacklist
  takes them for one: once one of them was enqueued, the other is refused.
\<close>
theorem escaped_slash_is_blacklisted:
  assumes "str_inv bl" "blacklist_add bl ''http://h/a/b'' = Some bl'" "t_blacklist st = bl'"
    "u_url (up_url upos) = ''http://h/a%2Fb''"
  shows "download_child web opt start upos parent depth st = Some (WG_RR_BLACKLIST, st)"
proof -
  note B = blacklist_add_Some[OF assms(1,2)]
  have "url_unescape ''http://h/a%2Fb'' = url_unescape ''http://h/a/b''" by code_simp
  with B(2) assms(3,4) have "url_unescape (u_url (up_url upos)) \<in> dom (smap (t_blacklist st))" by simp
  then show ?thesis using download_child_eq[of st] B(1) assms(3) by simp
qed

end
