(* ===== verification/Wget_Recur_Live.thy ===== *)
theory Wget_Recur_Live
  imports Wget_Recur_Props
begin

section \<open>The traversal ends (wget/src/recur.c)\<close>

text \<open>
  On a web with finitely many links \<open>retrieve_tree\<close> returns: no assertion fails, no table or counter
  overflows, and the loop ends, because every URL that is enqueued is blacklisted and never
  enqueued again. What is assumed of the code that fetches and parses pages is collected in
  \<open>web_ok\<close>.
\<close>

subsection \<open>The registry of robots specifications stays small\<close>

definition reg_keys :: "registry \<Rightarrow> string set" where
  "reg_keys reg = (case reg of None \<Rightarrow> {} | Some ht \<Rightarrow> lower ` {k. ht_find ht k \<noteq> None})"

definition server_key :: "url_struct \<Rightarrow> string" where
  "server_key u = lower (host_port (u_host u) (u_port u))"

definition reg_inv :: "url_struct set \<Rightarrow> registry \<Rightarrow> bool" where
  "reg_inv K reg \<longleftrightarrow> (case reg of None \<Rightarrow> True | Some ht \<Rightarrow> ht_inv hash_string_nocase string_cmp_nocase ht) \<and> reg_keys reg \<subseteq> server_key ` K"

lemma nocase_cmp: "string_cmp_nocase a b \<longleftrightarrow> lower a = lower b"
  by (simp add: string_cmp_nocase_def strcaseeq_def)

lemma sorted_wrt_distinct: "sorted_wrt (\<lambda>a b. f a \<noteq> f b) xs = distinct (map f xs)"
  by (induction xs) auto

lemma nocase_count:
  assumes "ht_inv hash_string_nocase string_cmp_nocase ht"
  shows "ht_count ht = card (lower ` {k. ht_find ht k \<noteq> None})"
proof -
  note D = ht_invD[OF assms]
  have "sorted_wrt (\<lambda>a b. lower (fst a) \<noteq> lower (fst b)) (ht_entries ht)"
    using nocase_keys.keys_unique_sorted[OF D(11)] by (simp add: ht_entries_def nocase_cmp)
  then have d: "distinct (map (\<lambda>e. lower (fst e)) (ht_entries ht))" by (simp add: sorted_wrt_distinct)
  have "lower ` {k. ht_find ht k \<noteq> None} = set (map (\<lambda>e. lower (fst e)) (ht_entries ht))"
    using nocase_keys.ht_find_None[OF assms] by (force simp: nocase_cmp)
  then show ?thesis using distinct_card[OF d] D(4) by simp
qed

lemma reg_inv_room:
  assumes "reg_inv K reg" "finite K" "card K < capacity"
  shows "registry_ok reg"
proof (cases reg)
  case (Some ht)
  with assms(1) have ht: "ht_inv hash_string_nocase string_cmp_nocase ht" "lower ` {k. ht_find ht k \<noteq> None} \<subseteq> server_key ` K"
    by (simp_all add: reg_inv_def reg_keys_def)
  have "ht_count ht \<le> card (server_key ` K)" unfolding nocase_count[OF ht(1)] using ht(2) assms(2) by (intro card_mono) auto
  also have "\<dots> \<le> card K" using assms(2) by (rule card_image_le)
  finally show ?thesis using Some ht(1) assms(3) by (simp add: registry_ok_def hash_table_count_def capacity_def)
qed (simp add: registry_ok_def)

lemma get_specs_total:
  assumes "registry_ok reg"
  shows "\<exists>s. res_get_specs reg h p = Some s"
  using assms by (cases reg) (auto simp: registry_ok_def res_get_specs_def nocase_keys.get_ok)

lemma register_keys:
  assumes "registry_ok reg" "res_register_specs reg host port specs = Some reg'"
  shows "(case reg' of None \<Rightarrow> True | Some ht \<Rightarrow> ht_inv hash_string_nocase string_cmp_nocase ht)"
    "reg_keys reg' \<subseteq> insert (lower (host_port host port)) (reg_keys reg)"
proof -
  let ?hp = "host_port host port"
  obtain ht0 :: "(string, robot_specs option) hash_table" where
    ht0: "(case reg of None \<Rightarrow> make_nocase_string_hash_table 0 | Some ht \<Rightarrow> Some ht) = Some ht0"
      "ht_inv hash_string_nocase string_cmp_nocase ht0" "lower ` {k. ht_find ht0 k \<noteq> None} = reg_keys reg"
  proof (cases reg)
    case None
    obtain ht :: "(string, robot_specs option) hash_table" where ht: "hash_table_new 0 hash_string_nocase string_cmp_nocase = Some ht"
      using hash_table_new_0 by blast
    note N = nocase_keys.new_ok[OF ht]
    have "ht_find ht k = None" for k using N(2) by (simp add: ht_find_def)
    then show thesis using None ht N by (intro that[of ht]) (auto simp: make_nocase_string_hash_table_def reg_keys_def)
  qed (use assms(1) that in \<open>auto simp: registry_ok_def reg_keys_def\<close>)
  obtain k0 where k0: "lower k0 = lower ?hp" "map_option Some (hash_table_put ht0 k0 specs) = Some reg'"
  proof (cases "ht_find ht0 ?hp")
    case None
    then show thesis using assms(2) ht0 that[of ?hp]
      by (auto simp: res_register_specs_def nocase_keys.get_pair_ok Let_def bind_eq_Some_conv)
  next
    case (Some kv)
    then have "lower (fst kv) = lower ?hp" using nocase_keys.ht_find_iff[OF ht0(2), of ?hp kv] by (simp add: nocase_cmp)
    then show thesis using assms(2) ht0 that[of "fst kv"] Some
      by (cases kv) (auto simp: res_register_specs_def nocase_keys.get_pair_ok Let_def bind_eq_Some_conv)
  qed
  then obtain ht where ht: "hash_table_put ht0 k0 specs = Some ht" "reg' = Some ht" by auto
  note P = nocase_keys.put_ok[OF ht0(2) ht(1)]
  show "(case reg' of None \<Rightarrow> True | Some ht \<Rightarrow> ht_inv hash_string_nocase string_cmp_nocase ht)" using P(1) ht(2) by simp
  have "lower ` {k. ht_find ht k \<noteq> None} \<subseteq> insert (lower ?hp) (lower ` {k. ht_find ht0 k \<noteq> None})"
    using P(2) k0(1) by (auto simp: nocase_cmp split: if_splits)
  then show "reg_keys reg' \<subseteq> insert (lower ?hp) (reg_keys reg)" unfolding ht0(3)[symmetric] using ht(2) by (simp add: reg_keys_def)
qed

lemma register_inv:
  assumes "reg_inv K reg" "finite K" "card K < capacity" "u \<in> K"
  obtains reg' where "res_register_specs reg (u_host u) (u_port u) specs = Some reg'" "reg_inv K reg'"
proof -
  note ok = reg_inv_room[OF assms(1-3)]
  obtain ht where r: "res_register_specs reg (u_host u) (u_port u) specs = Some (Some ht)" by (rule register_ok[OF ok])
  from register_keys[OF ok r] assms(1,4) have "reg_inv K (Some ht)"
    unfolding reg_inv_def by (auto simp: server_key_def)
  with r that show thesis by blast
qed

subsection \<open>What is assumed of the web\<close>

definition parses :: "recur_options \<Rightarrow> string \<Rightarrow> bool \<Rightarrow> url_struct \<Rightarrow> bool" where
  "parses opt url enc u \<longleftrightarrow> url_parse (disabled_schemes opt) url enc = Some (Inr u)"

definition web_ok :: "'w web \<Rightarrow> recur_options \<Rightarrow> url_struct set \<Rightarrow> bool" where
  \<comment> \<open>all links and redirections lead to one of finitely many URLs, whose texts can be parsed again;
      fetching keeps the books in order and names the file when it succeeds\<close>
  "web_ok web opt K \<longleftrightarrow> finite K \<and> card K < capacity \<and>
     (\<forall>u\<in>K. \<exists>v v'. parses opt (u_url u) True v \<and> parses opt (u_url v) True v') \<and>
     (\<forall>w path url c. c \<in> set (fst (get_urls_html web w path url)) \<or> c \<in> set (get_urls_css_file web w path url) \<longrightarrow> up_url c \<in> K) \<and>
     (\<forall>u url ref b w dl x r w' dl' x'. dl_inv dl \<longrightarrow> retrieve_url web u url ref b (w, dl, x) = (r, w', dl', x') \<longrightarrow>
        dl_inv dl' \<and> (r_status r = RETROK \<longrightarrow> r_file r \<noteq> None) \<and>
        (\<forall>red. r_redirected r = Some red \<longrightarrow> (\<exists>v. parses opt red True v) \<and> (\<exists>v\<in>K. parses opt red False v)))"

lemma web_okD:
  assumes "web_ok web opt K"
  shows "finite K" "card K < capacity"
    "u \<in> K \<Longrightarrow> \<exists>v v'. parses opt (u_url u) True v \<and> parses opt (u_url v) True v'"
    "c \<in> set (fst (get_urls_html web w path url)) \<Longrightarrow> up_url c \<in> K"
    "c \<in> set (get_urls_css_file web w path url) \<Longrightarrow> up_url c \<in> K"
    "dl_inv dl \<Longrightarrow> retrieve_url web u url ref b (w, dl, x) = (r, w', dl', x') \<Longrightarrow>
       dl_inv dl' \<and> (r_status r = RETROK \<longrightarrow> r_file r \<noteq> None) \<and>
        (\<forall>red. r_redirected r = Some red \<longrightarrow> (\<exists>v. parses opt red True v) \<and> (\<exists>v\<in>K. parses opt red False v))"
  using assms unfolding web_ok_def by blast+

definition url_keys :: "url_struct set \<Rightarrow> string set" where
  "url_keys K = (\<lambda>u. url_unescape (u_url u)) ` K"

definition live_inv :: "url_struct set \<Rightarrow> 'w tree \<Rightarrow> bool" where
  "live_inv K st \<longleftrightarrow> str_inv (t_blacklist st) \<and> dom (smap (t_blacklist st)) \<subseteq> url_keys K \<and> reg_inv K (t_registry st) \<and> dl_inv (t_dl st)"

lemma blacklist_add_live:
  assumes "live_inv K st" "finite K" "card K < capacity" "url_unescape url \<in> url_keys K"
  obtains bl where "blacklist_add (t_blacklist st) url = Some bl" "live_inv K (st\<lparr>t_blacklist := bl\<rparr>)"
    "dom (smap bl) = insert (url_unescape url) (dom (smap (t_blacklist st)))"
proof -
  have I: "str_inv (t_blacklist st)" "dom (smap (t_blacklist st)) \<subseteq> url_keys K" using assms(1) by (simp_all add: live_inv_def)
  have "ht_count (t_blacklist st) \<le> card (url_keys K)"
    unfolding count_card(2)[OF I(1)] using I(2) assms(2) by (intro card_mono) (simp_all add: url_keys_def)
  also have "\<dots> \<le> card K" unfolding url_keys_def using assms(2) by (rule card_image_le)
  finally have "ht_count (t_blacklist st) < capacity" using assms(3) by simp
  with I(1) obtain bl where bl: "string_set_add (t_blacklist st) (url_unescape url) = Some bl" "str_inv bl"
    "dom (smap bl) = insert (url_unescape url) (dom (smap (t_blacklist st)))" by (rule set_add_ok)
  then show thesis using assms(1,4) by (intro that[of bl]) (auto simp: blacklist_add_def live_inv_def)
qed

lemma robots_specs_live:
  assumes "live_inv K st" "web_ok web opt K" "u \<in> K"
  obtains specs st' where "robots_specs web opt u st = Some (specs, st')" "live_inv K st'"
proof -
  note W = web_okD[OF assms(2)]
  have I: "str_inv (t_blacklist st)" "dom (smap (t_blacklist st)) \<subseteq> url_keys K" "reg_inv K (t_registry st)" "dl_inv (t_dl st)"
    using assms(1) by (simp_all add: live_inv_def)
  obtain s where s: "res_get_specs (t_registry st) (u_host u) (u_port u) = Some s"
    using get_specs_total[OF reg_inv_room[OF I(3) W(1,2)]] by blast
  show thesis
  proof (cases "s = None")
    case False
    with s assms(1) show thesis by (intro that[of s st]) (simp_all add: robots_specs_def)
  next
    case True
    let ?url = "uri_merge (disabled_schemes opt) (u_url u) RES_SPECS_LOCATION"
    obtain p where p: "url_parse (disabled_schemes opt) ?url True = Some p" using url_parse_returns by blast
    obtain rfile w dl x where r: "res_retrieve_file web opt (u_url u) (t_world st, t_dl st, t_exit st) = Some (rfile, w, dl, x)"
      "dl_inv dl" "rfile \<noteq> Some None"
    proof (cases p)
      case (Inl e)
      with p I(4) show thesis by (intro that[of None "t_world st" "t_dl st" "t_exit st"]) (simp_all add: res_retrieve_file_def)
    next
      case (Inr v)
      obtain r w dl x where r: "retrieve_url web v ?url None False (t_world st, t_dl st, t_exit st) = (r, w, dl, x)" by (metis prod_cases4)
      from W(6)[OF I(4) r] p Inr r show thesis
        by (intro that[of "if r_status r = RETROK then Some (r_file r) else None" w dl x]) (auto simp: res_retrieve_file_def)
    qed
    obtain specs w' where sp: "(case rfile of
            Some name \<Rightarrow> do {
              rfile \<leftarrow> name;
              specs \<leftarrow> res_parse_from_file (read_file web w rfile);
              Some (specs, if delete_after opt \<or> spider opt \<or> match_tail rfile ''.tmp'' False then unlink_file web w rfile else w) }
          | None \<Rightarrow> do { specs \<leftarrow> res_parse []; Some (Some specs, w) }) = Some (specs, w')"
    proof (cases rfile)
      case None
      with res_parse_ok[of "[]"] show thesis using that by auto
    next
      case (Some name)
      with r(3) obtain f where f: "name = Some f" by auto
      obtain sp where "res_parse_from_file (read_file web w f) = Some sp"
      proof (cases "read_file web w f")
        case (Some src)
        with res_parse_ok[of src] that show thesis by (auto simp: res_parse_from_file_def)
      qed (use that in \<open>simp add: res_parse_from_file_def\<close>)
      with Some f show thesis using that by auto
    qed
    obtain reg where reg: "res_register_specs (t_registry st) (u_host u) (u_port u) specs = Some reg" "reg_inv K reg"
      by (rule register_inv[OF I(3) W(1,2) assms(3)])
    define st' where "st' = st\<lparr>t_registry := reg, t_world := w', t_dl := dl, t_exit := x\<rparr>"
    have "robots_specs web opt u st = Some (specs, st')"
      unfolding robots_specs_def s using True r(1) sp reg(1) by (simp add: st'_def)
    moreover have "live_inv K st'" using I reg(2) r(2) by (simp add: live_inv_def st'_def)
    ultimately show thesis by (rule that)
  qed
qed

lemma download_child_live:
  assumes "live_inv K st" "web_ok web opt K" "up_url upos \<in> K"
  obtains r st' where "download_child web opt start upos parent depth st = Some (r, st')" "live_inv K st'"
proof -
  note W = web_okD[OF assms(2)]
  have inv: "str_inv (t_blacklist st)" using assms(1) by (simp add: live_inv_def)
  obtain specs st1 where r: "robots_specs web opt (up_url upos) st = Some (specs, st1)" "live_inv K st1"
    by (rule robots_specs_live[OF assms])
  have "url_unescape (u_url (up_url upos)) \<in> url_keys K" using assms(3) by (simp add: url_keys_def)
  with r(2) W(1,2) obtain bl where bl: "blacklist_add (t_blacklist st1) (u_url (up_url upos)) = Some bl" "live_inv K (st1\<lparr>t_blacklist := bl\<rparr>)"
    by (rule blacklist_add_live)
  have "\<exists>r st'. download_child web opt start upos parent depth st = Some (r, st') \<and> live_inv K st'"
    using assms(1) r bl unfolding download_child_eq[OF inv] by (cases "refusal web opt start parent depth upos") auto
  then show thesis using that by blast
qed

lemma descend_redirect_live:
  assumes "live_inv K st" "web_ok web opt K" "v \<in> K" "parses opt red False v"
  obtains r st' where "descend_redirect web opt start red orig depth st = Some (r, st')" "live_inv K st'"
proof -
  note W = web_okD[OF assms(2)]
  have u: "up_url (new_urlpos v) \<in> K" using assms(3) by (simp add: new_urlpos_def)
  obtain r1 st1 where d: "download_child web opt start (new_urlpos v) orig depth st = Some (r1, st1)" "live_inv K st1"
    by (rule download_child_live[OF assms(1,2) u])
  have "url_unescape (u_url v) \<in> url_keys K" using assms(3) by (simp add: url_keys_def)
  with d(2) W(1,2) obtain bl where bl: "blacklist_add (t_blacklist st1) (u_url v) = Some bl" "live_inv K (st1\<lparr>t_blacklist := bl\<rparr>)"
    by (rule blacklist_add_live)
  show thesis
  proof (cases "r1 = WG_RR_SUCCESS \<or> r1 = WG_RR_LIST \<or> r1 = WG_RR_REGEX")
    case True
    with d bl assms(4) show thesis
      by (intro that[of WG_RR_SUCCESS "st1\<lparr>t_blacklist := bl\<rparr>"]) (auto simp: descend_redirect_def parses_def)
  next
    case False
    with d assms(4) show thesis by (intro that[of r1 st1]) (auto simp: descend_redirect_def parses_def)
  qed
qed

lemma reject_log_total: "\<exists>l. write_reject_log_reason fp reason u v = Some l"
  by (cases fp) (simp_all add: write_reject_log_reason_def write_reject_log_url_def url_escape_def)

definition page_ok :: "recur_options \<Rightarrow> page \<Rightarrow> bool" where
  "page_ok opt pg \<longleftrightarrow> (pg_descend pg \<longrightarrow> pg_file pg \<noteq> None) \<and> (\<exists>u. parses opt (pg_url pg) True u)"

lemma load_page_live:
  assumes "live_inv K st" "web_ok web opt K" "u0 \<in> K" "q_url item = u_url u0" "key item \<in> url_keys K"
  obtains pg st' where "load_page web opt start item st = Some (pg, st')" "live_inv K st'" "page_ok opt pg"
proof -
  note W = web_okD[OF assms(2)]
  obtain u u' where p: "parses opt (q_url item) True u" "parses opt (u_url u) True u'" using W(3)[OF assms(3)] assms(4) by auto
  obtain r w dl x where r: "retrieve_url web u (q_url item) (q_referer item) True (t_world st, t_dl st, t_exit st) = (r, w, dl, x)"
    by (metis prod_cases4)
  define st1 where "st1 = st\<lparr>t_world := w, t_dl := dl, t_exit := x, t_status := r_status r\<rparr>"
  have dl: "dl_inv (t_dl st)" using assms(1) by (simp add: live_inv_def)
  note R = W(6)[OF dl r]
  have l1: "live_inv K st1" using assms(1) R by (simp add: live_inv_def st1_def)
  have lf: "loaded_page item r \<Longrightarrow> r_file r \<noteq> None" by (simp add: loaded_page_def)
  note E = load_page_eq[OF p(1)[unfolded parses_def] r st1_def]
  have ok: "page_ok opt \<lparr>pg_descend = d, pg_is_css = c, pg_file = r_file r, pg_url = t\<rparr>"
    if "d \<longrightarrow> loaded_page item r" "parses opt t True v" for d c t v
    using that lf by (auto simp: page_ok_def)
  show thesis
  proof (cases "r_redirected r")
    case None
    show thesis by (rule that[OF _ l1 ok[OF _ p(2), of "loaded_page item r" "page_css item r"]]) (simp_all add: E None)
  next
    case (Some red)
    with R obtain v v' where v: "parses opt red True v'" "v \<in> K" "parses opt red False v" by blast
    show thesis
    proof (cases "loaded_page item r")
      case False
      show thesis by (rule that[OF _ l1 ok[OF _ v(1), of False "page_css item r"]]) (simp_all add: E Some False)
    next
      case True
      obtain reason st2 where d: "descend_redirect web opt start red u (q_depth item) st1 = Some (reason, st2)" "live_inv K st2"
        by (rule descend_redirect_live[OF l1 assms(2) v(2,3)])
      show thesis
      proof (cases "reason = WG_RR_SUCCESS")
        case S: True
        have "url_unescape (q_url item) \<in> url_keys K" using assms(5) by (simp add: key_def)
        with d(2) W(1,2) obtain bl where bl: "blacklist_add (t_blacklist st2) (q_url item) = Some bl" "live_inv K (st2\<lparr>t_blacklist := bl\<rparr>)"
          by (rule blacklist_add_live)
        show thesis
          by (rule that[OF _ bl(2) ok[OF _ v(1), of True "page_css item r"]]) (simp_all add: E Some True S d bl)
      next
        case F: False
        obtain l where l: "write_reject_log_reason (t_log st2) reason u start = Some l" using reject_log_total by blast
        have l2: "live_inv K (st2\<lparr>t_log := l\<rparr>)" using d(2) by (simp add: live_inv_def)
        show thesis
          by (rule that[OF _ l2 ok[OF _ v(1), of False "page_css item r"]]) (simp_all add: E Some True F d l)
      qed
    qed
  qed
qed

lemma set_has_total: "tinv t \<Longrightarrow> \<exists>b. set_has t s = Some b"
  by (cases t) (auto simp: set_has_def set_contains_ok)

lemma get_page_live:
  assumes "live_inv K st" "web_ok web opt K" "u0 \<in> K" "q_url item = u_url u0" "key item \<in> url_keys K"
  obtains pg st' where "get_page web opt start item st = Some (pg, st')" "live_inv K st'" "page_ok opt pg"
proof -
  have dl: "dl_inv (t_dl st)" using assms(1) by (simp add: live_inv_def)
  have old: "\<exists>o'. downloaded_before st (q_url item) = Some o'"
    using dl by (cases "dl_url_file_map (t_dl st)") (auto simp: downloaded_before_def dl_inv_def str.get)
  then obtain o' where o': "downloaded_before st (q_url item) = Some o'" by blast
  show thesis
  proof (cases o')
    case None
    obtain pg st' where "load_page web opt start item st = Some (pg, st')" "live_inv K st'" "page_ok opt pg"
      by (rule load_page_live[OF assms])
    with o' None show thesis by (intro that) (simp_all add: get_page_def)
  next
    case (Some path)
    obtain a b where ab: "set_has (downloaded_css_set (t_dl st)) path = Some a" "set_has (downloaded_html_set (t_dl st)) path = Some b"
      using set_has_total dl unfolding dl_inv_def by blast
    obtain u where u: "parses opt (q_url item) True u" using web_okD(3)[OF assms(2,3)] assms(4) by auto
    define pg where "pg = (if q_css_allowed item \<and> a \<or> q_html_allowed item \<and> b
           then \<lparr>pg_descend = True, pg_is_css = q_css_allowed item \<and> a, pg_file = Some path, pg_url = q_url item\<rparr>
           else \<lparr>pg_descend = False, pg_is_css = False, pg_file = Some path, pg_url = q_url item\<rparr>)"
    have "get_page web opt start item st = Some (pg, st)" by (simp add: get_page_def o' Some reuse_page_def ab pg_def Let_def)
    moreover have "page_ok opt pg" using u by (auto simp: page_ok_def pg_def)
    ultimately show thesis using assms(1) by (intro that)
  qed
qed

lemma discard_file_live:
  assumes "live_inv K st"
  obtains st' where "discard_file web opt path st = Some st'" "live_inv K st'"
proof (cases path)
  case (Some f)
  have "dl_inv (t_dl st)" using assms by (simp add: live_inv_def)
  then obtain d where "register_delete_file (t_dl st) f = Some d" "dl_inv d" by (rule register_delete_ok)
  with Some assms show thesis
    by (cases "delete_after opt \<or> spider opt \<or> \<not> acceptable (web_fnmatch web) (filters opt) f")
      (auto simp: discard_file_def live_inv_def intro: that)
qed (use assms that in \<open>auto simp: discard_file_def\<close>)

subsection \<open>Every round makes progress\<close>

definition queue_inv :: "url_struct set \<Rightarrow> 'w tree \<Rightarrow> url_item list \<Rightarrow> bool" where
  "queue_inv K st q \<longleftrightarrow> live_inv K st \<and> queue_rep (t_queue st) q \<and> distinct (map key q) \<and>
     key ` set q \<subseteq> dom (smap (t_blacklist st)) \<and> (\<forall>i\<in>set q. \<exists>u\<in>K. q_url i = u_url u)"

definition left_over :: "url_struct set \<Rightarrow> 'w tree \<Rightarrow> url_item list \<Rightarrow> nat" where
  \<comment> \<open>the URLs that are queued or can still be\<close>
  "left_over K st q = card (url_keys K - dom (smap (t_blacklist st))) + length q"

lemma queue_inv_grows: "queue_inv K st q \<Longrightarrow> grows st st' \<Longrightarrow> live_inv K st' \<Longrightarrow> queue_inv K st' q"
  unfolding queue_inv_def grows_def live_inv_def by (metis order_trans)

lemma left_over_grows: "finite K \<Longrightarrow> live_inv K st \<Longrightarrow> grows st st' \<Longrightarrow> left_over K st' q \<le> left_over K st q"
  unfolding left_over_def grows_def live_inv_def by (auto intro!: card_mono simp: url_keys_def)

lemma queue_short:
  assumes "queue_inv K st q" "finite K" "card K < capacity"
  shows "length q < 2147483647"
proof -
  have "length q = card (key ` set q)" using assms(1) distinct_card[of "map key q"] by (simp add: queue_inv_def)
  also have "\<dots> \<le> card (url_keys K)"
  proof (rule card_mono)
    show "key ` set q \<subseteq> url_keys K" using assms(1) unfolding queue_inv_def live_inv_def by blast
  qed (use assms(2) in \<open>simp add: url_keys_def\<close>)
  also have "\<dots> \<le> card K" unfolding url_keys_def using assms(2) by (rule card_image_le)
  finally show ?thesis using assms(3) by (simp add: capacity_def)
qed

lemma enqueue_children_live:
  assumes "queue_inv K st q" "web_ok web opt K" "\<forall>c\<in>set children. up_url c \<in> K"
  shows "\<exists>st' q'. enqueue_children web opt start parent ref depth leaf children st = Some st' \<and> queue_inv K st' q'
    \<and> left_over K st' q' \<le> left_over K st q"
  using assms(1,3)
proof (induction children arbitrary: st q)
  case (Cons c children)
  note W = web_okD[OF assms(2)]
  show ?case
  proof (cases "ignore_when_downloading c \<or> leaf \<and> \<not> link_inline_p c")
    case True
    with Cons show ?thesis by simp
  next
    case False
    let ?i = "\<lparr>q_url = u_url (up_url c), q_referer = Some ref, q_depth = depth + 1,
               q_html_allowed = link_expect_html c, q_css_allowed = link_expect_css c\<rparr>"
    have live: "live_inv K st" using Cons.prems(1) by (simp add: queue_inv_def)
    then have sinv: "str_inv (t_blacklist st)" by (simp add: live_inv_def)
    have cK: "up_url c \<in> K" using Cons.prems(2) by simp
    obtain r st1 where d: "download_child web opt start c parent depth st = Some (r, st1)" "live_inv K st1"
      by (rule download_child_live[OF live assms(2) cK])
    note g = download_child_grows[OF sinv d(1)]
    have q1: "queue_inv K st1 q" using queue_inv_grows[OF Cons.prems(1) g d(2)] .
    have le1: "left_over K st1 q \<le> left_over K st q" using left_over_grows[OF W(1) live g] .
    show ?thesis
    proof (cases "r = WG_RR_SUCCESS")
      case True
      note S = download_child_success[OF sinv d(1)[unfolded True]]
      have rep: "queue_rep (t_queue st1) q" using q1 by (simp add: queue_inv_def)
      obtain queue where qu: "url_enqueue (t_queue st1) ?i = Some queue" "queue_rep queue (q @ [?i])"
        using url_fifo.enq[OF rep queue_short[OF q1 W(1,2)]] by blast
      have "url_unescape (u_url (up_url c)) \<in> url_keys K" using cK by (simp add: url_keys_def)
      with d(2) W(1,2) obtain bl where bl: "blacklist_add (t_blacklist st1) (u_url (up_url c)) = Some bl" "live_inv K (st1\<lparr>t_blacklist := bl\<rparr>)"
        "dom (smap bl) = insert (url_unescape (u_url (up_url c))) (dom (smap (t_blacklist st1)))"
        by (rule blacklist_add_live)
      let ?st = "st1\<lparr>t_queue := queue, t_blacklist := bl\<rparr>"
      have new: "key ?i \<notin> dom (smap (t_blacklist st1))" "key ?i \<in> url_keys K"
        using S(1,2) cK by (simp_all add: key_def url_keys_def)
      have I: "distinct (map key q)" "key ` set q \<subseteq> dom (smap (t_blacklist st1))" "\<forall>i\<in>set q. \<exists>u\<in>K. q_url i = u_url u"
        using q1 by (simp_all add: queue_inv_def)
      have q2: "queue_inv K ?st (q @ [?i])"
        unfolding queue_inv_def
      proof (intro conjI)
        show "live_inv K ?st" using bl(2) by (simp add: live_inv_def)
        show "distinct (map key (q @ [?i]))" using I(1,2) new(1) by auto
        show "key ` set (q @ [?i]) \<subseteq> dom (smap (t_blacklist ?st))" using I(2) bl(3) by (auto simp: key_def)
        show "\<forall>i\<in>set (q @ [?i]). \<exists>u\<in>K. q_url i = u_url u" using I(3) cK by auto
      qed (use qu in simp)
      have "card (url_keys K - dom (smap bl)) < card (url_keys K - dom (smap (t_blacklist st1)))"
        using new bl(3) W(1) by (intro psubset_card_mono) (auto simp: url_keys_def key_def)
      then have "left_over K ?st (q @ [?i]) \<le> left_over K st q" using le1 by (simp add: left_over_def)
      with Cons.IH[OF q2] Cons.prems(2) d(1) qu(1) bl(1) True False show ?thesis by fastforce
    next
      case F: False
      obtain l where l: "write_reject_log_reason (t_log st1) r (up_url c) parent = Some l" using reject_log_total by blast
      have "queue_inv K (st1\<lparr>t_log := l\<rparr>) q" using q1 by (simp add: queue_inv_def live_inv_def)
      from Cons.IH[OF this] Cons.prems(2) d(1) l F False le1 show ?thesis by (fastforce simp: left_over_def)
    qed
  qed
qed auto

lemma page_links_ok:
  assumes "web_ok web opt K" "page_ok opt pg" "pg_descend pg"
  obtains cs where "page_links web opt pg st = Some cs" "\<forall>c\<in>set cs. up_url c \<in> K"
proof -
  from assms(2,3) obtain f where f: "pg_file pg = Some f" by (auto simp: page_ok_def)
  have "\<forall>c\<in>set (fst (get_urls_html web (t_world st) f (pg_url pg))). up_url c \<in> K" using web_okD(4)[OF assms(1)] by blast
  moreover have "\<forall>c\<in>set (get_urls_css_file web (t_world st) f (pg_url pg)). up_url c \<in> K" using web_okD(5)[OF assms(1)] by blast
  ultimately have "\<exists>cs. page_links web opt pg st = Some cs \<and> (\<forall>c\<in>set cs. up_url c \<in> K)"
    by (cases "get_urls_html web (t_world st) f (pg_url pg)") (auto simp: page_links_def f)
  then show thesis using that by blast
qed

lemma follow_links_live:
  assumes "queue_inv K st q" "web_ok web opt K" "page_ok opt pg" "pg_descend pg"
  shows "\<exists>st' q'. follow_links web opt start pg depth leaf st = Some st' \<and> queue_inv K st' q' \<and> left_over K st' q' \<le> left_over K st q"
proof -
  obtain cs where cs: "page_links web opt pg st = Some cs" "\<forall>c\<in>set cs. up_url c \<in> K" by (rule page_links_ok[OF assms(2-)])
  from assms(3) obtain u where u: "url_parse (disabled_schemes opt) (pg_url pg) True = Some (Inr u)" by (auto simp: page_ok_def parses_def)
  obtain ref where ref: "(if u_user u \<noteq> None then url_string u URL_AUTH_HIDE else Some (pg_url pg)) = Some ref"
    using url_parse_printable[OF u, of URL_AUTH_HIDE] by (cases "u_user u") auto
  show ?thesis
  proof (cases "cs = []")
    case True
    with cs(1) assms(1) show ?thesis by (auto simp: follow_links_def)
  next
    case False
    with enqueue_children_live[OF assms(1,2) cs(2), of start u ref depth leaf] cs(1) u ref show ?thesis
      by (simp add: follow_links_def)
  qed
qed

lemma depth_check_descend: "depth_check opt depth b = (True, leaf) \<Longrightarrow> b"
  by (auto simp: depth_check_def split: if_splits)

lemma retrieve_step_live:
  assumes inv: "queue_inv K st q" and web: "web_ok web opt K"
  shows "retrieve_step web opt start st = Some None \<and> (over_quota web opt st \<or> t_status st = FWRITEERR \<or> q = []) \<or>
    (\<exists>item st' q'. retrieve_step web opt start st = Some (Some (item, st')) \<and> queue_inv K st' q' \<and> left_over K st' q' < left_over K st q)"
proof (cases "over_quota web opt st \<or> t_status st = FWRITEERR")
  case True
  then show ?thesis by (auto simp: retrieve_step_def)
next
  case go: False
  have rep: "queue_rep (t_queue st) q" using inv by (simp add: queue_inv_def)
  show ?thesis
  proof (cases q)
    case Nil
    with go rep dequeue_empty[of "t_queue st"] show ?thesis by (simp add: retrieve_step_def)
  next
    case (Cons item q0)
    with rep obtain queue where dq: "url_dequeue (t_queue st) = Some (Some (item, queue))" "queue_rep queue q0"
      using url_fifo.deq by blast
    let ?st0 = "st\<lparr>t_queue := queue\<rparr>"
    have I: "live_inv K st" "distinct (map key (item # q0))" "key ` set (item # q0) \<subseteq> dom (smap (t_blacklist st))"
      "\<forall>i\<in>set (item # q0). \<exists>u\<in>K. q_url i = u_url u" using inv Cons by (simp_all add: queue_inv_def)
    have l0: "live_inv K ?st0" using I(1) by (simp add: live_inv_def)
    have q0: "queue_inv K ?st0 q0" using I l0 dq(2) by (simp add: queue_inv_def)
    have less: "left_over K ?st0 q0 < left_over K st q" using Cons by (simp add: left_over_def)
    from I(4) obtain u0 where u0: "u0 \<in> K" "q_url item = u_url u0" by auto
    have ki: "key item \<in> url_keys K" using I(1,3) by (auto simp: live_inv_def)
    obtain pg st1 where gp: "get_page web opt start item ?st0 = Some (pg, st1)" "live_inv K st1" "page_ok opt pg"
      by (rule get_page_live[OF l0 web u0 ki])
    have "str_inv (t_blacklist ?st0)" using l0 by (simp add: live_inv_def)
    note g1 = get_page_grows[OF this gp(1)]
    have q1: "queue_inv K st1 q0" using queue_inv_grows[OF q0 g1 gp(2)] .
    have le1: "left_over K st1 q0 \<le> left_over K ?st0 q0" using left_over_grows[OF web_okD(1)[OF web] l0 g1] .
    obtain descend leaf where dc: "depth_check opt (q_depth item) (pg_descend pg) = (descend, leaf)" by fastforce
    obtain st2 q2 where fl: "(if descend then follow_links web opt start pg (q_depth item) leaf st1 else Some st1) = Some st2"
      "queue_inv K st2 q2" "left_over K st2 q2 \<le> left_over K st1 q0"
    proof (cases descend)
      case True
      with dc have "pg_descend pg" using depth_check_descend by simp
      from follow_links_live[OF q1 web gp(3) this, of start "q_depth item" leaf] True that show thesis by auto
    qed (use q1 that in simp)
    have "live_inv K st2" using fl(2) by (simp add: queue_inv_def)
    then obtain st3 where df: "discard_file web opt (pg_file pg) st2 = Some st3" "live_inv K st3" by (rule discard_file_live)
    have q3: "queue_inv K st3 q2" using queue_inv_grows[OF fl(2) discard_file_grows[OF df(1)] df(2)] .
    have "left_over K st3 q2 \<le> left_over K st2 q2"
      using left_over_grows[OF web_okD(1)[OF web] \<open>live_inv K st2\<close> discard_file_grows[OF df(1)]] .
    moreover have "retrieve_step web opt start st = Some (Some (item, st3))"
      using go dq(1) gp(1) dc fl(1) df(1) by (simp add: retrieve_step_def)
    moreover have "left_over K st2 q2 < left_over K st q" using less le1 fl(3) by linarith
    ultimately show ?thesis using q3 by (intro disjI2 exI[of _ item] exI[of _ st3] exI[of _ q2]) linarith
  qed
qed

lemma retrieve_loop_returns:
  assumes "queue_inv K st q" "web_ok web opt K"
  shows "\<exists>st'. retrieve_loop web opt start st = Some st' \<and> (over_quota web opt st' \<or> t_status st' = FWRITEERR \<or> queue_rep (t_queue st') [])"
  using assms(1)
proof (induction "left_over K st q" arbitrary: st q rule: less_induct)
  case less
  from retrieve_step_live[OF less.prems assms(2), of start] show ?case
  proof (elim disjE conjE exE)
    assume "retrieve_step web opt start st = Some None" "over_quota web opt st"
    then show ?thesis by (subst retrieve_loop.simps) auto
  next
    assume "retrieve_step web opt start st = Some None" "t_status st = FWRITEERR"
    then show ?thesis by (subst retrieve_loop.simps) auto
  next
    assume "retrieve_step web opt start st = Some None" "q = []"
    with less.prems show ?thesis by (subst retrieve_loop.simps) (auto simp: queue_inv_def)
  next
    fix item st1 q1
    assume "retrieve_step web opt start st = Some (Some (item, st1))" "queue_inv K st1 q1" "left_over K st1 q1 < left_over K st q"
    with less.hyps[of st1 q1] show ?thesis by (subst retrieve_loop.simps) auto
  qed
qed

lemma tree_init_live:
  assumes "web_ok web opt K" "start \<in> K" "dl_inv dl"
  obtains st where "tree_init opt start None w dl x = Some st" "queue_inv K st [start_item start]" "t_status st = RETROK" "t_world st = w"
proof -
  obtain bl0 :: "(string, string) hash_table" where b0: "make_string_hash_table 0 = Some bl0" "str_inv bl0" "smap bl0 = Map.empty" "ht_count bl0 = 0"
    by (rule make_string_table)
  obtain queue where q: "url_enqueue url_queue_new (start_item start) = Some queue" "queue_rep queue ([] @ [start_item start])"
    using url_fifo.enq[OF url_fifo.new, of "start_item start"] by auto
  have "ht_count bl0 < capacity" using b0(4) by (simp add: capacity_def)
  with b0(2) obtain bl where bl: "string_set_add bl0 (url_unescape (u_url start)) = Some bl" "str_inv bl"
    "dom (smap bl) = insert (url_unescape (u_url start)) (dom (smap bl0))" by (rule set_add_ok)
  define st where "st = \<lparr>t_queue = queue, t_blacklist = bl, t_registry = None, t_world = w, t_dl = dl, t_exit = x, t_status = RETROK,
       t_log = (if rejected_log opt then Some write_reject_log_header else None)\<rparr>"
  have init: "tree_init opt start None w dl x = Some st"
    using b0(1) q(1) bl(1) by (simp add: tree_init_def start_item_def blacklist_add_def st_def)
  have "live_inv K st" using bl assms(2,3) b0(3) by (simp add: live_inv_def st_def url_keys_def reg_inv_def reg_keys_def)
  then have "queue_inv K st [start_item start]"
    using q(2) bl(3) assms(2) by (auto simp: queue_inv_def st_def key_def start_item_def)
  with init show thesis by (rule that) (simp_all add: st_def)
qed

text \<open>
  C9. The traversal ends. If all links and redirections lead to one of finitely many URLs (fewer than
  805306367), those URLs can be parsed again, and fetching keeps the books of downloads in order,
  then \<open>retrieve_tree\<close> returns, whatever cycles the links form; and if it reports success, every
  URL that was enqueued has been processed.
\<close>
theorem retrieve_tree_returns:
  assumes "web_ok web opt K" and "start \<in> K" and "dl_inv dl"
  shows "\<exists>rc st. retrieve_tree web opt start None w dl x = Some (rc, st) \<and> rc \<in> {RETROK, QUOTEXC, FWRITEERR} \<and>
    (rc = RETROK \<longrightarrow> url_dequeue (t_queue st) = Some None)"
proof -
  obtain st where init: "tree_init opt start None w dl x = Some st" "queue_inv K st [start_item start]"
    by (rule tree_init_live[OF assms])
  from retrieve_loop_returns[OF init(2) assms(1), of start] obtain st' where
    st': "retrieve_loop web opt start st = Some st'" "over_quota web opt st' \<or> t_status st' = FWRITEERR \<or> queue_rep (t_queue st') []" by blast
  then show ?thesis using init(1) dequeue_empty[of "t_queue st'"] by (auto simp: retrieve_tree_def)
qed

subsection \<open>Examples\<close>

lemma example_web_ok: "web_ok example_web example_opt {example_url [], example_url ''a''}"
proof -
  have p: "parses example_opt (u_url (example_url [])) True (example_url [])"
    "parses example_opt (u_url (example_url ''a'')) True (example_url ''a'')"
    unfolding parses_def by code_simp+
  have "card {example_url [], example_url ''a''} < capacity"
    by (rule le_less_trans[OF card_insert_le_m1[of 2]]) (simp_all add: capacity_def)
  with p show ?thesis
    unfolding web_ok_def by (auto simp: example_web_def new_urlpos_def)
qed

lemma no_downloads_ok: "dl_inv no_downloads"
  by (simp add: dl_inv_def no_downloads_def)

theorem retrieve_tree_returns_witness:
  "\<exists>rc st. retrieve_tree example_web example_opt (example_url []) None () no_downloads 0 = Some (rc, st) \<and> rc \<in> {RETROK, QUOTEXC, FWRITEERR}"
  using retrieve_tree_returns[OF example_web_ok _ no_downloads_ok, of "example_url []" "()" 0] by auto



lemma register_get:
  assumes "registry_ok reg"
  shows "\<exists>reg'. res_register_specs reg host port specs = Some reg' \<and>
    (\<forall>h p. res_get_specs reg' h p = (if lower h = lower host \<and> p = port then Some specs else res_get_specs reg h p))"
  by (rule register_ok[OF assms, of host port specs]) blast

lemma get_specs_cong:
  assumes "lower h = lower h'" "registry_ok reg"
  shows "res_get_specs reg h p = res_get_specs reg h' p"
proof (cases reg)
  case (Some ht)
  with assms(2) have inv: "ht_inv hash_string_nocase string_cmp_nocase ht" by (simp add: registry_ok_def)
  have "lower (host_port h p) = lower (host_port h' p)" using host_port_inj assms(1) by blast
  then have "ht_find ht (host_port h p) = ht_find ht (host_port h' p)"
    using ht_invD(2)[OF inv] by (simp add: ht_find_def nocase_cmp)
  with Some inv show ?thesis by (simp add: res_get_specs_def nocase_keys.get_ok)
qed (simp add: res_get_specs_def)


lemma robots_specs_readable:
  assumes "robots_specs web opt u st = Some (specs, st')" "\<And>w f. read_file web w f \<noteq> None"
  shows "specs \<noteq> None"
proof -
  have parsed: "res_parse_from_file (read_file web w f) = Some sp \<Longrightarrow> sp \<noteq> None" for w f sp
    using assms(2)[of w f] by (auto simp: res_parse_from_file_def bind_eq_Some_conv)
  show ?thesis
  proof (cases "res_get_specs (t_registry st) (u_host u) (u_port u) = Some None")
    case False
    with assms(1) show ?thesis by (auto simp: robots_specs_def bind_eq_Some_conv split: if_splits)
  next
    case True
    from assms(1) True obtain rfile w where
      "(case rfile of
            Some name \<Rightarrow> do {
              rfile \<leftarrow> name;
              specs \<leftarrow> res_parse_from_file (read_file web w rfile);
              Some (specs, if delete_after opt \<or> spider opt \<or> match_tail rfile ''.tmp'' False then unlink_file web w rfile else w) }
          | None \<Rightarrow> do { specs \<leftarrow> res_parse []; Some (Some specs, w) }) \<bind> (\<lambda>(sp, w). Some sp) = Some specs"
      unfolding robots_specs_def by (fastforce simp: bind_eq_Some_conv)
    then show ?thesis using parsed by (cases rfile) (auto simp: bind_eq_Some_conv)
  qed
qed


end
