(* ===== verification/Wget_Html_Scan.thy ===== *)
theory Wget_Html_Scan
  imports Wget_Hash_Map
begin

section \<open>The parts of the HTML scanner (wget/src/html-parse.c)\<close>

text \<open>
  \<open>map_html_tags\<close> runs over the text of a page and calls a function for every tag, with the tag's
  attributes and the places where their values stand. The page comes from a server and its buffer is
  not terminated, so the model keeps track of every read: a pointer into the buffer is the rest of
  the buffer, the end is the empty rest, and a read through it is \<open>Undefined\<close>.

  The jumps of the C function are values: \<open>goto finish\<close>, \<open>goto look_for_tag\<close> with the position
  it continues from, and \<open>goto backout_tag\<close>. The pool and the array of attributes, which only grow,
  are strings and lists, and the doubly linked tag stack is a list with its tail first.
\<close>

datatype jump = Finish | LookForTag string | BackoutTag | Undefined

fun bindj :: "jump + 'a \<Rightarrow> ('a \<Rightarrow> jump + 'b) \<Rightarrow> jump + 'b" where
  "bindj (Inl j) f = Inl j"
| "bindj (Inr x) f = f x"

lemma bindj_cong [fundef_cong]:
  "m = m' \<Longrightarrow> (\<And>x. m' = Inr x \<Longrightarrow> f x = f' x) \<Longrightarrow> bindj m f = bindj m' f'"
  by (cases m') auto

fun rd :: "string \<Rightarrow> jump + char" where
  \<comment> \<open>\<open>*p\<close>\<close>
  "rd [] = Inl Undefined"
| "rd (c # p) = Inr c"

fun lift_run :: "'a run \<Rightarrow> jump + 'a" where
  "lift_run None = Inl Undefined"
| "lift_run (Some x) = Inr x"

definition ADVANCE :: "string \<Rightarrow> jump + string" where
  "ADVANCE p = (if tl p = [] then Inl Finish else Inr (tl p))"

fun advance_while :: "(char \<Rightarrow> bool) \<Rightarrow> string \<Rightarrow> jump + string" where
  \<comment> \<open>\<open>while (P (*p)) ADVANCE (p)\<close>\<close>
  "advance_while P [] = Inl Undefined"
| "advance_while P (c # p) = (if P c then (if p = [] then Inl Finish else advance_while P p) else Inr (c # p))"

abbreviation SKIP_WS :: "string \<Rightarrow> jump + string" where
  "SKIP_WS \<equiv> advance_while c_isspace"

definition NAME_CHAR_P :: "char \<Rightarrow> bool" where
  "NAME_CHAR_P x \<longleftrightarrow> 32 < schar x \<and> schar x < 127 \<and> x \<noteq> CHR ''='' \<and> x \<noteq> CHR ''<'' \<and> x \<noteq> CHR ''>'' \<and> x \<noteq> CHR ''/''"

subsection \<open>Entities and copying\<close>

fun num_loop :: "nat \<Rightarrow> (char \<Rightarrow> bool) \<Rightarrow> nat \<Rightarrow> string \<Rightarrow> string \<Rightarrow> nat \<Rightarrow> nat \<times> nat \<times> string" where
  \<comment> \<open>value, number of digits and position after the digits\<close>
  "num_loop base isdig digits [] e value = (value, digits, [])"
| "num_loop base isdig digits (c # p) e value =
     (if value < 256 \<and> length (c # p) > length e \<and> isdig c
      then num_loop base isdig (digits + 1) p e (value * base + unhex c)
      else (value, digits, c # p))"

definition FITS :: "string \<Rightarrow> nat \<Rightarrow> string \<Rightarrow> bool" where
  "FITS p n e \<longleftrightarrow> length p = length e + n \<or> length p > length e + n \<and> \<not> c_isalnum (p ! n)"

definition ENT :: "string \<Rightarrow> string \<Rightarrow> string \<Rightarrow> bool" where
  \<comment> \<open>\<open>ENT1\<close> to \<open>ENT3\<close>\<close>
  "ENT p name e \<longleftrightarrow> FITS p (length name) e \<and> take (length name) p = name"

definition SKIP_SEMI :: "string \<Rightarrow> nat \<Rightarrow> string \<Rightarrow> string" where
  "SKIP_SEMI p inc e =
     (let p = drop inc p in if length p > length e \<and> hd p = CHR '';'' then tl p else p)"

definition decode_entity :: "string \<Rightarrow> string \<Rightarrow> (char option \<times> string) run" where
  \<comment> \<open>\<^term>\<open>None\<close> in the first component stands for -1\<close>
  "decode_entity ptr e =
     (let p = tl ptr in
      if length p = length e then Some (None, ptr)
      else case p of
        [] \<Rightarrow> None
      | c # p \<Rightarrow>
          if c = CHR ''#'' then
            (case p of
               [] \<Rightarrow> None
             | x # q \<Rightarrow>
                 let (value, digits, p) =
                   (if x = CHR ''x'' then num_loop 16 c_isxdigit 0 q e 0 else num_loop 10 c_isdigit 0 p e 0)
                 in if digits = 0 then Some (None, ptr)
                    else if value = 0 \<or> value > 127 then Some (None, ptr)
                    else Some (Some (char_of value), SKIP_SEMI p 0 e))
          else if c = CHR ''g'' \<and> ENT p ''t'' e then Some (Some CHR ''>'', SKIP_SEMI p 1 e)
          else if c = CHR ''l'' \<and> ENT p ''t'' e then Some (Some CHR ''<'', SKIP_SEMI p 1 e)
          else if c = CHR ''a'' \<and> ENT p ''mp'' e then Some (Some CHR ''&'', SKIP_SEMI p 2 e)
          else if c = CHR ''a'' \<and> ENT p ''pos'' e then Some (Some CHR 0x27, SKIP_SEMI p 3 e)
          else if c = CHR ''q'' \<and> ENT p ''uot'' e then Some (Some CHR 0x22, SKIP_SEMI p 3 e)
          else Some (None, ptr))"

lemma num_loop_length: "length (snd (snd (num_loop b f d p e v))) \<le> length p"
  by (induction b f d p e v rule: num_loop.induct) auto

lemma skip_semi_length: "length (SKIP_SEMI p n e) \<le> length p"
  by (auto simp: SKIP_SEMI_def Let_def)

lemma decode_entity_shorter:
  assumes "decode_entity ptr e = Some (Some c, q)"
  shows "length q < length ptr"
proof -
  from assms obtain d p where p: "tl ptr = d # p"
    by (cases "tl ptr") (auto simp: decode_entity_def Let_def split: if_splits)
  then have l: "length ptr = length p + 2" by (cases ptr) auto
  have "length q \<le> length p"
    using assms p num_loop_length[of 16 c_isxdigit 0 "tl p" e 0] num_loop_length[of 10 c_isdigit 0 p e 0]
    by (auto simp: decode_entity_def Let_def split: if_splits list.splits prod.splits
        intro: order_trans[OF skip_semi_length])
  with l show ?thesis by simp
qed

function copy_loop :: "bool \<Rightarrow> string \<Rightarrow> string \<Rightarrow> string run" where
  \<comment> \<open>\<open>while (from < end)\<close>: the bytes written through \<open>to\<close>\<close>
  "copy_loop squash_newlines p e =
     (if length p > length e then
        (if hd p = CHR ''&'' then do {
           (entity, q) \<leftarrow> decode_entity p e;
           (case entity of
              Some c \<Rightarrow> map_option ((#) c) (copy_loop squash_newlines q e)
            | None \<Rightarrow> map_option ((#) CHR ''&'') (copy_loop squash_newlines (tl p) e)) }
         else if (hd p = LF \<or> hd p = CR) \<and> squash_newlines then copy_loop squash_newlines (tl p) e
         else map_option ((#) (hd p)) (copy_loop squash_newlines (tl p) e))
      else Some [])"
  by pat_completeness auto
termination
  by (relation "measure (\<lambda>(s, p, e). length p)") (auto dest: decode_entity_shorter)

declare copy_loop.simps [simp del]

record copy_flags =
  AP_DOWNCASE :: bool
  AP_DECODE_ENTITIES :: bool
  AP_TRIM_BLANKS :: bool

definition trim_blanks :: "string \<Rightarrow> string \<Rightarrow> string \<times> string" where
  "trim_blanks beg e =
     (let r = dropWhile c_isspace (take (length beg - length e) beg);
          n = length (rtrim_space r)
      in (r @ e, drop n (r @ e)))"

definition convert_and_copy :: "string \<Rightarrow> string \<Rightarrow> copy_flags \<Rightarrow> string run" where
  \<comment> \<open>the C string that the copy in the pool is, up to the first NUL\<close>
  "convert_and_copy beg e flags = do {
     let (beg, e) = (if AP_TRIM_BLANKS flags then trim_blanks beg e else (beg, e));
     t \<leftarrow> (if AP_DECODE_ENTITIES flags then copy_loop (AP_TRIM_BLANKS flags) beg e
          else Some (take (length beg - length e) beg));
     (if length t \<le> length beg - length e then Some () else None);
     let s = takeWhile (\<lambda>c. c \<noteq> NUL) t;
     Some (if AP_DOWNCASE flags then lower s else s) }"

subsection \<open>Declarations and comments\<close>

datatype ac_state =
    AC_S_DONE | AC_S_BACKOUT | AC_S_BANG | AC_S_DEFAULT | AC_S_DCLNAME | AC_S_DASH1 | AC_S_DASH2
  | AC_S_COMMENT | AC_S_DASH3 | AC_S_DASH4 | AC_S_QUOTE1 | AC_S_IN_QUOTE | AC_S_QUOTE2

fun ac_switch :: "ac_state \<Rightarrow> char \<Rightarrow> char \<Rightarrow> string \<Rightarrow> (ac_state \<times> char \<times> char \<times> string) run" where
  \<comment> \<open>\<open>switch (state)\<close> for a pointer that is not at the end: \<open>quote_char\<close>, \<open>ch\<close> and \<open>p\<close>\<close>
  "ac_switch AC_S_DONE qc ch p = Some (AC_S_DONE, qc, ch, p)"
| "ac_switch AC_S_BACKOUT qc ch p = Some (AC_S_BACKOUT, qc, ch, p)"
| "ac_switch AC_S_BANG qc ch p =
     Some (if ch = CHR ''!'' then (AC_S_DEFAULT, qc, hd p, tl p) else (AC_S_BACKOUT, qc, ch, p))"
| "ac_switch AC_S_DEFAULT qc ch p =
     Some (if ch = CHR ''-'' then (AC_S_DASH1, qc, ch, p)
           else if ch \<in> {CHR '' '', TAB, CR, LF} then (AC_S_DEFAULT, qc, hd p, tl p)
           else if ch \<in> {CHR ''<'', CHR ''>''} then (AC_S_DONE, qc, ch, p)
           else if ch \<in> {CHR 0x27, CHR 0x22} then (AC_S_QUOTE1, qc, ch, p)
           else if NAME_CHAR_P ch then (AC_S_DCLNAME, qc, ch, p)
           else (AC_S_BACKOUT, qc, ch, p))"
| "ac_switch AC_S_DCLNAME qc ch p =
     Some (if ch = CHR ''-'' then (AC_S_DASH1, qc, ch, p)
           else if NAME_CHAR_P ch then (AC_S_DCLNAME, qc, hd p, tl p)
           else (AC_S_DEFAULT, qc, ch, p))"
| "ac_switch AC_S_QUOTE1 qc ch p =
     (if ch \<in> {CHR 0x27, CHR 0x22} then Some (AC_S_IN_QUOTE, ch, hd p, tl p) else None)"
| "ac_switch AC_S_IN_QUOTE qc ch p =
     Some (if ch = qc then (AC_S_QUOTE2, qc, ch, p) else (AC_S_IN_QUOTE, qc, hd p, tl p))"
| "ac_switch AC_S_QUOTE2 qc ch p = (if ch = qc then Some (AC_S_DEFAULT, qc, hd p, tl p) else None)"
| "ac_switch AC_S_DASH1 qc ch p = (if ch = CHR ''-'' then Some (AC_S_DASH2, qc, hd p, tl p) else None)"
| "ac_switch AC_S_DASH2 qc ch p =
     Some (if ch = CHR ''-'' then (AC_S_COMMENT, qc, hd p, tl p) else (AC_S_BACKOUT, qc, ch, p))"
| "ac_switch AC_S_COMMENT qc ch p =
     Some (if ch = CHR ''-'' then (AC_S_DASH3, qc, ch, p) else (AC_S_COMMENT, qc, hd p, tl p))"
| "ac_switch AC_S_DASH3 qc ch p = (if ch = CHR ''-'' then Some (AC_S_DASH4, qc, hd p, tl p) else None)"
| "ac_switch AC_S_DASH4 qc ch p =
     Some (if ch = CHR ''-'' then (AC_S_DEFAULT, qc, hd p, tl p) else (AC_S_COMMENT, qc, ch, p))"

fun ac_rank :: "ac_state \<Rightarrow> char \<Rightarrow> nat" where
  \<comment> \<open>the number of rounds until the next character is read, at most\<close>
  "ac_rank AC_S_DCLNAME ch = (if NAME_CHAR_P ch then 1 else 4)"
| "ac_rank AC_S_DEFAULT ch = (if NAME_CHAR_P ch then 2 else 3)"
| "ac_rank AC_S_DASH4 ch = 2"
| "ac_rank AC_S_DASH2 ch = 1"
| "ac_rank AC_S_BANG ch = 1"
| "ac_rank AC_S_COMMENT ch = 1"
| "ac_rank AC_S_IN_QUOTE ch = 1"
| "ac_rank s ch = 0"

lemma ac_switch_progress:
  assumes "ac_switch s qc ch p = Some (s', qc', ch', p')" "p \<noteq> []" "s' \<noteq> AC_S_DONE" "s' \<noteq> AC_S_BACKOUT"
  shows "length p' < length p \<or> p' = p \<and> ac_rank s' ch' < ac_rank s ch"
  using assms by (cases s; cases p) (auto simp: NAME_CHAR_P_def schar_def split: if_splits)

definition ac_rounds :: "ac_state \<Rightarrow> char \<Rightarrow> nat" where
  "ac_rounds s ch = (if s = AC_S_DONE \<or> s = AC_S_BACKOUT then 0 else Suc (ac_rank s ch))"

lemma ac_switch_length: "ac_switch s qc ch p = Some (s', qc', ch', p') \<Longrightarrow> length p' \<le> length p"
  by (cases s) (auto split: if_splits)

lemma ac_switch_decreases:
  assumes "ac_switch s qc ch p = Some (s', qc', ch', p')" "p \<noteq> []" "s \<noteq> AC_S_DONE" "s \<noteq> AC_S_BACKOUT"
  shows "length p' < length p \<or> length p' = length p \<and> ac_rounds s' ch' < ac_rounds s ch"
proof (cases "s' = AC_S_DONE \<or> s' = AC_S_BACKOUT")
  case True
  then show ?thesis using ac_switch_length[OF assms(1)] assms(3,4) by (auto simp: ac_rounds_def)
next
  case False
  then show ?thesis using ac_switch_progress[OF assms(1,2)] assms(3,4) by (auto simp: ac_rounds_def)
qed

function declaration_loop :: "ac_state \<Rightarrow> char \<Rightarrow> char \<Rightarrow> string \<Rightarrow> string option run" where
  \<comment> \<open>the position after the declaration; \<^term>\<open>Some None\<close> for the state \<open>AC_S_BACKOUT\<close>\<close>
  "declaration_loop state qc ch p =
     (if state = AC_S_DONE then Some (Some p)
      else if state = AC_S_BACKOUT \<or> p = [] then Some None
      else do {
        (state, qc, ch, p) \<leftarrow> ac_switch state qc ch p;
        declaration_loop state qc ch p })"
  by pat_completeness auto
termination
proof (relation "inv_image (less_than <*lex*> less_than) (\<lambda>(s, qc, ch, p). (length p, ac_rounds s ch))", goal_cases)
  case (2 s qc ch p r s' x qc' y ch' p')
  then show ?case using ac_switch_decreases[of s qc ch p s' qc' ch' p'] by auto
qed auto

declare declaration_loop.simps [simp del]

definition advance_declaration :: "string \<Rightarrow> string run" where
  "advance_declaration beg =
     (case beg of
        [] \<Rightarrow> Some []
      | ch # p \<Rightarrow> do {
          r \<leftarrow> declaration_loop AC_S_BANG NUL ch p;
          Some (case r of None \<Rightarrow> tl beg | Some p \<Rightarrow> p) })"

datatype bm_label = Loop | At_dash | At_dash_dash

function comment_search :: "string \<Rightarrow> bm_label \<Rightarrow> nat \<Rightarrow> nat option" where
  \<comment> \<open>in \<open>Loop\<close> the pointer has just been advanced by three\<close>
  "comment_search s Loop p =
     (if p \<ge> length s then None
      else if s ! p = CHR ''>'' then
        (if s ! (p - 1) = CHR ''-'' \<and> s ! (p - 2) = CHR ''-'' then Some (p + 1) else comment_search s Loop (p + 3))
      else if s ! p = CHR ''-'' then comment_search s At_dash p
      else comment_search s Loop (p + 3))"
| "comment_search s At_dash p =
     (if s ! (p - 1) = CHR ''-'' then comment_search s At_dash_dash p
      else if p + 2 \<ge> length s then None
      else if s ! (p + 2) = CHR ''>'' then
        (if s ! (p + 1) = CHR ''-'' then Some (p + 3) else comment_search s Loop (p + 5))
      else if s ! (p + 2) = CHR ''-'' then comment_search s At_dash (p + 2)
      else comment_search s Loop (p + 5))"
| "comment_search s At_dash_dash p =
     (if p + 1 \<ge> length s then None
      else if s ! (p + 1) = CHR ''>'' then Some (p + 2)
      else if s ! (p + 1) = CHR ''-'' then comment_search s At_dash_dash (p + 1)
      else comment_search s Loop (p + 4))"
  by pat_completeness auto
termination
  by (relation "inv_image (less_than <*lex*> less_than) (\<lambda>(s, l, p). (length s - p, case l of Loop \<Rightarrow> 2 | At_dash \<Rightarrow> 1 | At_dash_dash \<Rightarrow> 0))") auto

declare comment_search.simps [simp del]

definition find_comment_end :: "string \<Rightarrow> string option" where
  "find_comment_end beg = map_option (\<lambda>n. drop n beg) (comment_search beg Loop 2)"

subsection \<open>Tags\<close>

record attr_pair =
  attr_name :: string
  attr_value :: string
  value_raw_beginning :: nat \<comment> \<open>offset in the text\<close>
  value_raw_size :: nat

record taginfo =
  tag_name :: string
  end_tag_p :: bool
  attrs :: "attr_pair list"
  start_position :: nat
  end_position :: nat
  contents_begin :: "nat option"
  contents_end :: "nat option"

record tagstack_item =
  ts_name_begin :: string
  ts_name_end :: string
  ts_contents_begin :: "string option"

record mht_flags =
  MHT_STRICT_COMMENTS :: bool
  MHT_TRIM_VALUES :: bool

definition region :: "string \<Rightarrow> string \<Rightarrow> string" where
  \<comment> \<open>the bytes in \<open>[b, e)\<close>\<close>
  "region b e = take (length b - length e) b"

definition name_allowed :: "(string, 'v) hash_table option \<Rightarrow> string \<Rightarrow> string \<Rightarrow> bool run" where
  "name_allowed ht b e =
     (case ht of None \<Rightarrow> Some True | Some ht \<Rightarrow> map_option (\<lambda>v. v \<noteq> None) (hash_table_get ht (region b e)))"

definition tagstack_push :: "tagstack_item \<Rightarrow> tagstack_item list \<Rightarrow> tagstack_item list" where
  "tagstack_push ts stack = ts # stack"

fun tagstack_find :: "tagstack_item list \<Rightarrow> string \<Rightarrow> string \<Rightarrow> nat option" where
  \<comment> \<open>how far the item is from the tail\<close>
  "tagstack_find [] b e = None"
| "tagstack_find (ts # stack) b e =
     (if lower (region (ts_name_begin ts) (ts_name_end ts)) = lower (region b e) then Some 0
      else map_option Suc (tagstack_find stack b e))"

definition tagstack_pop :: "nat \<Rightarrow> tagstack_item list \<Rightarrow> tagstack_item list" where
  \<comment> \<open>the item and everything after it\<close>
  "tagstack_pop i stack = drop (Suc i) stack"

definition tag_declaration :: "mht_flags \<Rightarrow> string \<Rightarrow> jump + string" where
  \<comment> \<open>from \<open>*p == '!'\<close> on\<close>
  "tag_declaration flags p = bindj
     (if \<not> MHT_STRICT_COMMENTS flags \<and> length p > 3 \<and> p ! 1 = CHR ''-'' \<and> p ! 2 = CHR ''-''
      then Inr (case find_comment_end (drop 3 p) of None \<Rightarrow> p | Some q \<Rightarrow> q)
      else lift_run (advance_declaration p))
     (\<lambda>p. if p = [] then Inl Finish else Inl (LookForTag p))"

definition tag_head :: "mht_flags \<Rightarrow> string \<Rightarrow> jump + bool \<times> string \<times> string \<times> string" where
  \<comment> \<open>\<open>end_tag\<close>, \<open>tag_name_begin\<close>, \<open>tag_name_end\<close> and \<open>p\<close>\<close>
  "tag_head flags tag_start_position =
     bindj (ADVANCE tag_start_position) (\<lambda>p.
     bindj (rd p) (\<lambda>c.
     bindj (if c = CHR ''!'' then bindj (tag_declaration flags p) (\<lambda>p. Inr (False, p))
            else if c = CHR ''/'' then bindj (ADVANCE p) (\<lambda>p. Inr (True, p))
            else Inr (False, p)) (\<lambda>(end_tag, tag_name_begin).
     bindj (advance_while NAME_CHAR_P tag_name_begin) (\<lambda>p.
     if p = tag_name_begin then Inl (LookForTag p)
     else bindj (SKIP_WS p) (\<lambda>q. Inr (end_tag, tag_name_begin, p, q))))))"

function quoted_loop :: "char \<Rightarrow> string \<Rightarrow> bool \<Rightarrow> string \<Rightarrow> jump + string" where
  \<comment> \<open>\<open>while (*p != quote_char)\<close>\<close>
  "quoted_loop qc attr_value_begin newline_seen [] = Inl Undefined"
| "quoted_loop qc attr_value_begin newline_seen (c # p) =
     (if c = qc then Inr (c # p)
      else if \<not> newline_seen \<and> c = LF then quoted_loop qc attr_value_begin True attr_value_begin
      else if newline_seen \<and> (c = CHR ''<'' \<or> c = CHR ''>'') then Inr (c # p)
      else if p = [] then Inl Finish
      else quoted_loop qc attr_value_begin newline_seen p)"
  by pat_completeness auto
termination
  by (relation "inv_image (less_than <*lex*> less_than) (\<lambda>(q, b, nl, p). (if nl then 0 else 1 :: nat, length p))") auto

record raw_attr =
  ra_name :: "string \<times> string" \<comment> \<open>begin and end\<close>
  ra_value :: "string \<times> string"
  ra_raw :: "string \<times> string"
  ra_operation :: copy_flags

definition quoted_value :: "mht_flags \<Rightarrow> string \<Rightarrow> jump + (string \<times> string) \<times> (string \<times> string) \<times> copy_flags \<times> string" where
  \<comment> \<open>value, raw value, operation and \<open>p\<close> for a value that begins with a quote at \<open>p\<close>\<close>
  "quoted_value flags attr_raw_value_begin =
     bindj (ADVANCE attr_raw_value_begin) (\<lambda>attr_value_begin.
     bindj (quoted_loop (hd attr_raw_value_begin) attr_value_begin False attr_value_begin) (\<lambda>attr_value_end.
     bindj (rd attr_value_end) (\<lambda>c.
     if c = hd attr_raw_value_begin then bindj (ADVANCE attr_value_end) (\<lambda>p.
       Inr ((attr_value_begin, attr_value_end), (attr_raw_value_begin, p),
         \<lparr>AP_DOWNCASE = False, AP_DECODE_ENTITIES = True, AP_TRIM_BLANKS = MHT_TRIM_VALUES flags\<rparr>, p))
     else Inl (LookForTag attr_value_end))))"

definition plain_value :: "string \<Rightarrow> jump + (string \<times> string) \<times> (string \<times> string) \<times> copy_flags \<times> string" where
  "plain_value attr_value_begin =
     bindj (advance_while (\<lambda>c. \<not> c_isspace c \<and> c \<noteq> CHR ''<'' \<and> c \<noteq> CHR ''>'') attr_value_begin) (\<lambda>p.
     if p = attr_value_begin then Inl BackoutTag
     else Inr ((attr_value_begin, p), (attr_value_begin, p),
       \<lparr>AP_DOWNCASE = False, AP_DECODE_ENTITIES = True, AP_TRIM_BLANKS = False\<rparr>, p))"

definition attr_start :: "string \<Rightarrow> jump + string" where
  \<comment> \<open>white space, and a slash in front of the end of the tag\<close>
  "attr_start p =
     bindj (SKIP_WS p) (\<lambda>p.
     bindj (rd p) (\<lambda>c.
     if c = CHR ''/'' then
       bindj (ADVANCE p) (\<lambda>p. bindj (SKIP_WS p) (\<lambda>p. bindj (rd p) (\<lambda>c.
         if c \<noteq> CHR ''<'' \<and> c \<noteq> CHR ''>'' then Inl BackoutTag else Inr p)))
     else Inr p))"

definition attr_value_bounds ::
  "mht_flags \<Rightarrow> string \<Rightarrow> string \<Rightarrow> string \<Rightarrow> jump + (string \<times> string) \<times> (string \<times> string) \<times> copy_flags \<times> string" where
  \<comment> \<open>after the name and the white space that follows it\<close>
  "attr_value_bounds flags attr_name_begin attr_name_end p =
     bindj (rd p) (\<lambda>c.
     if NAME_CHAR_P c \<or> c = CHR ''/'' \<or> c = CHR ''<'' \<or> c = CHR ''>''
     then Inr ((attr_name_begin, attr_name_end), (attr_name_begin, attr_name_end),
       \<lparr>AP_DOWNCASE = True, AP_DECODE_ENTITIES = False, AP_TRIM_BLANKS = False\<rparr>, p)
     else if c = CHR ''='' then
       bindj (ADVANCE p) (\<lambda>p. bindj (SKIP_WS p) (\<lambda>p. bindj (rd p) (\<lambda>c.
         if c = CHR 0x22 \<or> c = CHR 0x27 then quoted_value flags p else plain_value p)))
     else Inl BackoutTag)"

definition attr_step :: "mht_flags \<Rightarrow> string \<Rightarrow> jump + raw_attr option \<times> string" where
  \<comment> \<open>one round of the loop over the attributes up to their bounds; \<^term>\<open>None\<close> for \<open>break\<close>\<close>
  "attr_step flags p =
     bindj (attr_start p) (\<lambda>p.
     bindj (rd p) (\<lambda>c.
     if c = CHR ''<'' \<or> c = CHR ''>'' then Inr (None, p)
     else bindj (advance_while NAME_CHAR_P p) (\<lambda>attr_name_end.
       if attr_name_end = p then Inl BackoutTag
       else bindj (SKIP_WS attr_name_end) (\<lambda>q.
         bindj (attr_value_bounds flags p attr_name_end q) (\<lambda>(val, raw, operation, q).
           Inr (Some \<lparr>ra_name = (p, attr_name_end), ra_value = val, ra_raw = raw, ra_operation = operation\<rparr>, q))))))"

lemma bindj_Inr: "bindj m f = Inr y \<longleftrightarrow> (\<exists>x. m = Inr x \<and> f x = Inr y)"
  by (cases m) auto

lemma bindj_Inl: "bindj m f = Inl j \<longleftrightarrow> m = Inl j \<or> (\<exists>x. m = Inr x \<and> f x = Inl j)"
  by (cases m) auto

lemma rd_Inr: "rd p = Inr c \<longleftrightarrow> p \<noteq> [] \<and> c = hd p"
  by (cases p) auto

lemma rd_Inl: "rd p = Inl j \<longleftrightarrow> p = [] \<and> j = Undefined"
  by (cases p) auto

lemma lift_run_Inr: "lift_run r = Inr x \<longleftrightarrow> r = Some x"
  by (cases r) auto

lemma lift_run_Inl: "lift_run r = Inl j \<longleftrightarrow> r = None \<and> j = Undefined"
  by (cases r) auto

lemma ADVANCE_Inr: "ADVANCE p = Inr q \<longleftrightarrow> q = tl p \<and> q \<noteq> []"
  by (auto simp: ADVANCE_def)

lemma ADVANCE_Inl: "ADVANCE p = Inl j \<longleftrightarrow> tl p = [] \<and> j = Finish"
  by (auto simp: ADVANCE_def)

lemmas jumps = bindj_Inr bindj_Inl rd_Inr rd_Inl lift_run_Inr lift_run_Inl ADVANCE_Inr ADVANCE_Inl

lemma advance_while_Inr:
  "advance_while P p = Inr q \<longleftrightarrow> q = dropWhile P p \<and> q \<noteq> []"
  by (induction P p rule: advance_while.induct) auto

lemma advance_while_Inl:
  "advance_while P p = Inl j \<longleftrightarrow> dropWhile P p = [] \<and> j = (if p = [] then Undefined else Finish)"
  by (induction P p rule: advance_while.induct) auto

lemmas scans = advance_while_Inr advance_while_Inl

lemma suffix_dropWhile' [simp, intro]: "suffix (dropWhile P p) p"
  by (rule suffix_dropWhile)

lemma suffix_tl' [simp, intro]: "suffix (tl p) p"
  by (rule suffix_tl)

lemma strict_suffix_tl: "p \<noteq> [] \<Longrightarrow> strict_suffix (tl p) p"
  by (cases p) (auto simp: strict_suffix_def suffix_def)

lemma quoted_loop_Inr:
  assumes "quoted_loop qc b nl p = Inr q" "suffix p b"
  shows "suffix q b \<and> q \<noteq> [] \<and> (hd q = qc \<or> hd q = CHR ''<'' \<or> hd q = CHR ''>'')"
  using assms by (induction qc b nl p rule: quoted_loop.induct) (auto split: if_splits dest: suffix_ConsD)

lemma quoted_loop_Inl:
  assumes "quoted_loop qc b nl p = Inl j" "p \<noteq> []" "b \<noteq> []"
  shows "j = Finish"
  using assms by (induction qc b nl p rule: quoted_loop.induct) (auto split: if_splits)

definition in_region :: "string \<Rightarrow> string \<Rightarrow> string \<times> string \<Rightarrow> bool" where
  \<comment> \<open>a region that begins at or after \<open>p\<close> and ends at or before \<open>q\<close>\<close>
  "in_region p q r \<longleftrightarrow> suffix (fst r) p \<and> suffix (snd r) (fst r) \<and> suffix q (snd r)"

lemma quoted_value_ok:
  assumes "quoted_value flags p = Inr (val, raw, operation, q)"
  shows "val = (tl p, hd p # q) \<and> raw = (p, q) \<and> q \<noteq> [] \<and> suffix (hd p # q) (tl p)"
proof (cases "quoted_loop (hd p) (tl p) False (tl p)")
  case (Inl j)
  with assms show ?thesis by (simp add: quoted_value_def jumps)
next
  case (Inr v)
  from quoted_loop_Inr[OF Inr] obtain c r where v: "v = c # r" "suffix (c # r) (tl p)" by (cases v) auto
  from assms Inr v(1) have "c = hd p" "val = (tl p, v)" "raw = (p, q)" "q = r" "q \<noteq> []"
    by (auto simp: quoted_value_def jumps split: if_splits)
  with v show ?thesis by simp
qed

lemma quoted_value_Inl:
  assumes "quoted_value flags p = Inl j" "p \<noteq> []"
  shows "j = Finish \<or> (\<exists>q. j = LookForTag q \<and> q \<noteq> [] \<and> strict_suffix q p)"
proof (cases "quoted_loop (hd p) (tl p) False (tl p)")
  case (Inl j')
  with assms(1) have "j = j' \<and> tl p \<noteq> [] \<or> j = Finish" by (auto simp: quoted_value_def jumps)
  with quoted_loop_Inl[OF Inl] show ?thesis by auto
next
  case (Inr q)
  from quoted_loop_Inr[OF Inr] have "suffix q (tl p)" "q \<noteq> []" by auto
  with strict_suffix_tl[OF assms(2)] have "strict_suffix q p" by (meson suffix_order.le_less_trans)
  with assms(1) Inr \<open>q \<noteq> []\<close> show ?thesis by (auto simp: quoted_value_def jumps split: if_splits)
qed

lemma plain_value_ok:
  assumes "plain_value p = Inr (val, raw, operation, q)"
  shows "val = (p, q) \<and> raw = (p, q) \<and> q \<noteq> [] \<and> strict_suffix q p"
  using assms by (auto simp: plain_value_def jumps scans strict_suffix_def split: if_splits)

lemma plain_value_Inl: "plain_value p = Inl j \<Longrightarrow> p \<noteq> [] \<Longrightarrow> j = Finish \<or> j = BackoutTag"
  by (auto simp: plain_value_def jumps scans split: if_splits)

definition jump_ok :: "string \<Rightarrow> jump \<Rightarrow> bool" where
  \<comment> \<open>the jumps that are taken from a tag whose first byte is before \<open>p\<close>\<close>
  "jump_ok p j \<longleftrightarrow> j = Finish \<or> j = BackoutTag \<or> (\<exists>q. j = LookForTag q \<and> q \<noteq> [] \<and> suffix q p)"

lemma jump_ok_simps [simp]: "jump_ok p Finish" "jump_ok p BackoutTag" "\<not> jump_ok p Undefined"
  "jump_ok p (LookForTag q) \<longleftrightarrow> q \<noteq> [] \<and> suffix q p"
  by (auto simp: jump_ok_def)

lemma jump_ok_suffix: "jump_ok q j \<Longrightarrow> suffix q p \<Longrightarrow> jump_ok p j"
  by (auto simp: jump_ok_def intro: suffix_order.trans)

lemma attr_start_ok:
  "attr_start p = Inr q \<Longrightarrow> suffix q p \<and> q \<noteq> []"
  "attr_start p = Inl j \<Longrightarrow> p \<noteq> [] \<Longrightarrow> jump_ok p j"
  by (auto simp: attr_start_def jumps scans split: if_splits
      intro: suffix_order.trans[OF suffix_dropWhile] suffix_order.trans[OF suffix_tl])

lemma after_equals:
  "suffix (dropWhile P (tl p)) p"
  by (rule suffix_order.trans[OF suffix_dropWhile suffix_tl])

lemma attr_value_bounds_ok:
  assumes "attr_value_bounds flags b e p = Inr (val, raw, operation, q)" "suffix e b" "suffix p e"
  shows "suffix q p \<and> q \<noteq> [] \<and> in_region b q val \<and> in_region b q raw \<and> snd val \<noteq> []"
proof -
  consider (name) "val = (b, e)" "raw = (b, e)" "q = p" "p \<noteq> []"
    | (quoted) r where "suffix r p" "r \<noteq> []" "quoted_value flags r = Inr (val, raw, operation, q)"
    | (plain) r where "suffix r p" "r \<noteq> []" "plain_value r = Inr (val, raw, operation, q)"
    using assms(1) after_equals[of c_isspace p] by (fastforce simp: attr_value_bounds_def jumps scans split: if_splits)
  then show ?thesis
  proof cases
    case name
    then show ?thesis using assms(2,3) by (auto simp: in_region_def)
  next
    case quoted
    note Q = quoted_value_ok[OF quoted(3)]
    have "suffix q (tl r)" using Q by (meson suffix_ConsD)
    then have "suffix q r" by (meson suffix_order.trans suffix_tl)
    moreover have "suffix r b" using quoted(1) assms(2,3) by (meson suffix_order.trans)
    moreover have "suffix (tl r) b" using \<open>suffix r b\<close> by (meson suffix_order.trans suffix_tl)
    moreover have "suffix q p" using \<open>suffix q r\<close> quoted(1) by (meson suffix_order.trans)
    moreover have "suffix q (hd r # q)" by (simp add: suffix_Cons)
    ultimately show ?thesis using Q by (auto simp: in_region_def)
  next
    case plain
    note Q = plain_value_ok[OF plain(3)]
    have "suffix r b" using plain(1) assms(2,3) by (meson suffix_order.trans)
    moreover have "suffix q r" using Q by (simp add: strict_suffix_def)
    moreover have "suffix q p" using \<open>suffix q r\<close> plain(1) by (meson suffix_order.trans)
    ultimately show ?thesis using Q by (auto simp: in_region_def)
  qed
qed

lemma attr_value_bounds_Inl:
  assumes "attr_value_bounds flags b e p = Inl j" "p \<noteq> []"
  shows "jump_ok p j"
proof -
  consider "j = Finish \<or> j = BackoutTag"
    | (quoted) r where "suffix r p" "r \<noteq> []" "quoted_value flags r = Inl j"
    | (plain) r where "suffix r p" "r \<noteq> []" "plain_value r = Inl j"
    using assms after_equals[of c_isspace p] by (fastforce simp: attr_value_bounds_def jumps scans split: if_splits)
  then show ?thesis
  proof cases
    case quoted
    from quoted_value_Inl[OF quoted(3,2)] quoted(1) show ?thesis
      by (auto simp: jump_ok_def strict_suffix_def intro: suffix_order.trans)
  next
    case plain
    from plain_value_Inl[OF plain(3,2)] show ?thesis by auto
  qed auto
qed

lemma attr_step_Some:
  assumes "attr_step flags p = Inr (Some ra, q)"
  shows "strict_suffix q p \<and> q \<noteq> [] \<and> in_region p q (ra_name ra) \<and> in_region p q (ra_value ra) \<and> in_region p q (ra_raw ra)
    \<and> snd (ra_value ra) \<noteq> []"
proof -
  obtain b where b: "attr_start p = Inr b" using assms by (auto simp: attr_step_def jumps)
  define e where e1: "e = dropWhile NAME_CHAR_P b"
  define r where r: "r = dropWhile c_isspace e"
  have e2: "e \<noteq> b" and v: "attr_value_bounds flags b e r = Inr (ra_value ra, ra_raw ra, ra_operation ra, q)"
    and n: "ra_name ra = (b, e)"
    using assms b unfolding attr_step_def e1 r by (auto simp: jumps scans simp del: dropWhile_eq_Nil_conv split: if_splits)
  note e = e1 e2
  have eb: "suffix e b" "suffix r e" using e(1) r by auto
  from attr_value_bounds_ok[OF v eb] have V: "suffix q r" "q \<noteq> []" "in_region b q (ra_value ra)" "in_region b q (ra_raw ra)" "snd (ra_value ra) \<noteq> []"
    by auto
  have bp: "suffix b p" using attr_start_ok(1)[OF b] by simp
  have qe: "suffix q e" using V(1) eb(2) by (rule suffix_order.trans)
  have "strict_suffix e b" using eb(1) e(2) by (simp add: strict_suffix_def)
  then have "strict_suffix q p" using qe bp by (meson suffix_order.le_less_trans suffix_order.less_le_trans)
  moreover have "in_region p q x" if "in_region b q x" for x
    using that bp by (auto simp: in_region_def intro: suffix_order.trans)
  moreover have "in_region b q (ra_name ra)" using n eb(1) qe by (simp add: in_region_def)
  ultimately show ?thesis using V(2-5) by simp
qed

lemma attr_step_None: "attr_step flags p = Inr (None, q) \<Longrightarrow> suffix q p \<and> q \<noteq> [] \<and> (hd q = CHR ''<'' \<or> hd q = CHR ''>'')"
  using attr_start_ok(1)[of p] by (auto simp: attr_step_def jumps split: if_splits)

lemma attr_step_Inl:
  assumes "attr_step flags p = Inl j" "p \<noteq> []"
  shows "jump_ok p j"
proof (cases "attr_start p")
  case (Inl j')
  with assms attr_start_ok(2)[OF Inl] show ?thesis by (simp add: attr_step_def)
next
  case (Inr b)
  note B = attr_start_ok(1)[OF Inr]
  have s: "suffix (dropWhile c_isspace (dropWhile NAME_CHAR_P b)) p"
    using B by (meson suffix_order.trans suffix_dropWhile)
  consider "j = Finish \<or> j = BackoutTag"
    | r where "r = dropWhile c_isspace (dropWhile NAME_CHAR_P b)" "r \<noteq> []" "attr_value_bounds flags b (dropWhile NAME_CHAR_P b) r = Inl j"
    using assms Inr B by (auto simp: attr_step_def jumps scans split: if_splits)
  then show ?thesis
  proof cases
    case 2
    with jump_ok_suffix[OF attr_value_bounds_Inl[OF 2(3,2)]] s show ?thesis by simp
  qed auto
qed

definition make_pair :: "(string, 'v) hash_table option \<Rightarrow> bool \<Rightarrow> string \<Rightarrow> raw_attr \<Rightarrow> attr_pair option run" where
  \<comment> \<open>the rest of a round: the attribute is stored unless nobody is interested in it\<close>
  "make_pair allowed_attributes uninteresting_tag text ra =
     (if uninteresting_tag then Some None
      else do {
        ok \<leftarrow> name_allowed allowed_attributes (fst (ra_name ra)) (snd (ra_name ra));
        if \<not> ok then Some None
        else do {
          n \<leftarrow> convert_and_copy (fst (ra_name ra)) (snd (ra_name ra))
                 \<lparr>AP_DOWNCASE = True, AP_DECODE_ENTITIES = False, AP_TRIM_BLANKS = False\<rparr>;
          v \<leftarrow> convert_and_copy (fst (ra_value ra)) (snd (ra_value ra)) (ra_operation ra);
          Some (Some \<lparr>attr_name = n, attr_value = v,
            value_raw_beginning = length text - length (fst (ra_raw ra)),
            value_raw_size = length (fst (ra_raw ra)) - length (snd (ra_raw ra))\<rparr>) } })"

function attr_loop :: "mht_flags \<Rightarrow> (string, 'v) hash_table option \<Rightarrow> bool \<Rightarrow> string \<Rightarrow> string \<Rightarrow> jump + attr_pair list \<times> string" where
  \<comment> \<open>the pairs, and the \<open><\<close> or \<open>>\<close> at which the tag ends\<close>
  "attr_loop flags allowed_attributes uninteresting_tag text p =
     bindj (attr_step flags p) (\<lambda>(ra, q).
     case ra of
       None \<Rightarrow> Inr ([], q)
     | Some ra \<Rightarrow>
         bindj (lift_run (make_pair allowed_attributes uninteresting_tag text ra)) (\<lambda>a.
         bindj (attr_loop flags allowed_attributes uninteresting_tag text q) (\<lambda>(pairs, q).
         Inr (case a of None \<Rightarrow> pairs | Some a \<Rightarrow> a # pairs, q))))"
  by pat_completeness auto
termination
  by (relation "measure (\<lambda>(f, a, u, t, p). length p)")
     (auto dest!: attr_step_Some simp: strict_suffix_def suffix_length_le suffix_length_less)

declare attr_loop.simps [simp del]

definition find_contents :: "string \<Rightarrow> bool \<Rightarrow> string \<Rightarrow> string \<Rightarrow> string \<Rightarrow> tagstack_item list
    \<Rightarrow> nat option \<times> nat option \<times> tagstack_item list" where
  \<comment> \<open>for an end tag: the bounds of the element's contents, and the stack without it\<close>
  "find_contents text end_tag tag_name_begin tag_name_end tag_start_position stack =
     (if end_tag then
        (case tagstack_find stack tag_name_begin tag_name_end of
           None \<Rightarrow> (None, None, stack)
         | Some i \<Rightarrow>
             (case ts_contents_begin (stack ! i) of
                None \<Rightarrow> (None, None, tagstack_pop i stack)
              | Some b \<Rightarrow> (Some (length text - length b), Some (length text - length tag_start_position), tagstack_pop i stack)))
      else (None, None, stack))"

definition tag_body :: "mht_flags \<Rightarrow> (string, 'v) hash_table option \<Rightarrow> (string, 'w) hash_table option \<Rightarrow> string
    \<Rightarrow> bool \<times> string \<times> string \<times> string \<Rightarrow> jump + bool \<times> string \<times> attr_pair list \<times> string" where
  \<comment> \<open>from the check of end tags to the end of the attributes: whether the tag is of no interest, its
     name, the attributes and the end\<close>
  "tag_body flags allowed_tags allowed_attributes text = (\<lambda>(end_tag, tag_name_begin, tag_name_end, p).
     bindj (rd p) (\<lambda>c.
     if end_tag \<and> c \<noteq> CHR ''>'' \<and> c \<noteq> CHR ''<'' then Inl BackoutTag
     else bindj (lift_run (name_allowed allowed_tags tag_name_begin tag_name_end)) (\<lambda>ok.
       bindj (if ok then lift_run (convert_and_copy tag_name_begin tag_name_end
                \<lparr>AP_DOWNCASE = True, AP_DECODE_ENTITIES = False, AP_TRIM_BLANKS = False\<rparr>) else Inr []) (\<lambda>name.
       bindj (attr_loop flags allowed_attributes (\<not> ok) text p) (\<lambda>(pairs, p). Inr (\<not> ok, name, pairs, p))))))"

fun continue_from :: "string \<Rightarrow> jump \<Rightarrow> string option run" where
  \<comment> \<open>where the search for tags goes on; \<^term>\<open>Some None\<close> for the end\<close>
  "continue_from tag_start_position Finish = Some None"
| "continue_from tag_start_position (LookForTag p) = Some (Some p)"
| "continue_from tag_start_position BackoutTag = Some (Some (tl tag_start_position))"
| "continue_from tag_start_position Undefined = None"

definition after_tag :: "string \<Rightarrow> string option" where
  \<comment> \<open>\<open>ADVANCE (p); goto look_for_tag\<close>\<close>
  "after_tag p = (if tl p = [] then None else Some (tl p))"

definition tag_scan ::
  "mht_flags \<Rightarrow> (string, 'v) hash_table option \<Rightarrow> (string, 'w) hash_table option \<Rightarrow> string \<Rightarrow> string
    \<Rightarrow> tagstack_item list \<Rightarrow> (string option \<times> tagstack_item list \<times> taginfo option) run" where
  \<comment> \<open>from a \<open><\<close> to the next \<open>goto\<close>: where the search goes on, the stack, and what the mapper is called with\<close>
  "tag_scan flags allowed_tags allowed_attributes text tag_start_position stack =
     (case tag_head flags tag_start_position of
       Inl j \<Rightarrow> map_option (\<lambda>q. (q, stack, None)) (continue_from tag_start_position j)
     | Inr (end_tag, tag_name_begin, tag_name_end, p) \<Rightarrow>
         let stack = (if end_tag then stack
                      else tagstack_push \<lparr>ts_name_begin = tag_name_begin, ts_name_end = tag_name_end, ts_contents_begin = None\<rparr> stack) in
         (case tag_body flags allowed_tags allowed_attributes text (end_tag, tag_name_begin, tag_name_end, p) of
            Inl j \<Rightarrow> map_option (\<lambda>q. (q, stack, None)) (continue_from tag_start_position j)
          | Inr (uninteresting_tag, name, pairs, p) \<Rightarrow>
              let stack = (if \<not> end_tag \<and> stack \<noteq> [] \<and> ts_name_begin (hd stack) = tag_name_begin
                           then (hd stack)\<lparr>ts_contents_begin := Some (tl p)\<rparr> # tl stack else stack) in
              if uninteresting_tag then Some (after_tag p, stack, None)
              else
                let (cb, ce, stack) = find_contents text end_tag tag_name_begin tag_name_end tag_start_position stack in
                Some (if hd p \<noteq> CHR ''<'' then after_tag p else Some p, stack,
                  Some \<lparr>tag_name = name, end_tag_p = end_tag, attrs = pairs,
                    start_position = length text - length tag_start_position, end_position = length text - length p + 1,
                    contents_begin = cb, contents_end = ce\<rparr>)))"

end
