(* ===== verification/Wget_Html_Parse.thy ===== *)
theory Wget_Html_Parse
  imports Wget_Html_Scan
begin

section \<open>The HTML scanner (wget/src/html-parse.c)\<close>

text \<open>
  \<open>map_html_tags\<close>, put together from its parts. No page makes it read outside its buffer, fail an
  assertion or run forever; the offsets it reports lie in the buffer, in order; its comment search
  is the search for the first end of a comment.
\<close>

subsection \<open>Entities\<close>

lemma num_loop_ok:
  "num_loop b f d p e v = (v', d', r) \<Longrightarrow> suffix r p \<and> (length e \<le> length p \<longrightarrow> length e \<le> length r)"
  by (induction b f d p e v rule: num_loop.induct) (auto split: if_splits intro: suffix_ConsI)

lemma num_loop_at_end: "length p \<le> length e \<Longrightarrow> num_loop b f d p e v = (v, d, p)"
  by (cases p) auto

lemma skip_semi_ok: "length e + n \<le> length p \<Longrightarrow> suffix (SKIP_SEMI p n e) p \<and> length e \<le> length (SKIP_SEMI p n e)"
  by (auto simp: SKIP_SEMI_def Let_def intro: suffix_drop suffix_order.trans[OF suffix_tl suffix_drop])

lemma ENT_length: "ENT p name e \<Longrightarrow> length e + length name \<le> length p"
  by (auto simp: ENT_def FITS_def)

lemma named_entity:
  assumes "ENT p name e" "suffix p r" "n = length name"
  shows "suffix (SKIP_SEMI p n e) r \<and> length e \<le> length (SKIP_SEMI p n e)"
  using skip_semi_ok[OF ENT_length[OF assms(1)]] assms(2,3) by (auto intro: suffix_order.trans)

lemma numeric_entity:
  assumes "num_loop b f 0 q e 0 = (value, digits, r)" "digits \<noteq> 0" "suffix q p"
  shows "suffix (SKIP_SEMI r 0 e) p \<and> length e \<le> length (SKIP_SEMI r 0 e)"
proof -
  have "length e \<le> length q" using assms(1,2) num_loop_at_end[of q e b f 0 0] by (cases "length e \<le> length q") auto
  then have "length e + 0 \<le> length r" "suffix r q" using num_loop_ok[OF assms(1)] by auto
  with skip_semi_ok[of e 0 r] assms(3) show ?thesis by (meson suffix_order.trans)
qed

lemma decode_entity_ok:
  assumes "length p > length e" "e \<noteq> []"
  shows "\<exists>r q. decode_entity p e = Some (r, q) \<and> (r \<noteq> None \<longrightarrow> suffix q p \<and> length e \<le> length q)"
proof (cases "length (tl p) = length e")
  case False
  then have l: "length (tl p) > length e" using assms(1) by simp
  then obtain c s where cs: "tl p = c # s" by (cases "tl p") auto
  with l have sl: "length s \<ge> length e" by simp
  then obtain x t where s: "s = x # t" using assms(2) by (cases s) auto
  have sp: "suffix s p" using cs by (metis suffix_ConsD suffix_order.trans suffix_order.refl suffix_tl)
  have tp: "suffix t p" using sp s by (meson suffix_ConsD)
  note N = numeric_entity[of 16 c_isxdigit t e _ _ _ p, OF _ _ tp] numeric_entity[of 10 c_isdigit s e _ _ _ p, OF _ _ sp]
  note E = named_entity[of s "''t''" e p 1] named_entity[of s "''mp''" e p 2] named_entity[of s "''pos''" e p 3] named_entity[of s "''uot''" e p 3]
  show ?thesis
  proof (cases "c = CHR ''#''")
    case True
    obtain v d r where r: "(if x = CHR ''x'' then num_loop 16 c_isxdigit 0 t e 0 else num_loop 10 c_isdigit 0 s e 0) = (v, d, r)"
      by (metis prod_cases3)
    then have "d \<noteq> 0 \<Longrightarrow> suffix (SKIP_SEMI r 0 e) p \<and> length e \<le> length (SKIP_SEMI r 0 e)"
      using N by (auto split: if_splits)
    then show ?thesis using True cs s False r by (cases "x = CHR ''x''") (simp_all add: decode_entity_def del: num_loop.simps)
  next
    case f: False
    with E sp show ?thesis using cs False by (auto simp: decode_entity_def)
  qed
qed (simp add: decode_entity_def)

lemma copy_loop_end [simp]: "length p \<le> length e \<Longrightarrow> copy_loop sq p e = Some []"
  by (simp add: copy_loop.simps)

lemma copy_loop_Cons:
  "length e \<le> length s \<Longrightarrow> copy_loop sq (c # s) e =
     (if c = CHR ''&'' then do {
        (entity, q) \<leftarrow> decode_entity (c # s) e;
        (case entity of Some x \<Rightarrow> map_option ((#) x) (copy_loop sq q e) | None \<Rightarrow> map_option ((#) CHR ''&'') (copy_loop sq s e)) }
      else if (c = LF \<or> c = CR) \<and> sq then copy_loop sq s e
      else map_option ((#) c) (copy_loop sq s e))"
  by (subst copy_loop.simps, unfold list.sel) simp

lemma copy_loop_ok:
  assumes "suffix e p" "e \<noteq> []"
  shows "\<exists>t. copy_loop sq p e = Some t \<and> length t \<le> length p - length e"
  using assms(1)
proof (induction "length p" arbitrary: p rule: less_induct)
  case less
  show ?case
  proof (cases "length p > length e")
    case True
    then obtain c s where p: "p = c # s" by (cases p) auto
    have "suffix e s" using less(2) p True by (auto simp: suffix_Cons)
    with less(1) p obtain t where t: "copy_loop sq s e = Some t" "length t \<le> length s - length e" by auto
    show ?thesis
    proof (cases "c = CHR ''&''")
      case amp: True
      obtain r q where q: "decode_entity p e = Some (r, q)" "r \<noteq> None \<longrightarrow> suffix q p \<and> length e \<le> length q"
        using decode_entity_ok[OF True assms(2)] by blast
      show ?thesis
      proof (cases r)
        case None
        then show ?thesis using True amp p q(1) t by (simp add: copy_loop_Cons)
      next
        case (Some x)
        with q(2) have "suffix e q" using less(2) by (metis option.discI suffix_length_suffix)
        moreover have l: "length q < length p" using decode_entity_shorter q(1) Some by blast
        ultimately obtain t' where "copy_loop sq q e = Some t'" "length t' \<le> length q - length e" using less(1) by blast
        then show ?thesis using True amp p q Some l by (simp add: copy_loop_Cons) linarith
      qed
    next
      case False
      with True p t show ?thesis by (cases "(c = LF \<or> c = CR) \<and> sq") (auto simp: copy_loop_Cons)
    qed
  qed simp
qed

lemma trim_blanks_ok:
  assumes "suffix e b" "trim_blanks b e = (b', e')"
  shows "suffix e' b' \<and> suffix b' b \<and> suffix e e'"
proof -
  define r where "r = dropWhile c_isspace (take (length b - length e) b)"
  from assms(2) have b': "b' = r @ e" and e': "e' = drop (length (rtrim_space r)) (r @ e)"
    by (auto simp: trim_blanks_def r_def Let_def simp del: drop_append)
  from assms(1) have "b = take (length b - length e) b @ e" by (auto simp: suffix_def)
  moreover have "suffix r (take (length b - length e) b)" by (simp add: r_def)
  ultimately have "suffix b' b" unfolding b' by (metis suffix_def append_assoc)
  moreover have "length (rtrim_space r) \<le> length r" using length_dropWhile_le[of c_isspace "rev r"] by (simp add: rtrim_space_def)
  then have "suffix e e'" by (simp add: e' suffix_def)
  moreover have "suffix e' b'" unfolding b' e' by (rule suffix_drop)
  ultimately show ?thesis by blast
qed

lemma convert_and_copy_returns:
  assumes "suffix e b" "e \<noteq> []"
  obtains s where "convert_and_copy b e fl = Some s"
proof -
  obtain b' e' where be: "(if AP_TRIM_BLANKS fl then trim_blanks b e else (b, e)) = (b', e')" by (metis prod.exhaust)
  then have s: "suffix e' b'" "e' \<noteq> []" using assms trim_blanks_ok[OF assms(1), of b' e'] by (auto split: if_splits simp: suffix_def)
  from copy_loop_ok[OF this, of "AP_TRIM_BLANKS fl"] obtain t where
    "copy_loop (AP_TRIM_BLANKS fl) b' e' = Some t" "length t \<le> length b' - length e'" by blast
  then have "\<exists>s. convert_and_copy b e fl = Some s" by (simp add: convert_and_copy_def be Let_def)
  then show thesis using that by blast
qed

subsection \<open>Declarations\<close>

definition ac_ok :: "ac_state \<Rightarrow> char \<Rightarrow> char \<Rightarrow> bool" where
  \<comment> \<open>the assertions of the state machine\<close>
  "ac_ok s qc ch \<longleftrightarrow>
     (s = AC_S_QUOTE1 \<longrightarrow> ch = CHR 0x27 \<or> ch = CHR 0x22) \<and> (s = AC_S_QUOTE2 \<longrightarrow> ch = qc) \<and>
     (s = AC_S_DASH1 \<or> s = AC_S_DASH3 \<longrightarrow> ch = CHR ''-'')"

lemma ac_switch_ok:
  assumes "ac_ok s qc ch"
  shows "\<exists>s' qc' ch' p'. ac_switch s qc ch p = Some (s', qc', ch', p') \<and> ac_ok s' qc' ch' \<and> suffix p' p"
  using assms by (cases s) (auto simp: ac_ok_def)

lemma declaration_loop_ok:
  "ac_ok s qc ch \<Longrightarrow> \<exists>r. declaration_loop s qc ch p = Some r \<and> (\<forall>q. r = Some q \<longrightarrow> suffix q p)"
proof (induction s qc ch p rule: declaration_loop.induct)
  case (1 s qc ch p)
  show ?case
  proof (cases "s = AC_S_DONE \<or> s = AC_S_BACKOUT \<or> p = []")
    case False
    obtain s' qc' ch' p' where s': "ac_switch s qc ch p = Some (s', qc', ch', p')" "ac_ok s' qc' ch'" "suffix p' p"
      using ac_switch_ok[OF 1(2)] by blast
    with 1(1) False obtain r where "declaration_loop s' qc' ch' p' = Some r" "\<forall>q. r = Some q \<longrightarrow> suffix q p'" by blast
    with s' False show ?thesis by (auto simp: declaration_loop.simps[of s qc ch p] intro: suffix_order.trans)
  qed (auto simp: declaration_loop.simps[of s qc ch p])
qed

lemma advance_declaration_ok:
  assumes "p \<noteq> []"
  obtains q where "advance_declaration p = Some q" "suffix q (tl p)"
proof -
  obtain c s where p: "p = c # s" using assms by (cases p) auto
  have "ac_ok AC_S_BANG NUL c" by (simp add: ac_ok_def)
  from declaration_loop_ok[OF this, of s] obtain r where "declaration_loop AC_S_BANG NUL c s = Some r" "\<forall>q. r = Some q \<longrightarrow> suffix q s" by blast
  with p show thesis by (cases r) (auto simp: advance_declaration_def intro: that)
qed

subsection \<open>Comments\<close>

definition comment_end_at :: "string \<Rightarrow> nat \<Rightarrow> bool" where
  \<comment> \<open>a comment ends with the byte at the offset\<close>
  "comment_end_at s i \<longleftrightarrow> 2 \<le> i \<and> i < length s \<and> s ! i = CHR ''>'' \<and> s ! (i - 1) = CHR ''-'' \<and> s ! (i - 2) = CHR ''-''"

fun bm_inv :: "string \<Rightarrow> bm_label \<Rightarrow> nat \<Rightarrow> bool" where
  "bm_inv s Loop p \<longleftrightarrow> 2 \<le> p"
| "bm_inv s At_dash p \<longleftrightarrow> 2 \<le> p \<and> p < length s \<and> s ! p = CHR ''-''"
| "bm_inv s At_dash_dash p \<longleftrightarrow> 2 \<le> p \<and> p < length s \<and> s ! p = CHR ''-'' \<and> s ! (p - 1) = CHR ''-''"

definition first_end :: "string \<Rightarrow> nat option \<Rightarrow> bool" where
  "first_end s r \<longleftrightarrow>
     (case r of None \<Rightarrow> \<forall>i. \<not> comment_end_at s i
      | Some n \<Rightarrow> 0 < n \<and> comment_end_at s (n - 1) \<and> (\<forall>i<n - 1. \<not> comment_end_at s i))"

lemma no_end_skip:
  assumes "\<forall>i<p. \<not> comment_end_at s i" "p < length s" "s ! p \<noteq> CHR ''-''" "\<not> comment_end_at s p"
  shows "\<forall>i<p + 3. \<not> comment_end_at s i"
proof (intro allI impI)
  fix i assume "i < p + 3"
  then consider "i < p" | "i = p" | "i = p + 1" | "i = p + 2" by linarith
  then show "\<not> comment_end_at s i" using assms by cases (auto simp: comment_end_at_def)
qed

lemma no_end_Suc: "\<forall>i<p. \<not> comment_end_at s i \<Longrightarrow> \<not> comment_end_at s p \<Longrightarrow> \<forall>i<p + 1. \<not> comment_end_at s i"
  by (auto simp: less_Suc_eq)

lemma no_end_short: "\<forall>i<p. \<not> comment_end_at s i \<Longrightarrow> length s \<le> p \<Longrightarrow> first_end s None"
  by (auto simp: first_end_def comment_end_at_def)

lemma comment_search_first:
  "bm_inv s l p \<Longrightarrow> \<forall>i<p. \<not> comment_end_at s i \<Longrightarrow> first_end s (comment_search s l p)"
proof (induction s l p rule: comment_search.induct)
  case (1 s p)
  consider (stop) "length s \<le> p" | (found) "p < length s" "comment_end_at s p"
    | (dash) "p < length s" "s ! p = CHR ''-''" | (skip) "p < length s" "\<not> comment_end_at s p" "s ! p \<noteq> CHR ''-''" by fastforce
  then show ?case
  proof cases
    case stop
    then show ?thesis using no_end_short[OF 1(5)] by (simp add: comment_search.simps)
  next
    case found
    then show ?thesis using 1(5) by (simp add: comment_search.simps first_end_def comment_end_at_def)
  next
    case dash
    then show ?thesis using 1(2,4,5) by (simp add: comment_search.simps)
  next
    case skip
    then show ?thesis using 1(1,3,4) no_end_skip[OF 1(5) skip(1,3,2)]
      by (auto simp: comment_search.simps comment_end_at_def numeral_3_eq_3)
  qed
next
  case (2 s p)
  have np: "\<not> comment_end_at s p" using 2(5) by (simp add: comment_end_at_def)
  show ?case
  proof (cases "s ! (p - 1) = CHR ''-''")
    case True
    then show ?thesis using 2(1,5,6) by (simp add: comment_search.simps)
  next
    case False
    then have n1: "\<not> comment_end_at s (p + 1)" using 2(5) by (auto simp: comment_end_at_def)
    then have upto: "\<forall>i<p + 2. \<not> comment_end_at s i" using no_end_Suc[OF no_end_Suc[OF 2(6) np] n1] by simp
    consider (stop) "length s \<le> p + 2" | (found) "p + 2 < length s" "comment_end_at s (p + 2)"
      | (dash) "p + 2 < length s" "s ! (p + 2) = CHR ''-''"
      | (skip) "p + 2 < length s" "\<not> comment_end_at s (p + 2)" "s ! (p + 2) \<noteq> CHR ''-''" by fastforce
    then show ?thesis
    proof cases
      case stop
      then show ?thesis using False no_end_short[OF upto] by (simp add: comment_search.simps)
    next
      case found
      then show ?thesis using False upto by (auto simp: comment_search.simps first_end_def comment_end_at_def numeral_3_eq_3)
    next
      case dash
      then show ?thesis using False 2(3,5) upto by (simp add: comment_search.simps)
    next
      case skip
      then have "\<forall>i<p + 5. \<not> comment_end_at s i" using no_end_skip[OF upto skip(1,3,2)] by (simp add: numeral_eq_Suc)
      then show ?thesis using skip False 2(2,4,5) by (auto simp: comment_search.simps comment_end_at_def)
    qed
  qed
next
  case (3 s p)
  have np: "\<not> comment_end_at s p" using 3(3) by (simp add: comment_end_at_def)
  note upto = no_end_Suc[OF 3(4) np]
  consider (stop) "length s \<le> p + 1" | (found) "p + 1 < length s" "s ! (p + 1) = CHR ''>''"
    | (dash) "p + 1 < length s" "s ! (p + 1) = CHR ''-''"
    | (skip) "p + 1 < length s" "s ! (p + 1) \<noteq> CHR ''>''" "s ! (p + 1) \<noteq> CHR ''-''" by fastforce
  then show ?case
  proof cases
    case stop
    then show ?thesis using no_end_short[OF upto] by (simp add: comment_search.simps)
  next
    case found
    then show ?thesis using upto 3(3) by (auto simp: comment_search.simps first_end_def comment_end_at_def)
  next
    case dash
    then show ?thesis using 3(1,3) upto by (simp add: comment_search.simps)
  next
    case skip
    then have "\<forall>i<p + 4. \<not> comment_end_at s i" using no_end_skip[OF upto skip(1,3)] by (simp add: numeral_eq_Suc comment_end_at_def)
    then show ?thesis using skip 3(2,3) by (simp add: comment_search.simps)
  qed
qed

lemma comment_end_split:
  assumes "comment_end_at s i"
  shows "s = take (i - 2) s @ ''-->'' @ drop (i + 1) s"
proof -
  obtain k where k: "i = k + 2" using assms le_Suc_ex[of 2 i] by (auto simp: comment_end_at_def add.commute)
  have l: "k < length s" "Suc k < length s" "Suc (Suc k) < length s" using assms k by (auto simp: comment_end_at_def)
  have c: "s ! k = CHR ''-''" "s ! Suc k = CHR ''-''" "s ! Suc (Suc k) = CHR ''>''" using assms k by (auto simp: comment_end_at_def)
  have "drop k s = ''-->'' @ drop (Suc (Suc (Suc k))) s"
    using Cons_nth_drop_Suc[OF l(1)] Cons_nth_drop_Suc[OF l(2)] Cons_nth_drop_Suc[OF l(3)] c by simp
  then have "take k s @ drop k s = take k s @ ''-->'' @ drop (i + 1) s" using k by simp
  then show ?thesis using k by simp
qed

lemma comment_end_append: "comment_end_at (c @ ''-->'' @ r) (length c + 2)"
  by (simp add: comment_end_at_def nth_append)

lemma no_comment_end: "(\<forall>i<n. \<not> comment_end_at s i) \<Longrightarrow> n \<le> length s \<Longrightarrow> \<not> sublist ''-->'' (take n s)"
proof
  assume n: "\<forall>i<n. \<not> comment_end_at s i" "n \<le> length s" and "sublist ''-->'' (take n s)"
  then obtain a b where ab: "take n s = a @ ''-->'' @ b" by (auto simp: sublist_def)
  then have "s = a @ ''-->'' @ b @ drop n s" by (metis append_assoc append_take_drop_id)
  then have "comment_end_at s (length a + 2)" by (metis comment_end_append)
  moreover have "length a + 2 < n" using arg_cong[OF ab, of length] n(2) by simp
  ultimately show False using n(1) by blast
qed

lemma find_comment_end_first:
  "case find_comment_end s of
     None \<Rightarrow> \<not> sublist ''-->'' s
   | Some q \<Rightarrow> \<exists>c. s = c @ ''-->'' @ q \<and> \<not> sublist ''-->'' (c @ ''--'')"
proof -
  have "\<forall>i<2. \<not> comment_end_at s i" by (auto simp: comment_end_at_def)
  from comment_search_first[OF _ this, of Loop] have f: "first_end s (comment_search s Loop 2)" by simp
  show ?thesis
  proof (cases "comment_search s Loop 2")
    case None
    with f no_comment_end[of "length s" s] show ?thesis by (simp add: find_comment_end_def first_end_def)
  next
    case (Some n)
    with f have n: "0 < n" "comment_end_at s (n - 1)" "\<forall>i<n - 1. \<not> comment_end_at s i" by (simp_all add: first_end_def)
    then have n3: "3 \<le> n" "n - 1 < length s" by (auto simp: comment_end_at_def)
    have e: "n - 1 - 2 = n - 3" "n - 1 + 1 = n" using n(1) by auto
    have s: "s = take (n - 3) s @ ''-->'' @ drop n s" using comment_end_split[OF n(2)] unfolding e .
    have "take (n - 3) s @ drop (n - 3) s = take (n - 3) s @ ''-->'' @ drop n s" using s by simp
    then have d: "drop (n - 3) s = ''-->'' @ drop n s" by (simp only: same_append_eq)
    have "n - 1 = (n - 3) + 2" using n3 by simp
    then have "take (n - 1) s = take (n - 3) s @ take 2 (drop (n - 3) s)" by (simp only: take_add)
    then have "take (n - 1) s = take (n - 3) s @ ''--''" by (simp add: d)
    with no_comment_end[OF n(3)] n3(2) s show ?thesis using Some by (auto simp: find_comment_end_def)
  qed
qed

text \<open>
  C35. The search for the end of a comment, which looks at every third character as long as it can,
  finds the first \<open>-->\<close>, and nothing exactly when there is none.
\<close>
theorem find_comment_end_correct:
  "find_comment_end s = Some q \<longleftrightarrow> (\<exists>c. s = c @ ''-->'' @ q \<and> \<not> sublist ''-->'' (c @ ''--''))"
proof
  assume "find_comment_end s = Some q"
  then show "\<exists>c. s = c @ ''-->'' @ q \<and> \<not> sublist ''-->'' (c @ ''--'')" using find_comment_end_first[of s] by simp
next
  assume "\<exists>c. s = c @ ''-->'' @ q \<and> \<not> sublist ''-->'' (c @ ''--'')"
  then obtain c where c: "s = c @ ''-->'' @ q" "\<not> sublist ''-->'' (c @ ''--'')" by blast
  have "sublist ''-->'' s" using c(1) by (auto simp: sublist_def)
  with find_comment_end_first[of s] obtain q' c' where q': "find_comment_end s = Some q'" "s = c' @ ''-->'' @ q'" "\<not> sublist ''-->'' (c' @ ''--'')"
    by (cases "find_comment_end s") auto
  have False if "length a < length b" "a @ ''-->'' @ x = b @ ''-->'' @ y" "\<not> sublist ''-->'' (b @ ''--'')" for a b x y
  proof -
    have "length a + 3 \<le> length (b @ ''--'')" using that(1) by simp
    moreover have "a @ ''-->'' @ x = (b @ ''--'') @ (''>'' @ y)" using that(2) by simp
    then have "prefix (b @ ''--'') (a @ ''-->'' @ x)" by (metis prefixI)
    moreover have "prefix (a @ ''-->'') (a @ ''-->'' @ x)" by simp
    ultimately have "prefix (a @ ''-->'') (b @ ''--'')" using prefix_length_prefix[of "a @ ''-->''" "a @ ''-->'' @ x" "b @ ''--''"] by simp
    then have "sublist ''-->'' (b @ ''--'')" by (auto simp: prefix_def sublist_def)
    with that(3) show False by blast
  qed
  from this[of c c' q q'] this[of c' c q' q] c q'(2,3) have "\<not> length c < length c'" "\<not> length c' < length c" by auto
  then have "length c = length c'" by simp
  with c(1) q'(2) have "q = q'" by simp
  with q'(1) show "find_comment_end s = Some q" by simp
qed

subsection \<open>One tag\<close>

lemma suffix_comment_end: "find_comment_end s = Some q \<Longrightarrow> suffix q s"
  using find_comment_end_first[of s] by (auto simp: suffix_def)

lemma tag_declaration_ok:
  assumes "p \<noteq> []"
  shows "\<exists>j. tag_declaration flags p = Inl j \<and> jump_ok p j"
proof -
  have "\<exists>q. (if \<not> MHT_STRICT_COMMENTS flags \<and> length p > 3 \<and> p ! 1 = CHR ''-'' \<and> p ! 2 = CHR ''-''
      then Inr (case find_comment_end (drop 3 p) of None \<Rightarrow> p | Some q \<Rightarrow> q)
      else lift_run (advance_declaration p)) = Inr q \<and> suffix q p"
  proof (cases "\<not> MHT_STRICT_COMMENTS flags \<and> length p > 3 \<and> p ! 1 = CHR ''-'' \<and> p ! 2 = CHR ''-''")
    case True
    then show ?thesis using suffix_comment_end[of "drop 3 p"] suffix_order.trans[OF _ suffix_drop]
      by (auto split: option.splits)
  next
    case False
    obtain q where "advance_declaration p = Some q" "suffix q (tl p)" using assms by (rule advance_declaration_ok)
    with False show ?thesis using suffix_order.trans[OF _ suffix_tl] by auto
  qed
  then show ?thesis unfolding tag_declaration_def by auto
qed

lemma tag_head_Inr:
  assumes "tag_head flags start = Inr (end_tag, b, e, p)"
  shows "suffix b (tl start) \<and> strict_suffix e b \<and> suffix p e \<and> p \<noteq> [] \<and> region b e \<noteq> [] \<and> set (region b e) \<subseteq> Collect NAME_CHAR_P"
proof -
  have nd: "tag_declaration flags (tl start) \<noteq> Inr q" if "tl start \<noteq> []" for q using tag_declaration_ok[OF that, of flags] by auto
  from assms nd have b: "b = tl start \<or> b = tl (tl start)" and e: "e = dropWhile NAME_CHAR_P b" "e \<noteq> b"
    and p: "p = dropWhile c_isspace e" "p \<noteq> []"
    by (auto simp: tag_head_def jumps scans simp del: dropWhile_eq_Nil_conv split: if_splits)
  have r: "region b e = takeWhile NAME_CHAR_P b" unfolding e(1) region_def by (metis append_eq_conv_conj diff_add_inverse2 length_append takeWhile_dropWhile_id)
  have "takeWhile NAME_CHAR_P b \<noteq> []" using e by (metis append_Nil takeWhile_dropWhile_id)
  moreover have "suffix b (tl start)" using b by auto
  moreover have "suffix e b" "suffix p e" using e(1) p(1) by auto
  ultimately show ?thesis using e(2) p(2) r by (auto simp: strict_suffix_def dest: set_takeWhileD)
qed

lemma tag_head_Inl:
  assumes "tag_head flags start = Inl j"
  shows "jump_ok (tl start) j"
proof (cases "tl start = []")
  case False
  then obtain j' where d: "tag_declaration flags (tl start) = Inl j'" "jump_ok (tl start) j'" using tag_declaration_ok by blast
  have s: "suffix (dropWhile NAME_CHAR_P (tl start)) (tl start)" "suffix (dropWhile NAME_CHAR_P (tl (tl start))) (tl start)"
    "suffix (tl (tl start)) (tl start)"
    using suffix_order.trans[OF suffix_dropWhile suffix_tl] by auto
  show ?thesis using assms d False s
    by (auto simp: tag_head_def jumps scans split: if_splits)
qed (use assms in \<open>auto simp: tag_head_def jumps\<close>)

subsection \<open>Attributes\<close>

definition table_ok :: "(string, 'v) hash_table option \<Rightarrow> bool" where
  \<comment> \<open>no table, or a table whose keys ignore the case\<close>
  "table_ok t \<longleftrightarrow> (\<forall>ht. t = Some ht \<longrightarrow> ht_inv hash_string_nocase string_cmp_nocase ht)"

lemma name_allowed_returns: "table_ok t \<Longrightarrow> \<exists>r. name_allowed t b e = Some r"
  by (cases t) (auto simp: name_allowed_def table_ok_def nocase_keys.get_ok)

fun spans_ok :: "nat \<Rightarrow> attr_pair list \<Rightarrow> nat \<Rightarrow> bool" where
  \<comment> \<open>the raw values stand one after the other, not empty, between two offsets\<close>
  "spans_ok lo [] hi \<longleftrightarrow> lo \<le> hi"
| "spans_ok lo (a # as) hi \<longleftrightarrow>
     lo \<le> value_raw_beginning a \<and> 0 < value_raw_size a \<and> spans_ok (value_raw_beginning a + value_raw_size a) as hi"

lemma spans_ok_append: "spans_ok lo (as @ bs) hi \<longleftrightarrow> (\<exists>m. spans_ok lo as m \<and> spans_ok m bs hi)"
proof (induction as arbitrary: lo)
  case Nil
  have "spans_ok m bs hi \<Longrightarrow> lo \<le> m \<Longrightarrow> spans_ok lo bs hi" for m by (cases bs) auto
  then show ?case by auto
qed auto

lemma spans_ok_mono: "spans_ok lo as hi \<Longrightarrow> lo' \<le> lo \<Longrightarrow> hi \<le> hi' \<Longrightarrow> spans_ok lo' as hi'"
  by (induction as arbitrary: lo lo') auto

lemma make_pair_ok:
  assumes "in_region p q (ra_name ra)" "in_region p q (ra_value ra)" "in_region p q (ra_raw ra)" "q \<noteq> []" "suffix p text"
    and "fst (ra_raw ra) \<noteq> snd (ra_raw ra)" and "table_ok allowed"
  shows "\<exists>a. make_pair allowed u text ra = Some a \<and>
    (\<forall>x. a = Some x \<longrightarrow> spans_ok (length text - length p) [x] (length text - length q))"
proof -
  have ne: "snd (ra_name ra) \<noteq> []" "snd (ra_value ra) \<noteq> []" using assms(1,2,4) by (auto simp: in_region_def)
  obtain n v where n: "convert_and_copy (fst (ra_name ra)) (snd (ra_name ra)) \<lparr>AP_DOWNCASE = True, AP_DECODE_ENTITIES = False, AP_TRIM_BLANKS = False\<rparr> = Some n"
    and v: "convert_and_copy (fst (ra_value ra)) (snd (ra_value ra)) (ra_operation ra) = Some v"
    using assms(1,2) ne convert_and_copy_returns unfolding in_region_def by metis
  obtain r where r: "name_allowed allowed (fst (ra_name ra)) (snd (ra_name ra)) = Some r" using name_allowed_returns[OF assms(7)] by blast
  have l: "length (snd (ra_raw ra)) < length (fst (ra_raw ra))" "length (fst (ra_raw ra)) \<le> length p" "length p \<le> length text"
    "length q \<le> length (snd (ra_raw ra))"
    using assms(3,5,6) suffix_length_less[of "snd (ra_raw ra)" "fst (ra_raw ra)"]
    by (auto simp: in_region_def suffix_length_le strict_suffix_def)
  then show ?thesis using n v r by (auto simp: make_pair_def)
qed

lemma attr_step_raw: "attr_step flags p = Inr (Some ra, q) \<Longrightarrow> fst (ra_raw ra) \<noteq> snd (ra_raw ra)"
proof -
  assume a: "attr_step flags p = Inr (Some ra, q)"
  have Q: "fst raw \<noteq> snd raw" if "quoted_value flags r = Inr (val, raw, fl, q)" "r \<noteq> []" for r val raw fl q
  proof -
    note Q = quoted_value_ok[OF that(1)]
    then have "suffix q (tl r)" by (meson suffix_ConsD)
    then have "length q < length r" using that(2) suffix_length_le[of q "tl r"] by (cases r) auto
    with Q show ?thesis by auto
  qed
  have P: "fst raw \<noteq> snd raw" if "plain_value r = Inr (val, raw, fl, q)" for r val raw fl q
    using plain_value_ok[OF that] by (auto simp: strict_suffix_def)
  from a show ?thesis
    by (auto simp: attr_step_def attr_value_bounds_def jumps scans simp del: dropWhile_eq_Nil_conv split: if_splits dest: Q P)
qed

lemma attr_loop_ok:
  assumes "p \<noteq> []" "suffix p text" "table_ok allowed"
  shows "case attr_loop flags allowed u text p of
      Inl j \<Rightarrow> jump_ok p j
    | Inr (pairs, q) \<Rightarrow> suffix q p \<and> q \<noteq> [] \<and> (hd q = CHR ''<'' \<or> hd q = CHR ''>'') \<and>
        spans_ok (length text - length p) pairs (length text - length q)"
  using assms(1,2)
proof (induction "length p" arbitrary: p rule: less_induct)
  case less
  show ?case
  proof (cases "attr_step flags p")
    case (Inl j)
    with attr_step_Inl[OF Inl less(2)] show ?thesis by (simp add: attr_loop.simps[of flags allowed u "text" p])
  next
    case (Inr r)
    obtain ra q where r: "r = (ra, q)" by (cases r) auto
    show ?thesis
    proof (cases ra)
      case None
      with Inr r have "attr_step flags p = Inr (None, q)" by simp
      with attr_step_None[OF this] show ?thesis using less(3)
        by (auto simp: attr_loop.simps[of flags allowed u "text" p] suffix_length_le diff_le_mono2)
    next
      case (Some x)
      with Inr r have st: "attr_step flags p = Inr (Some x, q)" by simp
      note A = attr_step_Some[OF st]
      from A make_pair_ok[of p q x "text" allowed u] attr_step_raw[OF st] assms(3) less(3) obtain a where
        a: "make_pair allowed u text x = Some a" "\<forall>y. a = Some y \<longrightarrow> spans_ok (length text - length p) [y] (length text - length q)" by blast
      have qp: "suffix q p" "length q < length p" using A by (auto simp: strict_suffix_def suffix_length_less)
      have IH: "case attr_loop flags allowed u text q of
          Inl j \<Rightarrow> jump_ok q j
        | Inr (pairs, q') \<Rightarrow> suffix q' q \<and> q' \<noteq> [] \<and> (hd q' = CHR ''<'' \<or> hd q' = CHR ''>'') \<and>
            spans_ok (length text - length q) pairs (length text - length q')"
        using less(1)[OF qp(2)] A less(3) qp(1) by (meson suffix_order.trans)
      have cons: "spans_ok (length text - length p) (case a of None \<Rightarrow> pairs | Some y \<Rightarrow> y # pairs) hi"
        if "spans_ok (length text - length q) pairs hi" for pairs hi
      proof (cases a)
        case None
        with that qp(2) show ?thesis by (auto intro: spans_ok_mono)
      next
        case (Some y)
        with a(2) have "spans_ok (length text - length p) [y] (length text - length q)" by simp
        with that Some show ?thesis using spans_ok_append[of _ "[y]" pairs hi] by auto
      qed
      show ?thesis
      proof (cases "attr_loop flags allowed u text q")
        case Inl2: (Inl j)
        with IH qp(1) show ?thesis using st a(1) by (auto simp: attr_loop.simps[of flags allowed u "text" p] intro: jump_ok_suffix)
      next
        case Inr2: (Inr y)
        with IH qp(1) cons show ?thesis using st a(1)
          by (auto simp: attr_loop.simps[of flags allowed u "text" p] intro: suffix_order.trans)
      qed
    qed
  qed
qed

subsection \<open>The whole page\<close>

partial_function (option) look_for_tag ::
  "mht_flags \<Rightarrow> (string, 'v) hash_table option \<Rightarrow> (string, 'w) hash_table option \<Rightarrow> (taginfo \<Rightarrow> 'a \<Rightarrow> 'a run) \<Rightarrow> string
    \<Rightarrow> string \<Rightarrow> tagstack_item list \<Rightarrow> 'a \<Rightarrow> 'a run" where
  "look_for_tag flags allowed_tags allowed_attributes mapfun text p stack maparg =
     (case strchr p CHR ''<'' of
        None \<Rightarrow> Some maparg
      | Some tag_start_position \<Rightarrow> do {
          (q, stack, tag) \<leftarrow> tag_scan flags allowed_tags allowed_attributes text tag_start_position stack;
          maparg \<leftarrow> (case tag of None \<Rightarrow> Some maparg | Some taginfo \<Rightarrow> mapfun taginfo maparg);
          (case q of
             None \<Rightarrow> Some maparg
           | Some p \<Rightarrow> look_for_tag flags allowed_tags allowed_attributes mapfun text p stack maparg) })"

declare look_for_tag.simps [code]

definition map_html_tags ::
  "string \<Rightarrow> (taginfo \<Rightarrow> 'a \<Rightarrow> 'a run) \<Rightarrow> 'a \<Rightarrow> mht_flags \<Rightarrow> (string, 'v) hash_table option \<Rightarrow> (string, 'w) hash_table option \<Rightarrow> 'a run" where
  "map_html_tags text mapfun maparg flags allowed_tags allowed_attributes =
     (if text = [] then Some maparg
      else look_for_tag flags allowed_tags allowed_attributes mapfun text text [] maparg)"

definition html_tags :: "string \<Rightarrow> mht_flags \<Rightarrow> (string, 'v) hash_table option \<Rightarrow> (string, 'w) hash_table option \<Rightarrow> taginfo list run" where
  \<comment> \<open>the tags for which the mapper is called\<close>
  "html_tags text flags allowed_tags allowed_attributes =
     map_html_tags text (\<lambda>tag tags. Some (tags @ [tag])) [] flags allowed_tags allowed_attributes"

fun fold_run :: "('x \<Rightarrow> 'a \<Rightarrow> 'a run) \<Rightarrow> 'x list \<Rightarrow> 'a \<Rightarrow> 'a run" where
  "fold_run f [] a = Some a"
| "fold_run f (x # xs) a = do { a \<leftarrow> f x a; fold_run f xs a }"

lemma fold_run_Nil [simp]: "fold_run f [] = Some"
  by (rule ext) simp

definition tag_ok :: "string \<Rightarrow> taginfo \<Rightarrow> bool" where
  "tag_ok text tag \<longleftrightarrow>
     start_position tag < end_position tag \<and> end_position tag \<le> length text \<and> text ! start_position tag = CHR ''<'' \<and>
     spans_ok (start_position tag + 1) (attrs tag) (end_position tag - 1) \<and>
     (\<forall>b. contents_begin tag = Some b \<longrightarrow> end_tag_p tag \<and> contents_end tag = Some (start_position tag))"

fun tags_ok :: "string \<Rightarrow> nat \<Rightarrow> taginfo list \<Rightarrow> bool" where
  \<comment> \<open>tags one after the other; a \<open><\<close> may end a tag and begin the next one\<close>
  "tags_ok text lo [] \<longleftrightarrow> True"
| "tags_ok text lo (tag # tags) \<longleftrightarrow> lo \<le> start_position tag \<and> tag_ok text tag \<and> tags_ok text (end_position tag - 1) tags"

lemma tags_ok_mono: "tags_ok text lo tags \<Longrightarrow> lo' \<le> lo \<Longrightarrow> tags_ok text lo' tags"
  by (cases tags) auto

lemma tag_body_ok:
  assumes "p \<noteq> []" "suffix p text" "suffix p e" "suffix e b" "table_ok tt" "table_ok ta"
  shows "case tag_body flags tt ta text (end_tag, b, e, p) of
      Inl j \<Rightarrow> jump_ok p j
    | Inr (u, name, pairs, q) \<Rightarrow> suffix q p \<and> q \<noteq> [] \<and> (hd q = CHR ''<'' \<or> hd q = CHR ''>'') \<and>
        spans_ok (length text - length p) pairs (length text - length q)"
proof -
  have "e \<noteq> []" using assms(1,3) by auto
  obtain ok where ok: "name_allowed tt b e = Some ok" using name_allowed_returns[OF assms(5)] by blast
  obtain name where name: "convert_and_copy b e \<lparr>AP_DOWNCASE = True, AP_DECODE_ENTITIES = False, AP_TRIM_BLANKS = False\<rparr> = Some name"
    using assms(4) \<open>e \<noteq> []\<close> by (rule convert_and_copy_returns)
  from attr_loop_ok[OF assms(1,2,6), of flags "\<not> ok"] assms(1) ok name show ?thesis
    by (cases p) (auto simp: tag_body_def split: sum.splits)
qed

lemma find_contents_ok:
  "find_contents text end_tag b e start stack = (cb, ce, stack') \<Longrightarrow>
     \<forall>x. cb = Some x \<longrightarrow> end_tag \<and> ce = Some (length text - length start)"
  by (auto simp: find_contents_def split: if_splits option.splits)

lemma continue_from_ok:
  assumes "jump_ok (tl start) j" "start \<noteq> []" "tl start \<noteq> []"
  shows "\<exists>q. continue_from start j = Some q \<and> (\<forall>x. q = Some x \<longrightarrow> strict_suffix x start)"
  using assms strict_suffix_tl[OF assms(2)] by (cases j) (auto intro: suffix_order.le_less_trans)

lemma after_tag_ok: "p \<noteq> [] \<Longrightarrow> after_tag p = Some q \<Longrightarrow> q = tl p"
  by (auto simp: after_tag_def split: if_splits)

lemma tag_scan_ok:
  assumes "suffix start text" "start \<noteq> []" "hd start = CHR ''<''" "table_ok tt" "table_ok ta"
  shows "\<exists>q stack' tag. tag_scan flags tt ta text start stack = Some (q, stack', tag) \<and>
    (\<forall>x. q = Some x \<longrightarrow> strict_suffix x start) \<and>
    (\<forall>t. tag = Some t \<longrightarrow> tag_ok text t \<and> start_position t = length text - length start \<and>
       (\<forall>x. q = Some x \<longrightarrow> end_position t - 1 \<le> length text - length x))"
proof (cases "tag_head flags start")
  case (Inl j)
  note J = tag_head_Inl[OF Inl]
  have "\<exists>q. continue_from start j = Some q \<and> (\<forall>x. q = Some x \<longrightarrow> strict_suffix x start)"
  proof (cases "tl start = []")
    case True
    with Inl have "j = Finish" by (auto simp: tag_head_def jumps)
    then show ?thesis by simp
  qed (use continue_from_ok[OF J assms(2)] in blast)
  with Inl show ?thesis by (auto simp: tag_scan_def)
next
  case (Inr r)
  obtain end_tag b e p where r: "r = (end_tag, b, e, p)" by (cases r) auto
  note H = tag_head_Inr[OF Inr[unfolded r]]
  have be: "suffix e b" "suffix p b" "suffix b start" using H by (auto simp: strict_suffix_def intro: suffix_order.trans[OF _ suffix_tl] suffix_order.trans)
  have pt: "suffix p text" "suffix p start" "suffix p (tl start)" using be H assms(1) by (meson suffix_order.trans)+
  have tl: "tl start \<noteq> []" using pt(3) H by auto
  have ps: "length p < length start" using pt(3) assms(2) suffix_length_le[OF pt(3)] by (cases start) auto
  define stack1 where "stack1 = (if end_tag then stack
    else tagstack_push \<lparr>ts_name_begin = b, ts_name_end = e, ts_contents_begin = None\<rparr> stack)"
  have body: "case tag_body flags tt ta text (end_tag, b, e, p) of
      Inl j \<Rightarrow> jump_ok p j
    | Inr (u, name, pairs, q) \<Rightarrow> suffix q p \<and> q \<noteq> [] \<and> (hd q = CHR ''<'' \<or> hd q = CHR ''>'') \<and>
        spans_ok (length text - length p) pairs (length text - length q)"
    using tag_body_ok[OF _ pt(1) _ be(1) assms(4,5)] H by blast
  show ?thesis
  proof (cases "tag_body flags tt ta text (end_tag, b, e, p)")
    case body_Inl: (Inl j)
    with body have "jump_ok (tl start) j" using pt(3) jump_ok_suffix by auto
    from continue_from_ok[OF this assms(2) tl] show ?thesis using Inr r body_Inl by (auto simp: tag_scan_def)
  next
    case body_Inr: (Inr y)
    obtain u name pairs q where y: "y = (u, name, pairs, q)" by (cases y) auto
    with body body_Inr have q: "suffix q p" "q \<noteq> []" "spans_ok (length text - length p) pairs (length text - length q)" by auto
    have qs: "strict_suffix q start" "strict_suffix (tl q) start" "length q < length start" "length start \<le> length text"
      using q(1) pt(2) ps suffix_length_le[OF q(1)] suffix_length_le[OF assms(1)] suffix_order.trans[OF suffix_tl q(1)]
      by (auto simp: strict_suffix_def intro: suffix_order.trans)
    have st: "text ! (length text - length start) = CHR ''<''"
      using assms(1,2,3) by (auto simp: suffix_def nth_append hd_conv_nth)
    define stack2 where "stack2 = (if \<not> end_tag \<and> stack1 \<noteq> [] \<and> ts_name_begin (hd stack1) = b
      then (hd stack1)\<lparr>ts_contents_begin := Some (tl q)\<rparr> # tl stack1 else stack1)"
    obtain cb ce stack3 where f: "find_contents text end_tag b e start stack2 = (cb, ce, stack3)" by (metis prod_cases3)
    have sp: "spans_ok (Suc (length text - length start)) pairs (length text - length q)"
      using q(3) ps qs(4) by (auto elim: spans_ok_mono)
    have eq: "tag_scan flags tt ta text start stack =
        (if u then Some (after_tag q, stack2, None)
         else Some (if hd q \<noteq> CHR ''<'' then after_tag q else Some q, stack3,
           Some \<lparr>tag_name = name, end_tag_p = end_tag, attrs = pairs,
             start_position = length text - length start, end_position = length text - length q + 1,
             contents_begin = cb, contents_end = ce\<rparr>))"
      by (simp only: tag_scan_def Inr r sum.case prod.case Let_def stack1_def[symmetric] body_Inr y stack2_def[symmetric] f)
    have "length q > 0" using q(2) by simp
    then have "length text - length q < length text" using qs(3,4) by linarith
    then show ?thesis unfolding eq using find_contents_ok[OF f] qs st sp after_tag_ok[OF q(2)]
      by (auto simp: tag_ok_def Suc_le_eq intro: diff_le_mono2)
  qed
qed

lemma strchr_suffix: "strchr p c = Some q \<Longrightarrow> suffix q p \<and> q \<noteq> [] \<and> hd q = c"
  by (induction p) (auto split: if_splits intro: suffix_ConsI)

lemma look_for_tag_ok:
  assumes "suffix p text" "table_ok tt" "table_ok ta"
  shows "\<exists>tags. tags_ok text (length text - length p) tags \<and>
    look_for_tag flags tt ta (\<lambda>tag tags. Some (tags @ [tag])) text p stack acc = Some (acc @ tags) \<and>
    look_for_tag flags tt ta mapfun text p stack arg = fold_run mapfun tags arg"
  using assms(1)
proof (induction "length p" arbitrary: p stack acc arg rule: less_induct)
  case less
  show ?case
  proof (cases "strchr p CHR ''<''")
    case None
    then show ?thesis by (intro exI[of _ "[]"]) (simp add: look_for_tag.simps[of _ _ _ _ _ p])
  next
    case (Some start)
    from strchr_suffix[OF this] have s: "suffix start p" "start \<noteq> []" "hd start = CHR ''<''" by auto
    then have stx: "suffix start text" using less(2) by (meson suffix_order.trans)
    from tag_scan_ok[OF stx s(2,3) assms(2,3), of flags stack] obtain q stack' tag where
      q: "tag_scan flags tt ta text start stack = Some (q, stack', tag)" "\<forall>x. q = Some x \<longrightarrow> strict_suffix x start"
      and tag: "\<forall>t. tag = Some t \<longrightarrow> tag_ok text t \<and> start_position t = length text - length start \<and>
        (\<forall>x. q = Some x \<longrightarrow> end_position t - 1 \<le> length text - length x)" by blast
    have lo: "length text - length p \<le> length text - length start" using suffix_length_le[OF s(1)] by simp
    define acc' where "acc' = (case tag of None \<Rightarrow> acc | Some t \<Rightarrow> acc @ [t])"
    have log: "(case tag of None \<Rightarrow> Some acc | Some t \<Rightarrow> Some (acc @ [t])) = Some acc'" by (auto simp: acc'_def split: option.splits)
    show ?thesis
    proof (cases q)
      case None
      then show ?thesis using q(1) Some log tag lo
        by (intro exI[of _ "case tag of None \<Rightarrow> [] | Some t \<Rightarrow> [t]"])
           (auto simp: look_for_tag.simps[of _ _ _ _ _ p] acc'_def split: option.splits)
    next
      case q': (Some x)
      have x: "strict_suffix x start" "length x < length p" "suffix x text"
        using q(2) q' s(1) stx suffix_length_less[of x start] suffix_length_le[OF s(1)]
        by (auto simp: strict_suffix_def intro: suffix_order.trans)
      note IH = less(1)[OF x(2,3), of stack' acc']
      show ?thesis
      proof (cases tag)
        case None
        have "length text - length p \<le> length text - length x" using x(2) by simp
        with IH[of arg] obtain tags where "tags_ok text (length text - length p) tags"
          "look_for_tag flags tt ta (\<lambda>tag tags. Some (tags @ [tag])) text x stack' acc' = Some (acc' @ tags)"
          "look_for_tag flags tt ta mapfun text x stack' arg = fold_run mapfun tags arg" by (meson tags_ok_mono)
        then show ?thesis using Some q(1) q' None by (intro exI[of _ tags]) (simp add: look_for_tag.simps[of _ _ _ _ _ p] acc'_def)
      next
        case t: (Some t)
        have step: "look_for_tag flags tt ta (\<lambda>tag tags. Some (tags @ [tag])) text p stack acc =
            look_for_tag flags tt ta (\<lambda>tag tags. Some (tags @ [tag])) text x stack' (acc @ [t])"
          "look_for_tag flags tt ta mapfun text p stack arg = do { a \<leftarrow> mapfun t arg; look_for_tag flags tt ta mapfun text x stack' a }"
          using Some q(1) q' t by (simp_all add: look_for_tag.simps[of _ _ _ _ _ p])
        have "end_position t - 1 \<le> length text - length x" using tag t q' by blast
        show ?thesis
        proof (cases "mapfun t arg")
          case None
          with IH[of arg] obtain tags where tags: "tags_ok text (length text - length x) tags"
            "look_for_tag flags tt ta (\<lambda>tag tags. Some (tags @ [tag])) text x stack' (acc @ [t]) = Some (acc @ t # tags)"
            by (auto simp: acc'_def t)
          with None step \<open>end_position t - 1 \<le> length text - length x\<close> tag t lo show ?thesis
            by (intro exI[of _ "t # tags"]) (auto intro: tags_ok_mono)
        next
          case a: (Some a)
          with IH[of a] obtain tags where tags: "tags_ok text (length text - length x) tags"
            "look_for_tag flags tt ta (\<lambda>tag tags. Some (tags @ [tag])) text x stack' (acc @ [t]) = Some (acc @ t # tags)"
            "look_for_tag flags tt ta mapfun text x stack' a = fold_run mapfun tags a"
            by (auto simp: acc'_def t)
          with a step \<open>end_position t - 1 \<le> length text - length x\<close> tag t lo show ?thesis
            by (intro exI[of _ "t # tags"]) (auto intro: tags_ok_mono)
        qed
      qed
    qed
  qed
qed

lemma map_html_tags_fold:
  assumes "table_ok tt" "table_ok ta"
  shows "\<exists>tags. html_tags text flags tt ta = Some tags \<and> tags_ok text 0 tags \<and>
    map_html_tags text mapfun arg flags tt ta = fold_run mapfun tags arg"
  using look_for_tag_ok[OF suffix_order.refl assms, of "text" flags "[]" "[]" mapfun arg]
  by (auto simp: html_tags_def map_html_tags_def)

text \<open>
  C14. The scanner is safe on every page: whatever bytes a server sends, with strict or loose comments
  and with or without tables of interesting names, it returns, never reads outside the buffer of
  the page (which has no terminator) and fails no assertion. It calls the mapper for tags that
  stand one after the other: each begins with a \<open><\<close> in the buffer and ends in it, the raw values
  of its attributes stand in order inside it and are not empty, and contents are reported for end
  tags only, up to where they start.
\<close>
theorem map_html_tags_safe:
  assumes "table_ok tt" and "table_ok ta"
  shows "\<exists>tags. html_tags text flags tt ta = Some tags \<and> tags_ok text 0 tags"
  using map_html_tags_fold[OF assms, of "text" flags "\<lambda>t a. Some a" "()"] by blast

theorem map_html_tags_safe_witness:
  "\<exists>tags. html_tags ''<a href=\"x\"<!-- > --><b c=&#'' \<lparr>MHT_STRICT_COMMENTS = False, MHT_TRIM_VALUES = True\<rparr>
     (None :: (string, unit) hash_table option) (None :: (string, unit) hash_table option) = Some tags
   \<and> tags_ok ''<a href=\"x\"<!-- > --><b c=&#'' 0 tags \<and> length tags = 1"
proof -
  have n: "table_ok (None :: (string, unit) hash_table option)" by (simp add: table_ok_def)
  have "map_option length (html_tags ''<a href=\"x\"<!-- > --><b c=&#'' \<lparr>MHT_STRICT_COMMENTS = False, MHT_TRIM_VALUES = True\<rparr>
     (None :: (string, unit) hash_table option) (None :: (string, unit) hash_table option)) = Some 1" by code_simp
  with map_html_tags_safe[OF n n, of "''<a href=\"x\"<!-- > --><b c=&#''"] show ?thesis by fastforce
qed

end
