(* ===== verification/Wget_Convert.thy ===== *)
theory Wget_Convert
  imports Wget_Html_Parse Wget_Recur
begin

section \<open>Rewriting the links of saved pages (wget/src/convert.c)\<close>

text \<open>
  After a retrieval with \<open>--convert-links\<close> the links of the saved pages are rewritten: links to
  files that were downloaded become relative file names, the others complete URLs. Modelled are the
  quoting of names, the relative names, the replacement of the text of a link, the loop over the
  links of a file with the backup of the original, and the decision for each link.

  A file's contents are a string and positions in it are offsets; a read or a write outside the
  contents does not return. The files are a map from names to contents; whether renaming, deleting
  and opening a file succeed is a parameter, and so are the links that the scanners find. A file that
  cannot be read is one that is not there, and standard input (the name \<open>-\<close>) is not read.
\<close>

subsection \<open>Quoting\<close>

fun html_quote_char :: "char \<Rightarrow> string" where
  "html_quote_char c =
     (if c = CHR ''&'' then ''&amp;''
      else if c = CHR ''<'' then ''&lt;''
      else if c = CHR ''>'' then ''&gt;''
      else if c = CHR 0x22 then ''&quot;''
      else if c = CHR '' '' then ''&#32;''
      else [c])"

fun html_quote_size :: "string \<Rightarrow> nat" where
  \<comment> \<open>the first pass: the size of the buffer without the final NUL\<close>
  "html_quote_size [] = 0"
| "html_quote_size (c # s) =
     (if c = CHR ''&'' then 5
      else if c = CHR ''<'' \<or> c = CHR ''>'' then 4
      else if c = CHR 0x22 then 6
      else if c = CHR '' '' then 5
      else 1) + html_quote_size s"

definition html_quote_string :: "string \<Rightarrow> string" where
  "html_quote_string s = concat (map html_quote_char s)"

fun local_quote_char :: "bool \<Rightarrow> char \<Rightarrow> string" where
  "local_quote_char adjust_extension c =
     (if c = CHR ''%'' then ''%25''
      else if c = CHR ''#'' then ''%23''
      else if c = CHR '';'' then ''%3B''
      else if c = CHR '' '' then ''%20''
      else if c = CHR ''?'' \<and> adjust_extension then ''%3F''
      else [c])"

definition local_quote_string :: "bool \<Rightarrow> string \<Rightarrow> bool \<Rightarrow> string" where
  "local_quote_string adjust_extension path no_html_quote =
     (if \<not> list_ex (\<lambda>c. c \<in> set ''?#%; '') path
      then if no_html_quote then path else html_quote_string path
      else
        let newname = concat (map (local_quote_char adjust_extension) path)
        in if no_html_quote then newname else html_quote_string newname)"

subsection \<open>Relative names\<close>

fun common_dirs :: "string \<Rightarrow> string \<Rightarrow> nat \<Rightarrow> nat \<Rightarrow> nat" where
  \<comment> \<open>the offset after the last slash of the common part; \<open>i\<close> is \<open>b - basefile\<close>\<close>
  "common_dirs (b # bs) (l # ls) i start =
     (if b = l then common_dirs bs ls (i + 1) (if b = CHR ''/'' then i + 1 else start) else start)"
| "common_dirs bs ls i start = start"

definition construct_relative :: "string \<Rightarrow> string \<Rightarrow> string" where
  "construct_relative basefile linkfile =
     (let start = common_dirs basefile linkfile 0 0;
          basefile = drop start basefile;
          linkfile = drop start linkfile;
          basedirs = length (filter (\<lambda>c. c = CHR ''/'') basefile)
      in if basedirs = 0 \<and> deref (dropWhile (\<lambda>c. c \<noteq> CHR ''/'' \<and> c \<noteq> CHR '':'') linkfile) 0 = CHR '':''
         then ''./'' @ linkfile
         else concat (replicate basedirs ''../'') @ linkfile)"

definition basename_of :: "string \<Rightarrow> string option" where
  \<comment> \<open>\<open>strrchr (s, '/') + 1\<close>\<close>
  "basename_of s = map_option (\<lambda>k. drop (k + 1) s) (strrchr_pos s CHR ''/'')"

definition convert_basename :: "url_scheme list \<Rightarrow> string \<Rightarrow> nat \<Rightarrow> int \<Rightarrow> string option \<Rightarrow> string run" where
  "convert_basename disabled content p sz lname = do {
     c \<leftarrow> (if p < length content then Some (content ! p) else None);
     let (len, p) = (if c = CHR 0x22 \<or> c = CHR 0x27 then (sz - 2, p + 1) else (sz, p));
     (if 0 \<le> len \<and> int p + len \<le> int (length content) then Some () else None);
     let url = takeWhile (\<lambda>c. c \<noteq> NUL) (take (nat len) (drop p content));
     let org_basename = (case basename_of url of None \<Rightarrow> url | Some b \<Rightarrow> b);
     let local_basename = (case lname of None \<Rightarrow> None | Some n \<Rightarrow> basename_of n);
     let local_basename = (case local_basename of None \<Rightarrow> url | Some b \<Rightarrow> b);
     Some (if org_basename = local_basename then url else uri_merge disabled url local_basename) }"

subsection \<open>Replacing the text of a link\<close>

fun fragment_loop :: "bool \<Rightarrow> string \<Rightarrow> string option" where
  "fragment_loop saw_amp [] = None"
| "fragment_loop saw_amp (c # s) =
     (if c = CHR ''&'' then fragment_loop True s
      else if c = CHR ''#'' \<and> \<not> saw_amp then Some (c # s)
      else fragment_loop False s)"

definition find_fragment :: "string \<Rightarrow> string option" where
  \<comment> \<open>the region from \<open>*bp\<close> to \<open>*ep\<close>\<close>
  "find_fragment reg = fragment_loop False reg"

definition region_at :: "string \<Rightarrow> nat \<Rightarrow> int \<Rightarrow> string run" where
  \<comment> \<open>the bytes that are read from a region: none if its size is negative\<close>
  "region_at content p sz =
     (if sz \<le> 0 then Some []
      else if int p + sz \<le> int (length content) then Some (take (nat sz) (drop p content))
      else None)"

definition replace_plain :: "nat \<Rightarrow> int \<Rightarrow> string \<Rightarrow> int \<times> string" where
  \<comment> \<open>the new position and what is written\<close>
  "replace_plain p sz new_text = (int p + sz, new_text)"

definition replace_attr :: "string \<Rightarrow> nat \<Rightarrow> int \<Rightarrow> string \<Rightarrow> (int \<times> string) run" where
  "replace_attr content p sz new_text = do {
     c \<leftarrow> (if p < length content then Some (content ! p) else None);
     let quote_flag = (c = CHR 0x22 \<or> c = CHR 0x27);
     let quote_char = (if quote_flag then c else CHR 0x22);
     let p = (if quote_flag then p + 1 else p);
     let sz = (if quote_flag then sz - 2 else sz);
     reg \<leftarrow> region_at content p sz;
     let frag = (case find_fragment reg of None \<Rightarrow> [] | Some f \<Rightarrow> f);
     Some (int p + sz + (if quote_flag then 1 else 0), [quote_char] @ new_text @ frag @ [quote_char]) }"

definition replace_attr_refresh_hack :: "string \<Rightarrow> nat \<Rightarrow> int \<Rightarrow> string \<Rightarrow> int \<Rightarrow> (int \<times> string) run" where
  "replace_attr_refresh_hack content p sz new_text timeout =
     replace_attr content p sz (print_int timeout @ ''; URL='' @ new_text)"

definition replace_link :: "string \<Rightarrow> nat \<Rightarrow> urlpos \<Rightarrow> string \<Rightarrow> string \<Rightarrow> (int \<times> string) run" where
  \<comment> \<open>which of the three is used: with \<open>plain\<close> where quotes are not in the way\<close>
  "replace_link content p link plain quoted =
     (if link_css_p link \<or> link_noquote_html_p link then Some (replace_plain p (up_size link) plain)
      else if \<not> link_refresh_p link then replace_attr content p (up_size link) quoted
      else replace_attr_refresh_hack content p (up_size link) quoted (refresh_timeout link))"

record convert_opts =
  cv_adjust_extension :: bool
  cv_backup_converted :: bool
  cv_convert_file_only :: bool
  cv_disabled :: "url_scheme list"

definition convert_one :: "convert_opts \<Rightarrow> string \<Rightarrow> string \<Rightarrow> nat \<Rightarrow> urlpos \<Rightarrow> (int \<times> string) run" where
  \<comment> \<open>\<open>switch (link->convert)\<close>\<close>
  "convert_one opt path content p link =
     (case convert link of
        CO_CONVERT_TO_RELATIVE \<Rightarrow>
          (case local_name link of
             None \<Rightarrow> Some (int p, [])
           | Some name \<Rightarrow>
               let quoted_newname = local_quote_string (cv_adjust_extension opt) (construct_relative path name) (link_css_p link)
               in replace_link content p link quoted_newname quoted_newname)
      | CO_CONVERT_BASENAME_ONLY \<Rightarrow> do {
          newname \<leftarrow> convert_basename (cv_disabled opt) content p (up_size link) (local_name link);
          let quoted_newname = local_quote_string (cv_adjust_extension opt) newname (link_css_p link);
          replace_link content p link quoted_newname quoted_newname }
      | CO_CONVERT_TO_COMPLETE \<Rightarrow>
          (let newlink = u_url (up_url link) in replace_link content p link newlink (html_quote_string newlink))
      | CO_NULLIFY_BASE \<Rightarrow> replace_attr content p (up_size link) []
      | CO_NOCONVERT \<Rightarrow> None)"

fun rewrite_loop :: "convert_opts \<Rightarrow> string \<Rightarrow> string \<Rightarrow> urlpos list \<Rightarrow> int \<Rightarrow> string \<Rightarrow> (int \<times> string) run" where
  \<comment> \<open>the position \<open>p\<close> and what has been written\<close>
  "rewrite_loop opt path content [] p out = Some (p, out)"
| "rewrite_loop opt path content (link # links) p out =
     (if up_pos link \<ge> int (length content) then Some (p, out)
      else if convert link = CO_NOCONVERT then rewrite_loop opt path content links p out
      else if up_pos link < p \<or> p < 0 then None \<comment> \<open>\<open>fwrite\<close> with a negative size\<close>
      else do {
        (q, t) \<leftarrow> convert_one opt path content (nat (up_pos link)) link;
        rewrite_loop opt path content links q (out @ take (nat (up_pos link - p)) (drop (nat p) content) @ t) })"

definition rewrite_links :: "convert_opts \<Rightarrow> string \<Rightarrow> string \<Rightarrow> urlpos list \<Rightarrow> string run" where
  \<comment> \<open>the new contents\<close>
  "rewrite_links opt path content links = do {
     (p, out) \<leftarrow> rewrite_loop opt path content links 0 [];
     if p < int (length content) then (if p < 0 then None else Some (out @ drop (nat p) content)) else Some out }"

subsection \<open>Converting the files\<close>

record file_ops =
  rename_ok :: "string \<Rightarrow> string \<Rightarrow> bool"
  unlink_ok :: "string \<Rightarrow> bool"
  fopen_ok :: "string \<Rightarrow> bool"

record convert_state =
  cs_files :: "string \<rightharpoonup> string"
  cs_converted :: "string string_table"
  cs_dl :: dl_state

definition ORIG_SFX :: string where "ORIG_SFX = ''.orig''"

definition backup_name :: "string \<Rightarrow> downloaded_file_t \<Rightarrow> string run" where
  "backup_name path downloaded_file_return =
     (if downloaded_file_return = FILE_DOWNLOADED_AND_HTML_EXTENSION_ADDED
      then if length path < 4 then None else Some (take (length path - 4) path @ ''orig'')
      else Some (path @ ORIG_SFX))"

definition write_backup_file :: "file_ops \<Rightarrow> string \<Rightarrow> downloaded_file_t \<Rightarrow> convert_state \<Rightarrow> convert_state run" where
  "write_backup_file ops path downloaded_file_return st = do {
     converted_files \<leftarrow> ensure (cs_converted st);
     done \<leftarrow> string_set_contains converted_files path;
     if done then Some (st\<lparr>cs_converted := Some converted_files\<rparr>)
     else do {
       orig \<leftarrow> backup_name path downloaded_file_return;
       let files = (if rename_ok ops path orig then (cs_files st)(path := None, orig := cs_files st path) else cs_files st);
       converted_files \<leftarrow> string_set_add converted_files path;
       Some (st\<lparr>cs_files := files, cs_converted := Some converted_files\<rparr>) } }"

definition convert_links :: "file_ops \<Rightarrow> convert_opts \<Rightarrow> string \<Rightarrow> urlpos list \<Rightarrow> convert_state \<Rightarrow> convert_state run" where
  "convert_links ops opt path links st =
     (if \<not> list_ex (\<lambda>l. convert l \<noteq> CO_NOCONVERT) links then Some st
      else case cs_files st path of
        None \<Rightarrow> Some st
      | Some content \<Rightarrow> do {
          (ret, dl) \<leftarrow> downloaded_file (cs_dl st) CHECK_FOR_FILE path;
          let st = st\<lparr>cs_dl := dl\<rparr>;
          st \<leftarrow> (if cv_backup_converted opt \<and> ret \<noteq> FILE_NOT_ALREADY_DOWNLOADED then write_backup_file ops path ret st else Some st);
          if \<not> unlink_ok ops path \<and> cs_files st path \<noteq> None then Some st
          else if \<not> fopen_ok ops path then Some (st\<lparr>cs_files := (cs_files st)(path := None)\<rparr>)
          else do {
            out \<leftarrow> rewrite_links opt path content links;
            Some (st\<lparr>cs_files := (cs_files st)(path := Some out)\<rparr>) } })"

definition conversion :: "convert_opts \<Rightarrow> dl_state \<Rightarrow> urlpos \<Rightarrow> urlpos run" where
  \<comment> \<open>what is to be done with a link\<close>
  "conversion opt dl cur_url =
     (if link_base_p cur_url then Some (cur_url\<lparr>convert := CO_NULLIFY_BASE\<rparr>)
      else do {
        u \<leftarrow> url_parse (cv_disabled opt) (u_url (up_url cur_url)) True;
        (case u of
           Inl e \<Rightarrow> Some cur_url
         | Inr u \<Rightarrow> do {
             ht \<leftarrow> dl_url_file_map dl;
             name \<leftarrow> hash_table_get ht (u_url u);
             Some (case name of
                     Some n \<Rightarrow> cur_url\<lparr>convert := (if cv_convert_file_only opt then CO_CONVERT_BASENAME_ONLY else CO_CONVERT_TO_RELATIVE),
                       local_name := Some n\<rparr>
                   | None \<Rightarrow> cur_url\<lparr>convert := (if link_complete_p cur_url then convert cur_url else CO_CONVERT_TO_COMPLETE),
                       local_name := None\<rparr>) }) })"

fun map_run :: "('a \<Rightarrow> 'b run) \<Rightarrow> 'a list \<Rightarrow> 'b list run" where
  "map_run f [] = Some []"
| "map_run f (x # xs) = do { y \<leftarrow> f x; ys \<leftarrow> map_run f xs; Some (y # ys) }"

definition convert_file :: "file_ops \<Rightarrow> convert_opts \<Rightarrow> (string option \<Rightarrow> string \<Rightarrow> urlpos list) \<Rightarrow> string \<Rightarrow> convert_state \<Rightarrow> convert_state run" where
  \<comment> \<open>the body of the loop over the files\<close>
  "convert_file ops opt get_urls path st = do {
     ht \<leftarrow> dl_file_url_map (cs_dl st);
     url \<leftarrow> hash_table_get ht path;
     (case url of
        None \<Rightarrow> Some st
      | Some url \<Rightarrow> do {
          urls \<leftarrow> map_run (conversion opt (cs_dl st)) (get_urls (cs_files st path) url);
          convert_links ops opt path urls st }) }"

definition convert_links_in_hashtable ::
  "file_ops \<Rightarrow> convert_opts \<Rightarrow> (string option \<Rightarrow> string \<Rightarrow> urlpos list) \<Rightarrow> string string_table \<Rightarrow> convert_state \<Rightarrow> convert_state run" where
  "convert_links_in_hashtable ops opt get_urls downloaded_set st =
     (case downloaded_set of
        None \<Rightarrow> Some st
      | Some ht \<Rightarrow> fold_run (convert_file ops opt get_urls) (string_set_to_array ht) st)"

definition convert_all_links ::
  "file_ops \<Rightarrow> convert_opts \<Rightarrow> (string option \<Rightarrow> string \<Rightarrow> urlpos list) \<Rightarrow> (string option \<Rightarrow> string \<Rightarrow> urlpos list) \<Rightarrow> convert_state \<Rightarrow> convert_state run" where
  "convert_all_links ops opt html_urls css_urls st = do {
     st \<leftarrow> convert_links_in_hashtable ops opt html_urls (downloaded_html_set (cs_dl st)) st;
     convert_links_in_hashtable ops opt css_urls (downloaded_css_set (cs_dl st)) st }"

end
