(* ===== verification/Wget_Convert_Props.thy ===== *)
theory Wget_Convert_Props
  imports Wget_Convert
begin

section \<open>Rewritten links lead where they should\<close>

text \<open>
  A name that was written into an attribute is read back by the HTML scanner and decodes to the
  name; a relative name leads from the page to the file; rewriting changes nothing but the texts of
  the links. Each of these has a limit in the code, shown by an example.
\<close>

subsection \<open>Quoting and reading back\<close>

lemma length_html_quote: "length (html_quote_string s) = html_quote_size s"
  by (induction s) (auto simp: html_quote_string_def)

lemma html_quote_Nil [simp]: "html_quote_string [] = []"
  by (simp add: html_quote_string_def)

lemma html_quote_Cons [simp]: "html_quote_string (c # s) = html_quote_char c @ html_quote_string s"
  by (simp add: html_quote_string_def)

declare html_quote_char.simps [simp del]

lemma html_quote_char_plain: "c \<in> set (html_quote_char x) \<Longrightarrow> c \<noteq> CHR ''<'' \<and> c \<noteq> CHR ''>'' \<and> c \<noteq> CHR 0x22"
  by (auto simp: html_quote_char.simps split: if_splits)

lemma html_quote_char_space: "c \<in> set (html_quote_char x) \<Longrightarrow> c_isspace c \<Longrightarrow> c = x \<and> c \<noteq> CHR '' ''"
  by (auto simp: html_quote_char.simps c_isspace_def split: if_splits)

lemma html_quote_char_apos: "CHR 0x27 \<in> set (html_quote_char x) \<Longrightarrow> x = CHR 0x27"
  by (auto simp: html_quote_char.simps split: if_splits)

lemma html_quote_plain: "CHR ''<'' \<notin> set (html_quote_string s)" "CHR ''>'' \<notin> set (html_quote_string s)" "CHR 0x22 \<notin> set (html_quote_string s)"
  by (auto simp: html_quote_string_def dest: html_quote_char_plain)

lemma html_quote_space: "c \<in> set (html_quote_string s) \<Longrightarrow> c_isspace c \<Longrightarrow> c \<in> set s \<and> c \<noteq> CHR '' ''"
  by (auto simp: html_quote_string_def dest: html_quote_char_space)

lemma html_quote_apos: "CHR 0x27 \<in> set (html_quote_string s) \<Longrightarrow> CHR 0x27 \<in> set s"
  by (auto simp: html_quote_string_def dest: html_quote_char_apos)

lemma char_of_consts: "char_of (32 :: nat) = CHR '' ''" "char_of (35 :: nat) = CHR ''#''" "char_of (37 :: nat) = CHR ''%''"
  "char_of (59 :: nat) = CHR '';''" "char_of (63 :: nat) = CHR ''?''"
  by code_simp+

lemma decode_quoted:
  "decode_entity (CHR ''&'' # CHR ''a'' # CHR ''m'' # CHR ''p'' # CHR '';'' # r @ e) e = Some (Some CHR ''&'', r @ e)"
  "decode_entity (CHR ''&'' # CHR ''l'' # CHR ''t'' # CHR '';'' # r @ e) e = Some (Some CHR ''<'', r @ e)"
  "decode_entity (CHR ''&'' # CHR ''g'' # CHR ''t'' # CHR '';'' # r @ e) e = Some (Some CHR ''>'', r @ e)"
  "decode_entity (CHR ''&'' # CHR ''q'' # CHR ''u'' # CHR ''o'' # CHR ''t'' # CHR '';'' # r @ e) e = Some (Some CHR 0x22, r @ e)"
  "decode_entity (CHR ''&'' # CHR ''#'' # CHR ''3'' # CHR ''2'' # CHR '';'' # r @ e) e = Some (Some CHR '' '', r @ e)"
  by (simp_all add: decode_entity_def ENT_def FITS_def SKIP_SEMI_def c_isalnum_def c_isdigit_def c_islower_def c_isupper_def unhex_def
      numeral_2_eq_2 numeral_3_eq_3 char_of_consts)

lemma copy_quoted:
  assumes "sq \<longrightarrow> LF \<notin> set s \<and> CR \<notin> set s"
  shows "copy_loop sq (html_quote_string s @ e) e = Some s"
  using assms
proof (induction s)
  case (Cons c s)
  then have IH: "copy_loop sq (html_quote_string s @ e) e = Some s" by simp
  show ?case using Cons(2) IH
    by (auto simp: html_quote_char.simps copy_loop_Cons decode_quoted)
qed simp

lemma quoted_loop_finds:
  assumes "q \<notin> set w" "CHR ''<'' \<notin> set w" "CHR ''>'' \<notin> set w" "suffix w v" "set v \<inter> {q, CHR ''<'', CHR ''>''} = {}"
  shows "quoted_loop q (v @ q # r) nl (w @ q # r) = Inr (q # r)"
proof -
  have second: "quoted_loop q b True (x @ q # r) = Inr (q # r)" if "set x \<inter> {q, CHR ''<'', CHR ''>''} = {}" for b x
    using that by (induction x) auto
  show ?thesis using assms(1-3)
  proof (induction w)
    case (Cons c w)
    then show ?case using second[OF assms(5), of "v @ q # r"] by (cases nl) (auto)
  qed simp
qed

lemma quoted_value_written:
  assumes "set v \<inter> {q, CHR ''<'', CHR ''>''} = {}" "r \<noteq> []"
  shows "quoted_value flags (q # v @ q # r) = Inr ((v @ q # r, q # r), (q # v @ q # r, r),
    \<lparr>AP_DOWNCASE = False, AP_DECODE_ENTITIES = True, AP_TRIM_BLANKS = MHT_TRIM_VALUES flags\<rparr>, r)"
  using quoted_loop_finds[of q v v r False] assms by (auto simp: quoted_value_def ADVANCE_def)

lemma dropWhile_none: "\<forall>c\<in>set v. \<not> P c \<Longrightarrow> dropWhile P v = v"
  by (cases v) auto

lemma trim_nothing: "\<forall>c\<in>set v. \<not> c_isspace c \<Longrightarrow> trim_blanks (v @ e) e = (v @ e, e)"
  by (simp add: trim_blanks_def rtrim_space_def dropWhile_none)

definition readable :: "mht_flags \<Rightarrow> string \<Rightarrow> bool" where
  \<comment> \<open>no NUL, and when blanks are trimmed no blank but the space\<close>
  "readable flags s \<longleftrightarrow> cstring s \<and> (MHT_TRIM_VALUES flags \<longrightarrow> (\<forall>c\<in>set s. c_isspace c \<longrightarrow> c = CHR '' ''))"

lemma copy_written:
  assumes "readable flags s"
  shows "convert_and_copy (html_quote_string s @ e) e
    \<lparr>AP_DOWNCASE = False, AP_DECODE_ENTITIES = True, AP_TRIM_BLANKS = MHT_TRIM_VALUES flags\<rparr> = Some s"
proof -
  let ?sq = "MHT_TRIM_VALUES flags"
  have nl: "?sq \<longrightarrow> LF \<notin> set s \<and> CR \<notin> set s" using assms by (auto simp: readable_def c_isspace_def)
  have tr: "?sq \<Longrightarrow> trim_blanks (html_quote_string s @ e) e = (html_quote_string s @ e, e)"
    using assms html_quote_space[of _ s] by (intro trim_nothing) (auto simp: readable_def)
  have "length s \<le> html_quote_size s" by (induction s) auto
  moreover have "takeWhile (\<lambda>c. c \<noteq> NUL) s = s" using assms by (auto simp: readable_def cstring_def takeWhile_eq_all_conv)
  ultimately show ?thesis using copy_quoted[OF nl] tr
    by (cases ?sq) (simp_all add: convert_and_copy_def length_html_quote)
qed

lemma value_written:
  assumes "readable flags s" "r \<noteq> []" "q = CHR 0x22 \<or> q = CHR 0x27 \<and> q \<notin> set s"
  shows "\<exists>b e raw fl. quoted_value flags (q # html_quote_string s @ q # r) = Inr ((b, e), raw, fl, r) \<and> convert_and_copy b e fl = Some s"
proof -
  have "set (html_quote_string s) \<inter> {q, CHR ''<'', CHR ''>''} = {}" using assms(3) html_quote_plain[of s] html_quote_apos[of s] by auto
  from quoted_value_written[OF this assms(2)] copy_written[OF assms(1)] show ?thesis by simp
qed

subsection \<open>File names\<close>

lemma local_quote_eq: "local_quote_string ae f True = concat (map (local_quote_char ae) f)"
proof (cases "list_ex (\<lambda>c. c \<in> set ''?#%; '') f")
  case False
  then have "concat (map (local_quote_char ae) f) = f" by (induction f) auto
  with False show ?thesis by (simp only: local_quote_string_def) simp
qed (simp add: local_quote_string_def Let_def)

lemma local_quote_html: "local_quote_string ae f False = html_quote_string (local_quote_string ae f True)"
  by (simp add: local_quote_string_def Let_def)

lemma unescape_local:
  "cstring f \<Longrightarrow> url_unescape_1 (concat (map (local_quote_char ae) f)) 0 = f"
proof (induction f)
  case (Cons c f)
  have "url_unescape_1 (''%25'' @ x) 0 = CHR ''%'' # url_unescape_1 x 0" "url_unescape_1 (''%23'' @ x) 0 = CHR ''#'' # url_unescape_1 x 0"
    "url_unescape_1 (''%3B'' @ x) 0 = CHR '';'' # url_unescape_1 x 0" "url_unescape_1 (''%20'' @ x) 0 = CHR '' '' # url_unescape_1 x 0"
    "url_unescape_1 (''%3F'' @ x) 0 = CHR ''?'' # url_unescape_1 x 0" for x
    by (simp_all add: url_unescape_1.simps X2DIGITS_TO_NUM_def unhex_def c_isxdigit_def c_isdigit_def urlchr_test_def char_of_consts Let_def)
  with Cons show ?case by (cases "c = CHR ''%''") auto
qed simp

lemma local_quote_char_safe:
  "c \<in> set (local_quote_char ae x) \<Longrightarrow> c \<noteq> CHR ''#'' \<and> c \<noteq> CHR '';'' \<and> c \<noteq> CHR '' '' \<and> (ae \<longrightarrow> c \<noteq> CHR ''?'')"
  by (auto split: if_splits)

lemma local_quote_char_old:
  "c \<in> set (local_quote_char ae x) \<Longrightarrow> c = x \<or> (c \<noteq> NUL \<and> \<not> c_isspace c \<and> c \<noteq> CHR 0x27)"
  by (auto simp: c_isspace_def split: if_splits)

lemma local_quote_safe:
  "c \<in> set (local_quote_string ae f True) \<Longrightarrow> c \<noteq> CHR ''#'' \<and> c \<noteq> CHR '';'' \<and> c \<noteq> CHR '' '' \<and> (ae \<longrightarrow> c \<noteq> CHR ''?'')"
  unfolding local_quote_eq by (auto dest: local_quote_char_safe simp del: local_quote_char.simps)

lemma local_quote_old:
  "c \<in> set (local_quote_string ae f True) \<Longrightarrow> c \<in> set f \<or> (c \<noteq> NUL \<and> \<not> c_isspace c \<and> c \<noteq> CHR 0x27)"
  unfolding local_quote_eq by (auto dest: local_quote_char_old simp del: local_quote_char.simps)

lemma readable_local: "readable flags f \<Longrightarrow> readable flags (local_quote_string ae f True)"
  unfolding readable_def cstring_def using local_quote_old[of _ ae f] by blast

definition old_text :: "string \<Rightarrow> nat \<Rightarrow> int \<Rightarrow> string" where
  \<comment> \<open>the text of a link before it is replaced, without its quotes\<close>
  "old_text content p sz =
     (if content ! p = CHR 0x22 \<or> content ! p = CHR 0x27 then take (nat (sz - 2)) (drop (p + 1) content)
      else take (nat sz) (drop p content))"

lemma region_at_Some: "region_at content p sz = Some reg \<Longrightarrow> reg = take (nat sz) (drop p content)"
  by (auto simp: region_at_def split: if_splits)

lemma replace_attr_Some:
  assumes "replace_attr content p sz t = Some (p', out)"
  shows "p < length content \<and> p' = int p + sz \<and>
    (\<exists>q. q = (if content ! p = CHR 0x27 then CHR 0x27 else CHR 0x22) \<and>
       out = [q] @ t @ (case find_fragment (old_text content p sz) of None \<Rightarrow> [] | Some f \<Rightarrow> f) @ [q])"
  using assms by (auto simp: replace_attr_def old_text_def Let_def bind_eq_Some_conv dest!: region_at_Some split: if_splits)

text \<open>
  C15. A link that is rewritten to a local file is read back as that file. When \<open>replace_attr\<close> has
  put the quoted name of a file in the place of a link without a fragment, the HTML scanner reads
  the new text as one quoted value, ends it at its closing quote, and the value decodes to the name
  of the file; no character of the value could be taken for the start of a fragment, of parameters
  or, when extensions are adjusted, of a query. The link must not have been in single quotes
  if the name has one.
\<close>
theorem rewritten_link_reads_back:
  assumes "replace_attr content p sz (local_quote_string ae name False) = Some (p', t)"
    and "find_fragment (old_text content p sz) = None"
    and "readable flags name" and "rest \<noteq> []" and "content ! p = CHR 0x27 \<longrightarrow> CHR 0x27 \<notin> set name"
  shows "\<exists>b e raw fl v. quoted_value flags (t @ rest) = Inr ((b, e), raw, fl, rest) \<and> convert_and_copy b e fl = Some v \<and>
    url_unescape v = name \<and> (\<forall>c\<in>set v. c \<noteq> CHR ''#'' \<and> c \<noteq> CHR '';'' \<and> (ae \<longrightarrow> c \<noteq> CHR ''?''))"
proof -
  let ?v = "local_quote_string ae name True"
  define q where "q = (if content ! p = CHR 0x27 then CHR 0x27 else CHR 0x22)"
  from replace_attr_Some[OF assms(1)] assms(2) have "t = [q] @ local_quote_string ae name False @ [q]"
    unfolding q_def by simp
  then have t: "t = [q] @ html_quote_string ?v @ [q]" unfolding local_quote_html .
  have rv: "readable flags ?v" using assms(3) by (rule readable_local)
  have "CHR 0x27 \<notin> set ?v" if "CHR 0x27 \<notin> set name" using that local_quote_old[of "CHR 0x27" ae name] by blast
  then have q: "q = CHR 0x22 \<or> q = CHR 0x27 \<and> q \<notin> set ?v" using assms(5) unfolding q_def by simp
  from value_written[OF rv assms(4) q] obtain b e raw fl where
    v: "quoted_value flags (q # html_quote_string ?v @ q # rest) = Inr ((b, e), raw, fl, rest)" "convert_and_copy b e fl = Some ?v" by blast
  have u: "url_unescape ?v = name" using unescape_local[of name ae] assms(3) unfolding url_unescape_def local_quote_eq readable_def by blast
  have s: "\<forall>c\<in>set ?v. c \<noteq> CHR ''#'' \<and> c \<noteq> CHR '';'' \<and> (ae \<longrightarrow> c \<noteq> CHR ''?'')" using local_quote_safe[of _ ae name] by blast
  have tr: "t @ rest = q # html_quote_string ?v @ q # rest" using t by simp
  show ?thesis unfolding tr using v u s by blast
qed

definition example_page :: string where
  "example_page = ''<a href=\"/x\">''"

theorem rewritten_link_reads_back_witness:
  "\<exists>t. replace_attr example_page 8 4 (local_quote_string True ''a&b?c d'' False) = Some (12, t) \<and>
     (\<exists>b e raw fl v. quoted_value \<lparr>MHT_STRICT_COMMENTS = False, MHT_TRIM_VALUES = True\<rparr> (t @ ''>'') = Inr ((b, e), raw, fl, ''>'') \<and>
        convert_and_copy b e fl = Some v \<and> url_unescape v = ''a&b?c d'')"
proof -
  let ?f = "\<lparr>MHT_STRICT_COMMENTS = False, MHT_TRIM_VALUES = True\<rparr>"
  have r: "replace_attr example_page 8 4 (local_quote_string True ''a&b?c d'' False) = Some (12, ''\"a&amp;b%3Fc%20d\"'')"
    "find_fragment (old_text example_page 8 4) = None" "example_page ! 8 = CHR 0x27 \<longrightarrow> CHR 0x27 \<notin> set ''a&b?c d''"
    by code_simp+
  have rd: "readable ?f ''a&b?c d''" by (simp add: readable_def c_isspace_def)
  have "''>'' \<noteq> []" by simp
  from rewritten_link_reads_back[OF r(1,2) rd this r(3)] r(1) show ?thesis by auto
qed

text \<open>
  In single quotes the apostrophe of a name is not escaped: the link to the file \<open>it's\<close> is read back
  as a link to \<open>it\<close>.
\<close>
theorem apostrophe_cuts_link:
  "\<exists>t b e raw fl. replace_attr ''<a href='/x'>'' 8 4 (local_quote_string False (''it'' @ [CHR 0x27] @ ''s'') False) = Some (12, t) \<and>
     quoted_value \<lparr>MHT_STRICT_COMMENTS = False, MHT_TRIM_VALUES = True\<rparr> (t @ ''>'') = Inr ((b, e), raw, fl, ''s'' @ [CHR 0x27] @ ''>'') \<and>
     convert_and_copy b e fl = Some ''it''"
proof -
  let ?f = "\<lparr>MHT_STRICT_COMMENTS = False, MHT_TRIM_VALUES = True\<rparr>"
  let ?t = "[CHR 0x27] @ ''it'' @ [CHR 0x27] @ ''s'' @ [CHR 0x27]"
  have "replace_attr ''<a href='/x'>'' 8 4 (local_quote_string False (''it'' @ [CHR 0x27] @ ''s'') False) = Some (12, ?t)" by code_simp
  moreover have "quoted_value ?f (?t @ ''>'') = Inr ((''it'' @ [CHR 0x27] @ ''s'' @ [CHR 0x27] @ ''>'', [CHR 0x27] @ ''s'' @ [CHR 0x27] @ ''>''),
      (?t @ ''>'', ''s'' @ [CHR 0x27] @ ''>''), \<lparr>AP_DOWNCASE = False, AP_DECODE_ENTITIES = True, AP_TRIM_BLANKS = True\<rparr>, ''s'' @ [CHR 0x27] @ ''>'')"
    by code_simp
  moreover have "convert_and_copy (''it'' @ [CHR 0x27] @ ''s'' @ [CHR 0x27] @ ''>'') ([CHR 0x27] @ ''s'' @ [CHR 0x27] @ ''>'')
      \<lparr>AP_DOWNCASE = False, AP_DECODE_ENTITIES = True, AP_TRIM_BLANKS = True\<rparr> = Some ''it''" by code_simp
  ultimately show ?thesis by blast
qed

subsection \<open>Relative names\<close>

definition dir_of :: "string \<Rightarrow> string" where
  \<comment> \<open>up to the last slash\<close>
  "dir_of s = rev (dropWhile (\<lambda>c. c \<noteq> CHR ''/'') (rev s))"

function go :: "string \<Rightarrow> string \<Rightarrow> string" where
  \<comment> \<open>the file that a relative name leads to from a directory\<close>
  "go d rel =
     (if prefix ''../'' rel then go (dir_of (butlast d)) (drop 3 rel)
      else if prefix ''./'' rel then go d (drop 2 rel)
      else d @ rel)"
  by pat_completeness auto
termination
  by (relation "measure (\<lambda>(d, rel). length rel)") (auto dest: prefix_length_le)

declare go.simps [simp del]

lemma dir_of_append: "CHR ''/'' \<notin> set t \<Longrightarrow> dir_of (s @ CHR ''/'' # t) = s @ ''/''"
  by (auto simp: dir_of_def dropWhile_append)

lemma dir_of_none: "CHR ''/'' \<notin> set t \<Longrightarrow> dir_of t = []"
  by (auto simp: dir_of_def)

lemma dir_of_prepend: "s = [] \<or> last s = CHR ''/'' \<Longrightarrow> dir_of (s @ t) = s @ dir_of t"
proof (cases "CHR ''/'' \<in> set t")
  case True
  then obtain a b where "t = a @ CHR ''/'' # b" "CHR ''/'' \<notin> set b" by (metis split_list_last)
  then show ?thesis using dir_of_append[of b "s @ a"] dir_of_append[of b a] by simp
next
  case False
  assume s: "s = [] \<or> last s = CHR ''/''"
  show ?thesis
  proof (cases s rule: rev_cases)
    case (snoc a c)
    with s False show ?thesis using dir_of_append[of t a] by (simp add: dir_of_none)
  qed (use False in \<open>simp add: dir_of_none\<close>)
qed

abbreviation slashes :: "string \<Rightarrow> nat" where
  "slashes s \<equiv> length (filter (\<lambda>c. c = CHR ''/'') s)"

lemma slashes_0: "slashes s = 0 \<longleftrightarrow> CHR ''/'' \<notin> set s"
  by (auto simp: filter_empty_conv)

lemma go_up:
  assumes "s = [] \<or> last s = CHR ''/''" "\<not> prefix ''../'' rel" "\<not> prefix ''./'' rel"
  shows "go (s @ dir_of t) (concat (replicate (slashes t) ''../'') @ rel) = s @ rel"
proof (induction "slashes t" arbitrary: t)
  case 0
  then have "CHR ''/'' \<notin> set t" by (metis slashes_0)
  then show ?case using assms(2,3) 0 by (simp add: dir_of_none go.simps[of s rel])
next
  case (Suc n)
  then have "CHR ''/'' \<in> set t" by (metis slashes_0 nat.distinct(1))
  then obtain a b where t: "t = a @ CHR ''/'' # b" "CHR ''/'' \<notin> set b" by (metis split_list_last)
  then have "slashes b = 0" by (metis slashes_0)
  with Suc(2) t have n: "n = slashes a" "slashes t = Suc n" by simp_all
  have "go (s @ dir_of t) (concat (replicate (slashes t) ''../'') @ rel) = go (dir_of (butlast (s @ dir_of t))) (concat (replicate n ''../'') @ rel)"
    unfolding n(2) by (subst go.simps) simp
  also have "dir_of (butlast (s @ dir_of t)) = s @ dir_of a" using t dir_of_prepend[OF assms(1), of a] by (simp add: dir_of_append butlast_append)
  finally show ?case using Suc(1)[OF n(1)] n(1) by simp
qed

lemma common_dirs_cases:
  "common_dirs bs ls i start = start \<or>
   (\<exists>c b' l'. bs = c @ b' \<and> ls = c @ l' \<and> c \<noteq> [] \<and> last c = CHR ''/'' \<and> common_dirs bs ls i start = i + length c)"
proof (induction bs ls i start rule: common_dirs.induct)
  case (1 b bs l ls i start)
  show ?case
  proof (cases "b = l")
    case True
    from 1[OF this] show ?thesis
    proof
      assume *: "common_dirs bs ls (i + 1) (if b = CHR ''/'' then i + 1 else start) = (if b = CHR ''/'' then i + 1 else start)"
      show ?thesis
      proof (cases "b = CHR ''/''")
        case slash: True
        with * True have "b # bs = ''/'' @ bs \<and> l # ls = ''/'' @ ls \<and> common_dirs (b # bs) (l # ls) i start = i + length ''/''" by simp
        then show ?thesis by (intro disjI2 exI[of _ "''/''"] exI[of _ bs] exI[of _ ls]) auto
      qed (use * True in simp)
    next
      assume "\<exists>c b' l'. bs = c @ b' \<and> ls = c @ l' \<and> c \<noteq> [] \<and> last c = CHR ''/'' \<and>
        common_dirs bs ls (i + 1) (if b = CHR ''/'' then i + 1 else start) = i + 1 + length c"
      then obtain c b' l' where "bs = c @ b'" "ls = c @ l'" "c \<noteq> []" "last c = CHR ''/''"
        "common_dirs bs ls (i + 1) (if b = CHR ''/'' then i + 1 else start) = i + 1 + length c" by blast
      with True show ?thesis by (intro disjI2 exI[of _ "b # c"] exI[of _ b'] exI[of _ l']) simp
    qed
  qed simp
qed simp_all

lemma common_dirs_split:
  obtains c b' l' where "basefile = c @ b'" "linkfile = c @ l'" "c = [] \<or> last c = CHR ''/''" "common_dirs basefile linkfile 0 0 = length c"
proof -
  from common_dirs_cases[of basefile linkfile 0 0] show thesis
  proof
    assume "common_dirs basefile linkfile 0 0 = 0"
    then show thesis using that[of "[]" basefile linkfile] by simp
  next
    assume "\<exists>c b' l'. basefile = c @ b' \<and> linkfile = c @ l' \<and> c \<noteq> [] \<and> last c = CHR ''/'' \<and> common_dirs basefile linkfile 0 0 = 0 + length c"
    then show thesis using that by auto
  qed
qed

definition no_dots :: "string \<Rightarrow> bool" where
  \<comment> \<open>no element of the name is a dot or two dots followed by a slash\<close>
  "no_dots s \<longleftrightarrow> (\<forall>a r. s = a @ r \<and> (a = [] \<or> last a = CHR ''/'') \<longrightarrow> \<not> prefix ''../'' r \<and> \<not> prefix ''./'' r)"

lemma dots_no_scheme: "\<not> url_has_scheme (CHR ''.'' # s)"
  by (simp add: url_has_scheme_def SCHEME_CHAR_def c_isalnum_def c_isdigit_def c_islower_def c_isupper_def)

lemma scheme_colon_first:
  assumes "url_has_scheme s"
  shows "deref (dropWhile (\<lambda>c. c \<noteq> CHR ''/'' \<and> c \<noteq> CHR '':'') s) 0 = CHR '':''"
proof -
  from assms obtain c r where s: "s = c # r" "SCHEME_CHAR c" "deref (dropWhile SCHEME_CHAR r) 0 = CHR '':''"
    by (cases s) (auto simp: url_has_scheme_def split: if_splits)
  have sc: "SCHEME_CHAR x \<Longrightarrow> x \<noteq> CHR ''/'' \<and> x \<noteq> CHR '':''" for x
    by (auto simp: SCHEME_CHAR_def c_isalnum_def c_isdigit_def c_islower_def c_isupper_def)
  have "deref (dropWhile SCHEME_CHAR r) 0 = CHR '':'' \<Longrightarrow> deref (dropWhile (\<lambda>c. c \<noteq> CHR ''/'' \<and> c \<noteq> CHR '':'') r) 0 = CHR '':''" for r
    by (induction r) (auto dest: sc split: if_splits)
  with s sc[OF s(2)] show ?thesis by simp
qed



subsection \<open>The rewritten page\<close>

fun splice_text :: "string \<Rightarrow> nat \<Rightarrow> (nat \<times> nat \<times> string) list \<Rightarrow> string" where
  \<comment> \<open>the contents from an offset on, with the regions (offset and size) replaced\<close>
  "splice_text content p [] = drop p content"
| "splice_text content p ((pos, sz, t) # edits) = take (pos - p) (drop p content) @ t @ splice_text content (pos + sz) edits"

definition attr_text :: "string \<Rightarrow> urlpos \<Rightarrow> string \<Rightarrow> string" where
  \<comment> \<open>a new value in the quotes of the old one, with the old fragment\<close>
  "attr_text content link t =
     (let p = nat (up_pos link); q = (if content ! p = CHR 0x27 then CHR 0x27 else CHR 0x22)
      in [q] @ t @ (case find_fragment (old_text content p (up_size link)) of None \<Rightarrow> [] | Some f \<Rightarrow> f) @ [q])"

definition dressed :: "string \<Rightarrow> urlpos \<Rightarrow> string \<Rightarrow> string \<Rightarrow> string" where
  "dressed content link plain quoted =
     (if link_css_p link \<or> link_noquote_html_p link then plain
      else if link_refresh_p link then attr_text content link (print_int (refresh_timeout link) @ ''; URL='' @ quoted)
      else attr_text content link quoted)"

definition link_text :: "convert_opts \<Rightarrow> string \<Rightarrow> string \<Rightarrow> urlpos \<Rightarrow> string" where
  \<comment> \<open>what a link becomes\<close>
  "link_text opt path content link =
     (case convert link of
        CO_CONVERT_TO_RELATIVE \<Rightarrow>
          (case local_name link of
             None \<Rightarrow> take (nat (up_size link)) (drop (nat (up_pos link)) content)
           | Some name \<Rightarrow>
               let t = local_quote_string (cv_adjust_extension opt) (construct_relative path name) (link_css_p link)
               in dressed content link t t)
      | CO_CONVERT_BASENAME_ONLY \<Rightarrow>
          let t = local_quote_string (cv_adjust_extension opt)
                (the (convert_basename (cv_disabled opt) content (nat (up_pos link)) (up_size link) (local_name link))) (link_css_p link)
          in dressed content link t t
      | CO_CONVERT_TO_COMPLETE \<Rightarrow> dressed content link (u_url (up_url link)) (html_quote_string (u_url (up_url link)))
      | CO_NULLIFY_BASE \<Rightarrow> attr_text content link []
      | CO_NOCONVERT \<Rightarrow> take (nat (up_size link)) (drop (nat (up_pos link)) content))"

definition link_fits :: "string \<Rightarrow> urlpos \<Rightarrow> bool" where
  \<comment> \<open>the region of the link lies in the contents; with a quote, both quotes do\<close>
  "link_fits content link \<longleftrightarrow>
     0 \<le> up_pos link \<and> 0 \<le> up_size link \<and> up_pos link < int (length content) \<and> up_pos link + up_size link \<le> int (length content) \<and>
     (content ! nat (up_pos link) = CHR 0x22 \<or> content ! nat (up_pos link) = CHR 0x27 \<longrightarrow> 2 \<le> up_size link)"

fun placed :: "string \<Rightarrow> int \<Rightarrow> urlpos list \<Rightarrow> bool" where
  \<comment> \<open>the links to convert stand one after the other\<close>
  "placed content lo [] \<longleftrightarrow> True"
| "placed content lo (link # links) \<longleftrightarrow> link_fits content link \<and>
     (if convert link = CO_NOCONVERT then placed content lo links
      else lo \<le> up_pos link \<and> placed content (up_pos link + up_size link) links)"

definition edits :: "convert_opts \<Rightarrow> string \<Rightarrow> string \<Rightarrow> urlpos list \<Rightarrow> (nat \<times> nat \<times> string) list" where
  "edits opt path content links =
     map (\<lambda>l. (nat (up_pos l), nat (up_size l), link_text opt path content l)) (filter (\<lambda>l. convert l \<noteq> CO_NOCONVERT) links)"

lemma replace_attr_fits:
  assumes "link_fits content link"
  shows "replace_attr content (nat (up_pos link)) (up_size link) t = Some (up_pos link + up_size link, attr_text content link t)"
proof -
  let ?p = "nat (up_pos link)"
  have p: "?p < length content" "int ?p = up_pos link" using assms by (auto simp: link_fits_def nat_less_iff)
  define qf where "qf = (content ! ?p = CHR 0x22 \<or> content ! ?p = CHR 0x27)"
  have "int (if qf then ?p + 1 else ?p) + (if qf then up_size link - 2 else up_size link) \<le> int (length content)"
    using assms p(2) by (simp add: link_fits_def)
  then obtain reg where "region_at content (if qf then ?p + 1 else ?p) (if qf then up_size link - 2 else up_size link) = Some reg"
    unfolding region_at_def by (metis (no_types))
  then have "\<exists>p' out. replace_attr content ?p (up_size link) t = Some (p', out)"
    using p by (simp add: replace_attr_def qf_def[symmetric] Let_def)
  then obtain p' out where r: "replace_attr content ?p (up_size link) t = Some (p', out)" by blast
  from replace_attr_Some[OF r] r p(2) show ?thesis by (simp add: attr_text_def Let_def)
qed

lemma replace_link_fits:
  assumes "link_fits content link"
  shows "replace_link content (nat (up_pos link)) link plain quoted = Some (up_pos link + up_size link, dressed content link plain quoted)"
proof -
  have "int (nat (up_pos link)) = up_pos link" using assms by (simp add: link_fits_def)
  then show ?thesis using replace_attr_fits[OF assms]
    by (simp add: replace_link_def dressed_def replace_plain_def replace_attr_refresh_hack_def)
qed

lemma convert_basename_fits:
  assumes "link_fits content link"
  shows "\<exists>s. convert_basename disabled content (nat (up_pos link)) (up_size link) n = Some s"
  using assms by (auto simp: convert_basename_def link_fits_def Let_def nat_less_iff)

lemma convert_one_fits:
  assumes "link_fits content link" "convert link \<noteq> CO_NOCONVERT"
  shows "\<exists>q t. convert_one opt path content (nat (up_pos link)) link = Some (q, t) \<and>
    (q = up_pos link + up_size link \<and> t = link_text opt path content link \<or>
     q = up_pos link \<and> t = [] \<and> link_text opt path content link = take (nat (up_size link)) (drop (nat (up_pos link)) content))"
proof (cases "convert link")
  case CO_CONVERT_TO_RELATIVE
  moreover have "int (nat (up_pos link)) = up_pos link" using assms(1) by (simp add: link_fits_def)
  ultimately show ?thesis using replace_link_fits[OF assms(1)]
    by (cases "local_name link") (auto simp: convert_one_def link_text_def Let_def)
next
  case CO_CONVERT_BASENAME_ONLY
  with convert_basename_fits[OF assms(1), of "cv_disabled opt" "local_name link"] replace_link_fits[OF assms(1)] show ?thesis
    by (auto simp: convert_one_def link_text_def Let_def)
qed (use assms replace_link_fits[OF assms(1)] replace_attr_fits[OF assms(1)] in \<open>simp_all add: convert_one_def link_text_def Let_def\<close>)

lemma splice_shift:
  assumes "\<forall>e\<in>set es. p + n \<le> fst e"
  shows "splice_text content p es = take n (drop p content) @ splice_text content (p + n) es"
proof (cases es)
  case Nil
  then show ?thesis by (metis append_take_drop_id drop_drop add.commute splice_text.simps(1))
next
  case (Cons e es')
  obtain pos sz t where e: "e = (pos, sz, t)" by (cases e)
  with assms Cons obtain d where d: "pos = p + n + d" by (auto simp: nat_le_iff_add)
  have "take (n + d) (drop p content) = take n (drop p content) @ take d (drop (p + n) content)"
    by (simp only: take_add drop_drop add.commute[of p n])
  then show ?thesis using Cons e d by (simp add: add.assoc)
qed

lemma placed_edits: "placed content lo links \<Longrightarrow> \<forall>e\<in>set (edits opt path content links). nat lo \<le> fst e"
proof (induction links arbitrary: lo)
  case (Cons l links)
  show ?case
  proof (cases "convert l = CO_NOCONVERT")
    case True
    with Cons show ?thesis by (simp add: edits_def)
  next
    case False
    with Cons(2) have l: "lo \<le> up_pos l" "0 \<le> up_size l" "0 \<le> up_pos l" "placed content (up_pos l + up_size l) links" by (auto simp: link_fits_def)
    have "nat lo \<le> fst e" if "e \<in> set (edits opt path content links)" for e
      using Cons(1)[OF l(4)] that l(1,2) by (auto intro: order_trans[rotated])
    then show ?thesis using l(1) False by (auto simp: edits_def)
  qed
qed (simp add: edits_def)

lemma edits_Cons: "edits opt path content (l # ls) =
   (if convert l = CO_NOCONVERT then edits opt path content ls
    else (nat (up_pos l), nat (up_size l), link_text opt path content l) # edits opt path content ls)"
  by (simp add: edits_def)

lemma rewrite_loop_splice:
  assumes "placed content lo links" "0 \<le> p" "p \<le> lo"
  shows "\<exists>q t. rewrite_loop opt path content links p out = Some (q, t) \<and> 0 \<le> q \<and>
    t @ drop (nat q) content = out @ splice_text content (nat p) (edits opt path content links)"
  using assms
proof (induction links arbitrary: lo p out)
  case (Cons l links)
  from Cons(2) have fits: "link_fits content l" by simp
  show ?case
  proof (cases "convert l = CO_NOCONVERT")
    case True
    with Cons(2) have "placed content lo links" by simp
    from Cons(1)[OF this Cons(3,4), of out] True fits show ?thesis by (simp add: edits_Cons link_fits_def)
  next
    case False
    with Cons(2) have pl: "lo \<le> up_pos l" "placed content (up_pos l + up_size l) links" by auto
    from convert_one_fits[OF fits False, of opt path] obtain q t where
      q: "convert_one opt path content (nat (up_pos l)) l = Some (q, t)"
      and c: "q = up_pos l + up_size l \<and> t = link_text opt path content l \<or>
        q = up_pos l \<and> t = [] \<and> link_text opt path content l = take (nat (up_size l)) (drop (nat (up_pos l)) content)" by blast
    have s0: "0 \<le> up_size l" "0 \<le> up_pos l" "up_pos l < int (length content)" using fits by (auto simp: link_fits_def)
    let ?out = "out @ take (nat (up_pos l - p)) (drop (nat p) content) @ t"
    have "0 \<le> q" "q \<le> up_pos l + up_size l" using c s0 by auto
    from Cons(1)[OF pl(2) this, of ?out] obtain q' t' where
      r: "rewrite_loop opt path content links q ?out = Some (q', t')" "0 \<le> q'"
        "t' @ drop (nat q') content = ?out @ splice_text content (nat q) (edits opt path content links)" by blast
    have tail: "t @ splice_text content (nat q) (edits opt path content links) =
        link_text opt path content l @ splice_text content (nat (up_pos l) + nat (up_size l)) (edits opt path content links)"
      using c splice_shift[of "edits opt path content links" "nat (up_pos l)" "nat (up_size l)" content]
        placed_edits[OF pl(2), of opt path] s0 by (auto simp: nat_add_distrib)
    have "nat (up_pos l - p) = nat (up_pos l) - nat p" using Cons(3) by (simp add: nat_diff_distrib')
    then show ?thesis using r q False s0 Cons(3,4) pl(1) tail by (simp add: edits_Cons)
  qed
qed (auto simp: edits_def)

lemma rewrite_links_splice:
  assumes "placed content 0 links"
  shows "rewrite_links opt path content links = Some (splice_text content 0 (edits opt path content links))"
proof -
  from rewrite_loop_splice[OF assms, of 0 opt path "[]"] obtain q t where
    "rewrite_loop opt path content links 0 [] = Some (q, t)" "0 \<le> q" "t @ drop (nat q) content = splice_text content 0 (edits opt path content links)" by auto
  then show ?thesis by (cases "q < int (length content)") (auto simp: rewrite_links_def)
qed

text \<open>
  C16. Rewriting a page changes nothing but its links. If the links to convert stand one after the
  other inside the page, the new page is the old one with the text of each of them replaced: by the
  quoted relative name of the local file, by the complete URL or, for a base, by nothing, in the
  old quotes and with the old fragment; every byte outside of these texts stays, in order.
\<close>
theorem rewrite_links_correct:
  assumes "placed content 0 links"
  shows "rewrite_links opt path content links = Some (splice_text content 0 (edits opt path content links))"
  using assms by (rule rewrite_links_splice)

definition example_link :: "int \<Rightarrow> int \<Rightarrow> string option \<Rightarrow> convert_options \<Rightarrow> urlpos" where
  "example_link pos sz name conv =
     (new_urlpos \<lparr>u_url = ''http://h/a&b'', u_scheme = SCHEME_HTTP, u_host = ''h'', u_port = 80, u_path = ''a&b'', u_params = None,
        u_query = None, u_fragment = None, u_dir = [], u_file = ''a&b'', u_user = None, u_passwd = None\<rparr>)
       \<lparr>up_pos := pos, up_size := sz, local_name := name, convert := conv\<rparr>"

definition example_opts :: convert_opts where
  "example_opts = \<lparr>cv_adjust_extension = True, cv_backup_converted = True, cv_convert_file_only = False, cv_disabled = []\<rparr>"

theorem rewrite_links_correct_witness:
  "placed ''<a href=\"/x#f\"><b src=y>'' 0 [example_link 8 6 (Some ''d/c?1'') CO_CONVERT_TO_RELATIVE, example_link 22 1 None CO_CONVERT_TO_COMPLETE] \<and>
   rewrite_links example_opts ''d/p'' ''<a href=\"/x#f\"><b src=y>'' [example_link 8 6 (Some ''d/c?1'') CO_CONVERT_TO_RELATIVE, example_link 22 1 None CO_CONVERT_TO_COMPLETE]
     = Some ''<a href=\"c%3F1#f\"><b src=\"http://h/a&amp;b\">''"
proof -
  let ?c = "''<a href=\"/x#f\"><b src=y>''"
  let ?l = "[example_link 8 6 (Some ''d/c?1'') CO_CONVERT_TO_RELATIVE, example_link 22 1 None CO_CONVERT_TO_COMPLETE]"
  have p: "placed ?c 0 ?l" by code_simp
  have s: "splice_text ?c 0 (edits example_opts ''d/p'' ?c ?l) = ''<a href=\"c%3F1#f\"><b src=\"http://h/a&amp;b\">''" by code_simp
  from rewrite_links_correct[OF p, of example_opts "''d/p''", unfolded s] p show ?thesis by (intro conjI)
qed

text \<open>
  The order is needed: if a link to convert begins before the end of the previous one, the number of
  bytes to copy is negative, and \<open>fwrite\<close> is called with a huge size.
\<close>
theorem overlapping_links_undefined:
  assumes "link_fits content a" "link_fits content b" "convert a = CO_CONVERT_TO_COMPLETE" "convert b = CO_CONVERT_TO_COMPLETE"
    and "up_pos a \<le> up_pos b" "up_pos b < up_pos a + up_size a"
  shows "rewrite_links opt path content (a # b # links) = None"
proof -
  have "convert_one opt path content (nat (up_pos a)) a = Some (up_pos a + up_size a, link_text opt path content a)"
    using assms(3) replace_link_fits[OF assms(1)] by (simp add: convert_one_def link_text_def Let_def)
  then show ?thesis using assms by (simp add: rewrite_links_def link_fits_def)
qed

text \<open>
  Pages can have such links: for a style element inside another one the scanner reports contents
  that overlap, and \<open>collect_tags_mapper\<close> collects the URLs of both.
\<close>
theorem nested_styles_overlap:
  "map_option (map (\<lambda>t. (contents_begin t, contents_end t)))
     (html_tags ''<style><style>@import url(a)</style></style>'' \<lparr>MHT_STRICT_COMMENTS = False, MHT_TRIM_VALUES = True\<rparr>
        (None :: (string, unit) hash_table option) (None :: (string, unit) hash_table option)) =
   Some [(None, None), (None, None), (Some 14, Some 28), (Some 7, Some 36)]"
  by code_simp

text \<open>
  With \<open>--convert-file-only\<close> a link to a file without a directory is merged with itself instead of
  getting the name of the file: \<open>sub/a\<close>, saved as \<open>a.html\<close>, becomes \<open>sub/sub/a\<close>.
\<close>
theorem basename_without_directory:
  "convert_basename [] ''<a href=\"sub/a\">'' 8 7 (Some ''a.html'') = Some ''sub/sub/a'' \<and>
   convert_basename [] ''<a href=\"sub/a\">'' 8 7 (Some ''d/a.html'') = Some ''sub/a.html''"
  by code_simp

subsection \<open>Backups\<close>

definition converted :: "convert_state \<Rightarrow> string set" where
  "converted st = dom (tmap (cs_converted st))"

definition convert_inv :: "convert_state \<Rightarrow> bool" where
  "convert_inv st \<longleftrightarrow> tinv (cs_converted st) \<and> dl_inv (cs_dl st) \<and> tcount (cs_converted st) < capacity"

lemma write_backup_ok:
  assumes "convert_inv st" "backup_name path ret = Some orig" "rename_ok ops path orig"
  obtains st' where "write_backup_file ops path ret st = Some st'" "cs_dl st' = cs_dl st" "converted st' = insert path (converted st)"
    "cs_files st' = (if path \<in> converted st then cs_files st else (cs_files st)(path := None, orig := cs_files st path))"
proof -
  from assms(1) have inv: "tinv (cs_converted st)" "tcount (cs_converted st) < capacity" by (simp_all add: convert_inv_def)
  from ensure_ok[OF inv(1)] obtain ht where ht: "ensure (cs_converted st) = Some ht" "str_inv ht" "smap ht = tmap (cs_converted st)" "ht_count ht = tcount (cs_converted st)" by blast
  have c: "string_set_contains ht path = Some (path \<in> converted st)" using ht by (auto simp: string_set_contains_def str.contains converted_def)
  show thesis
  proof (cases "path \<in> converted st")
    case True
    with ht c show thesis by (intro that[of "st\<lparr>cs_converted := Some ht\<rparr>"]) (auto simp: write_backup_file_def converted_def)
  next
    case False
    have "ht_count ht < capacity" using ht(4) inv(2) by simp
    then obtain ht' where ht': "string_set_add ht path = Some ht'" "dom (smap ht') = insert path (dom (smap ht))" using set_add_ok[OF ht(2)] by metis
    with False ht c assms(2,3) show thesis
      by (intro that[of "st\<lparr>cs_files := (cs_files st)(path := None, orig := cs_files st path), cs_converted := Some ht'\<rparr>"])
         (auto simp: write_backup_file_def converted_def)
  qed
qed

text \<open>
  C17. The original of a converted page is kept, however often the page is converted. With backups
  on, the conversion of a downloaded file writes the new page, and the file for the backup holds
  the page as it was before the first conversion: a later one does not touch it. No other file
  changes.
\<close>
theorem convert_links_keeps_original:
  assumes "convert_inv st" and "cv_backup_converted opt" and "downloaded_file (cs_dl st) CHECK_FOR_FILE path = Some (ret, cs_dl st)"
    and "ret \<noteq> FILE_NOT_ALREADY_DOWNLOADED" and "backup_name path ret = Some orig" and "orig \<noteq> path"
    and "rename_ok ops path orig" and "unlink_ok ops path" and "fopen_ok ops path"
    and "cs_files st path = Some content" and "placed content 0 links" and "\<exists>l\<in>set links. convert l \<noteq> CO_NOCONVERT"
  shows "\<exists>st'. convert_links ops opt path links st = Some st' \<and> path \<in> converted st' \<and>
    cs_files st' = (cs_files st)(path \<mapsto> splice_text content 0 (edits opt path content links),
      orig := (if path \<in> converted st then cs_files st orig else Some content))"
proof -
  from write_backup_ok[OF assms(1,5,7)] obtain st' where st': "write_backup_file ops path ret st = Some st'"
    "converted st' = insert path (converted st)"
    "cs_files st' = (if path \<in> converted st then cs_files st else (cs_files st)(path := None, orig := cs_files st path))" by blast
  have dry: "list_ex (\<lambda>l. convert l \<noteq> CO_NOCONVERT) links" using assms(12) by (simp add: list_ex_iff)
  have "convert_links ops opt path links st =
      Some (st'\<lparr>cs_files := (cs_files st')(path := Some (splice_text content 0 (edits opt path content links)))\<rparr>)"
    using dry assms(2-4,8-10) st'(1) rewrite_links_splice[OF assms(11), of opt path] by (simp add: convert_links_def Let_def)
  moreover have "(cs_files st')(path \<mapsto> x) = (cs_files st)(path \<mapsto> x, orig := (if path \<in> converted st then cs_files st orig else Some content))" for x
    using st'(3) assms(6,10) by (auto simp: fun_eq_iff)
  ultimately show ?thesis using st'(2) by (auto simp: converted_def)
qed

definition example_ops :: file_ops where
  "example_ops = \<lparr>rename_ok = (\<lambda>a b. True), unlink_ok = (\<lambda>a. True), fopen_ok = (\<lambda>a. True)\<rparr>"

theorem convert_links_keeps_original_witness:
  "\<exists>st st'. convert_links example_ops example_opts ''p'' [example_link 22 1 None CO_CONVERT_TO_COMPLETE] st = Some st' \<and>
     cs_files st = [''p'' \<mapsto> ''<a href=\"/x#f\"><b src=y>''] \<and>
     cs_files st' ''p'' = Some ''<a href=\"/x#f\"><b src=\"http://h/a&amp;b\">'' \<and> cs_files st' ''p.orig'' = Some ''<a href=\"/x#f\"><b src=y>''"
proof -
  let ?c = "''<a href=\"/x#f\"><b src=y>''"
  let ?l = "[example_link 22 1 None CO_CONVERT_TO_COMPLETE]"
  obtain ht :: "(string, downloaded_file_t) hash_table" where "str_inv ht" "smap ht = Map.empty" "ht_count ht = 0" by (rule make_string_table)
  then obtain ht' where ht': "str_inv ht'" "smap ht' = [''p'' \<mapsto> FILE_DOWNLOADED_NORMALLY]"
    using str.put_obtain[of ht "''p''" FILE_DOWNLOADED_NORMALLY] by (metis capacity_def zero_less_numeral)
  define st where "st = \<lparr>cs_files = [''p'' \<mapsto> ?c], cs_converted = None, cs_dl = no_downloads\<lparr>downloaded_files_hash := Some ht'\<rparr>\<rparr>"
  have f: "cs_files st ''p'' = Some ?c" "cs_files st = [''p'' \<mapsto> ?c]" "converted st = {}" by (simp_all add: st_def converted_def)
  have inv: "convert_inv st" using ht'(1) by (simp add: convert_inv_def st_def dl_inv_def no_downloads_def capacity_def)
  have dl: "downloaded_file (cs_dl st) CHECK_FOR_FILE ''p'' = Some (FILE_DOWNLOADED_NORMALLY, cs_dl st)"
    using ht' by (simp add: downloaded_file_def st_def str.get)
  have o: "backup_name ''p'' FILE_DOWNLOADED_NORMALLY = Some ''p.orig''" "''p.orig'' \<noteq> ''p''" by code_simp+
  have ops: "rename_ok example_ops ''p'' ''p.orig''" "unlink_ok example_ops ''p''" "fopen_ok example_ops ''p''" "cv_backup_converted example_opts"
    by (simp_all add: example_ops_def example_opts_def)
  have pl: "placed ?c 0 ?l" "\<exists>l\<in>set ?l. convert l \<noteq> CO_NOCONVERT" by code_simp+
  have s: "splice_text ?c 0 (edits example_opts ''p'' ?c ?l) = ''<a href=\"/x#f\"><b src=\"http://h/a&amp;b\">''" by code_simp
  from convert_links_keeps_original[OF inv ops(4) dl _ o ops(1-3) f(1) pl, unfolded s] f(3) obtain st' where
    "convert_links example_ops example_opts ''p'' ?l st = Some st'"
    "cs_files st' = (cs_files st)(''p'' \<mapsto> ''<a href=\"/x#f\"><b src=\"http://h/a&amp;b\">'', ''p.orig'' \<mapsto> ?c)" by auto
  then show ?thesis using f(2) by (intro exI[of _ st] exI[of _ st']) simp
qed

end
