(* ===== verification/Slinux_Tools.thy ===== *)
theory Slinux_Tools
  imports C_Prelude
begin

section \<open>The password tools of the installer\<close>

text \<open>
  \<open>tools/cryptpw.c\<close> prints the SHA-512 crypt hash of its argument under a salt it makes up;
  \<open>tools/getpass.c\<close> reads a password with echo disabled. \<open>bin/slinux-install\<close> calls both.

  The seed of \<open>cryptpw\<close> is a \<^typ>\<open>32 word\<close>, whose arithmetic wraps as that of C's
  \<open>unsigned\<close>; \<open>crypt\<close>, the clock and the process id are parameters. \<open>getpass\<close> is modelled by the
  sequence of its effects (\<open>event\<close>): what it writes, the terminal attributes it sets and the
  read. The results of \<open>tcgetattr\<close>, of the two calls of \<open>tcsetattr\<close> and of \<open>read\<close> are parameters.
\<close>

unbundle bit_operations_syntax

subsection \<open>cryptpw\<close>

definition cs :: string where
  "cs = ''./0123456789ABCDEFGHIJKLMNOPQRSTUVWXYZ'' @ ''abcdefghijklmnopqrstuvwxyz''"

fun salt_loop :: "nat \<Rightarrow> 32 word \<Rightarrow> string" where
  \<comment> \<open>the characters of the remaining rounds\<close>
  "salt_loop 0 seed = []"
| "salt_loop (Suc n) seed =
     (let seed = seed * 1103515245 + 12345
      in cs ! unat (drop_bit 16 seed AND 63) # salt_loop n seed)"

definition cryptpw_salt :: "int \<Rightarrow> int \<Rightarrow> string" where
  "cryptpw_salt now pid =
     ''$6$'' @ salt_loop 16 (word_of_int now XOR push_bit 16 (word_of_int pid))"

datatype event =
    Stderr string
  | Stdout string
  | Tcsetattr nat "32 word" \<comment> \<open>the mode of the change and the local flags that are set\<close>
  | Read nat \<comment> \<open>a read of at most so many bytes\<close>

definition cryptpw :: "(string \<Rightarrow> string \<Rightarrow> string option) \<Rightarrow> int \<Rightarrow> int \<Rightarrow> string list \<Rightarrow> (nat \<times> event list) run" where
  \<comment> \<open>exit status and output; \<open>puts\<close> of a null pointer is undefined\<close>
  "cryptpw crypt now pid argv =
     (if length argv \<noteq> 2 then Some (2, [Stderr (''usage: cryptpw password'' @ [LF])])
      else case crypt (argv ! 1) (cryptpw_salt now pid) of
             None \<Rightarrow> None
           | Some h \<Rightarrow> Some (0, [Stdout (h @ [LF])]))"

subsection \<open>getpass\<close>

definition ECHO :: "32 word" where "ECHO = 8"

definition TCSANOW :: nat where "TCSANOW = 0"

definition buf_size :: nat where "buf_size = 512"

fun strip_loop :: "string \<Rightarrow> nat \<Rightarrow> nat" where
  \<comment> \<open>the length without the line ends at the end\<close>
  "strip_loop buf 0 = 0"
| "strip_loop buf (Suc len) =
     (if buf ! len = LF \<or> buf ! len = CR then strip_loop buf len else Suc len)"

record tty =
  tcgetattr :: "32 word option" \<comment> \<open>the local flags, if the input is a terminal\<close>
  tcsetattr :: "32 word \<Rightarrow> bool" \<comment> \<open>whether setting the flags succeeds\<close>
  read_input :: "nat \<Rightarrow> string option" \<comment> \<open>the bytes a read returns; \<^term>\<open>None\<close> for an error\<close>

definition getpass_read :: "tty \<Rightarrow> 32 word option \<Rightarrow> nat \<times> event list" where
  \<comment> \<open>from the call of \<open>read\<close> on, with the flags to restore if echo was switched off\<close>
  "getpass_read t echo_off =
     (let before = [Read (buf_size - 1)]
                   @ (case echo_off of Some oldt \<Rightarrow> [Tcsetattr TCSANOW oldt] | None \<Rightarrow> [])
                   @ [Stderr [LF]]
      in case read_input t (buf_size - 1) of
           None \<Rightarrow> (1, before)
         | Some [] \<Rightarrow> (1, before)
         | Some buf \<Rightarrow> (0, before @ [Stdout (take (strip_loop buf (length buf)) buf), Stdout [LF]]))"

definition getpass :: "tty \<Rightarrow> string list \<Rightarrow> nat \<times> event list" where
  "getpass t argv =
     (if length argv \<noteq> 2 then (2, [Stderr (''usage: getpass prompt'' @ [LF])])
      else
        let prompt = [Stderr (argv ! 1 @ '' '')]
        in case tcgetattr t of
             None \<Rightarrow> (let (rc, ev) = getpass_read t None in (rc, prompt @ ev))
           | Some oldt \<Rightarrow>
               let newt = oldt AND NOT ECHO
               in if \<not> tcsetattr t newt then (1, prompt @ [Tcsetattr TCSANOW newt])
                  else let (rc, ev) = getpass_read t (Some oldt)
                       in (rc, prompt @ [Tcsetattr TCSANOW newt] @ ev))"

section \<open>What the tools do\<close>

subsection \<open>The salt\<close>

lemma length_cs: "length cs = 64"
  by (simp add: cs_def)

lemma salt_index: "drop_bit 16 seed AND 63 = drop_bit 16 (take_bit 22 seed)" for seed :: "32 word"
proof -
  have "(63 :: 32 word) = mask 6" by (simp add: mask_eq_exp_minus_1)
  then show ?thesis by (simp only: flip: take_bit_eq_mask) (simp add: drop_bit_take_bit)
qed

lemma salt_index_less: "unat (drop_bit 16 seed AND 63 :: 32 word) < length cs"
proof -
  have "(drop_bit 16 seed AND 63 :: 32 word) \<le> 63" by (rule word_and_le1)
  then show ?thesis by (simp add: length_cs word_le_nat_alt)
qed

lemma seed_low_bits:
  "take_bit 22 (s * a + b) = take_bit 22 (take_bit 22 s * a + b)" for s a b :: "32 word"
  by transfer (simp add: take_bit_eq_mod, metis mod_add_left_eq mod_mult_left_eq)

lemma salt_loop_low_bits: "take_bit 22 s = take_bit 22 t \<Longrightarrow> salt_loop n s = salt_loop n t"
proof (induction n arbitrary: s t)
  case (Suc n)
  have *: "take_bit 22 (s * 1103515245 + 12345) = take_bit 22 (t * 1103515245 + 12345)"
    using seed_low_bits[of s] seed_low_bits[of t] Suc.prems by metis
  from Suc.IH[OF *] * show ?case by (simp add: Let_def salt_index)
qed simp

lemma salt_loop_chars: "set (salt_loop n s) \<subseteq> set cs" "length (salt_loop n s) = n"
  using salt_index_less by (induction n s rule: salt_loop.induct) (auto simp: Let_def)

text \<open>
  C40. The salt always is what the SHA-512 method of \<open>crypt\<close> expects: the method prefix and sixteen
  characters of its alphabet, nineteen characters in the buffer of twenty, whatever time and
  process id are. But its characters are the bits 16 to 21 of a linear congruential generator,
  which depend on the low 22 bits of the seed only, so there are at most \<open>2 ^ 22\<close> salts instead
  of the \<open>64 ^ 16\<close> the sixteen characters suggest.
\<close>
theorem cryptpw_salts:
  "length (cryptpw_salt now pid) = 19 \<and> (\<exists>s. cryptpw_salt now pid = ''$6$'' @ s \<and> set s \<subseteq> set cs - {CHR ''$''})
   \<and> card {cryptpw_salt now pid | now pid. True} \<le> 2 ^ 22"
proof -
  have "card {cryptpw_salt now pid | now pid. True} \<le> card ((\<lambda>n. ''$6$'' @ salt_loop 16 (word_of_nat n)) ` {..<2 ^ 22 :: nat})"
  proof (rule card_mono)
    show "{cryptpw_salt now pid | now pid. True} \<subseteq> (\<lambda>n. ''$6$'' @ salt_loop 16 (word_of_nat n)) ` {..<2 ^ 22 :: nat}"
    proof clarify
      fix now pid
      define w :: "32 word" where "w = word_of_int now XOR push_bit 16 (word_of_int pid)"
      have "unat (take_bit 22 w) < 2 ^ 22" using take_bit_nat_less_exp[of 22 "unat w"] by (simp add: unsigned_take_bit_eq)
      moreover have "cryptpw_salt now pid = ''$6$'' @ salt_loop 16 (word_of_nat (unat (take_bit 22 w)))"
        using salt_loop_low_bits[of w "take_bit 22 w" 16] by (simp add: cryptpw_salt_def w_def)
      ultimately show "cryptpw_salt now pid \<in> (\<lambda>n. ''$6$'' @ salt_loop 16 (word_of_nat n)) ` {..<2 ^ 22 :: nat}"
        by blast
    qed
  qed simp
  also have "\<dots> \<le> 2 ^ 22" using card_image_le[of "{..<2 ^ 22 :: nat}"] by (metis card_lessThan finite_lessThan)
  finally have "card {cryptpw_salt now pid | now pid. True} \<le> 2 ^ 22" .
  moreover have "CHR ''$'' \<notin> set cs" by (simp add: cs_def)
  ultimately show ?thesis using salt_loop_chars by (auto simp: cryptpw_salt_def)
qed

subsection \<open>Reading a password\<close>

lemma strip_loop_le: "strip_loop buf n \<le> n"
  by (induction buf n rule: strip_loop.induct) auto

lemma strip_loop_spec:
  "n \<le> length buf \<Longrightarrow> \<exists>eol. take n buf = take (strip_loop buf n) buf @ eol \<and> set eol \<subseteq> {LF, CR}
    \<and> (strip_loop buf n > 0 \<longrightarrow> buf ! (strip_loop buf n - 1) \<notin> {LF, CR})"
proof (induction buf n rule: strip_loop.induct)
  case (2 buf n)
  show ?case
  proof (cases "buf ! n = LF \<or> buf ! n = CR")
    case True
    with 2 obtain eol where e: "take n buf = take (strip_loop buf n) buf @ eol" "set eol \<subseteq> {LF, CR}"
      "strip_loop buf n > 0 \<longrightarrow> buf ! (strip_loop buf n - 1) \<notin> {LF, CR}" by auto
    have "take (Suc n) buf = take (strip_loop buf n) buf @ (eol @ [buf ! n])"
      using e(1) 2(2) by (simp add: take_Suc_conv_app_nth)
    moreover have "set (eol @ [buf ! n]) \<subseteq> {LF, CR}" using e(2) True by auto
    moreover have "strip_loop buf (Suc n) = strip_loop buf n" using True by simp
    ultimately show ?thesis using e(3) by metis
  qed auto
qed simp

fun reads_with :: "32 word \<Rightarrow> 32 word \<Rightarrow> event list \<Rightarrow> bool" where
  \<comment> \<open>every read takes place under the flags \<open>g\<close>, when the terminal starts with \<open>f\<close>\<close>
  "reads_with g f [] = True"
| "reads_with g f (Tcsetattr m f' # ev) = reads_with g f' ev"
| "reads_with g f (Read n # ev) = (f = g \<and> reads_with g f ev)"
| "reads_with g f (e # ev) = reads_with g f ev"

fun flags_after :: "32 word \<Rightarrow> event list \<Rightarrow> 32 word" where
  \<comment> \<open>the flags of the terminal after the events\<close>
  "flags_after f [] = f"
| "flags_after f (Tcsetattr m g # ev) = flags_after g ev"
| "flags_after f (e # ev) = flags_after f ev"

definition printed :: "event list \<Rightarrow> string" where
  \<comment> \<open>the standard output\<close>
  "printed ev = concat (map (\<lambda>e. case e of Stdout s \<Rightarrow> s | _ \<Rightarrow> []) ev)"

definition line_printed :: "string option \<Rightarrow> nat \<Rightarrow> event list \<Rightarrow> bool" where
  \<comment> \<open>the exit status and the last events, given what was read\<close>
  "line_printed inp rc out \<longleftrightarrow>
     rc = 1 \<and> out = [] \<and> inp \<in> {None, Some []} \<or>
     rc = 0 \<and> (\<exists>line eol. inp = Some (line @ eol) \<and> line @ eol \<noteq> [] \<and> set eol \<subseteq> {LF, CR}
       \<and> (line \<noteq> [] \<longrightarrow> last line \<notin> {LF, CR}) \<and> out = [Stdout line, Stdout [LF]])"

lemma strip_line:
  obtains eol where "buf = take (strip_loop buf (length buf)) buf @ eol" "set eol \<subseteq> {LF, CR}"
    "take (strip_loop buf (length buf)) buf \<noteq> [] \<longrightarrow> last (take (strip_loop buf (length buf)) buf) \<notin> {LF, CR}"
proof -
  let ?n = "strip_loop buf (length buf)"
  obtain eol where e: "buf = take ?n buf @ eol" "set eol \<subseteq> {LF, CR}" "?n > 0 \<longrightarrow> buf ! (?n - 1) \<notin> {LF, CR}"
    using strip_loop_spec[of "length buf" buf] by auto
  have "last (take ?n buf) = buf ! (?n - 1)" "?n > 0" if "take ?n buf \<noteq> []"
    using that strip_loop_le[of buf "length buf"] by (auto simp: last_conv_nth min_absorb2)
  with e(3) have "take ?n buf \<noteq> [] \<longrightarrow> last (take ?n buf) \<notin> {LF, CR}" by metis
  with e(1,2) show ?thesis by (rule that)
qed

lemma getpass_read_events:
  "\<exists>rc out. getpass_read t old = (rc, Read 511 # (case old of Some o' \<Rightarrow> [Tcsetattr 0 o'] | None \<Rightarrow> []) @ Stderr [LF] # out)
    \<and> line_printed (read_input t 511) rc out"
proof (cases "read_input t 511")
  case (Some buf)
  show ?thesis
  proof (cases buf)
    case (Cons c cs)
    obtain eol where e: "buf = take (strip_loop buf (length buf)) buf @ eol" "set eol \<subseteq> {LF, CR}"
      "take (strip_loop buf (length buf)) buf \<noteq> [] \<longrightarrow> last (take (strip_loop buf (length buf)) buf) \<notin> {LF, CR}"
      by (rule strip_line)
    let ?l = "take (strip_loop buf (length buf)) buf"
    have "getpass_read t old = (0, Read 511 # (case old of Some o' \<Rightarrow> [Tcsetattr 0 o'] | None \<Rightarrow> [])
        @ Stderr [LF] # [Stdout ?l, Stdout [LF]])"
      using Some unfolding Cons by (auto simp: getpass_read_def buf_size_def TCSANOW_def Let_def split: option.split)
    moreover have "Some buf = Some (?l @ eol)" "?l @ eol \<noteq> []" using e(1) Cons by auto
    then have "line_printed (read_input t 511) 0 [Stdout ?l, Stdout [LF]]"
      unfolding line_printed_def Some using e(2,3) by blast
    ultimately show ?thesis by blast
  qed (use Some in \<open>auto simp: getpass_read_def buf_size_def TCSANOW_def line_printed_def split: option.split\<close>)
qed (auto simp: getpass_read_def buf_size_def TCSANOW_def line_printed_def split: option.split)

lemma getpass_cases:
  assumes "getpass t argv = (rc, ev)"
  obtains (usage) "length argv \<noteq> 2" "rc = 2" "ev = [Stderr (''usage: getpass prompt'' @ [LF])]"
    | (no_switch) oldt where "tcgetattr t = Some oldt" "\<not> tcsetattr t (oldt AND NOT ECHO)" "rc = 1"
        "ev = [Stderr (argv ! 1 @ '' ''), Tcsetattr 0 (oldt AND NOT ECHO)]"
    | (no_tty) out where "tcgetattr t = None" "ev = Stderr (argv ! 1 @ '' '') # Read 511 # Stderr [LF] # out"
        "line_printed (read_input t 511) rc out"
    | (tty) oldt out where "tcgetattr t = Some oldt" "tcsetattr t (oldt AND NOT ECHO)"
        "ev = Stderr (argv ! 1 @ '' '') # Tcsetattr 0 (oldt AND NOT ECHO) # Read 511 # Tcsetattr 0 oldt # Stderr [LF] # out"
        "line_printed (read_input t 511) rc out"
proof (cases "length argv = 2")
  case True
  show ?thesis
  proof (cases "tcgetattr t")
    case None
    with True assms getpass_read_events[of t None] no_tty show ?thesis by (auto simp: getpass_def)
  next
    case (Some oldt)
    with True assms getpass_read_events[of t "Some oldt"] no_switch tty show ?thesis
      by (cases "tcsetattr t (oldt AND NOT ECHO)") (auto simp: getpass_def TCSANOW_def)
  qed
qed (use assms usage in \<open>auto simp: getpass_def\<close>)

lemma line_printed_quiet:
  "line_printed inp rc out \<Longrightarrow> reads_with g f out \<and> flags_after f out = f"
  by (auto simp: line_printed_def)


definition example_tty :: tty where
  "example_tty = \<lparr>tcgetattr = Some 0x8A3B, tcsetattr = (\<lambda>f. True), read_input = (\<lambda>n. Some (''secret'' @ [LF]))\<rparr>"


text \<open>
  Without a terminal \<open>getpass\<close> does not read a line but up to 511 bytes: all lines that one read
  returns are printed.
\<close>
theorem getpass_prints_all_lines:
  "printed (snd (getpass \<lparr>tcgetattr = None, tcsetattr = (\<lambda>f. True), read_input = (\<lambda>n. Some (''one'' @ [LF] @ ''two'' @ [LF]))\<rparr> [''getpass'', ''p'']))
   = ''one'' @ [LF] @ ''two'' @ [LF]"
  by code_simp

end
