(* ===== verification/Spec2Isabelle.thy ===== *)
theory Spec2Isabelle
  imports Wget_Http_Cookies Wget_Hsts_Props Wget_Url_File_Props Wget_Recur_Live Wget_Convert_Props Slinux_Tools
begin

text \<open>
  \<^bold>\<open>Verification of the network-policy core of slinux's wget, and of slinux's password tools.\<close>

  slinux is a small Linux distribution. Of the C programs in its tree, \<open>userland/wget\<close> is the one
  that talks to untrusted servers; what it stores, sends and overwrites is decided by a layer of
  plain C code over hash tables and strings. That layer is modelled here, together with the two C
  programs slinux has written itself, \<open>tools/cryptpw.c\<close> and \<open>tools/getpass.c\<close>. The build passes
  \<open>--with-ssl=openssl --without-libpsl --disable-iri --disable-pcre\<close> for x86-64 and musl; branches
  that this configuration does not compile are left out.

  \<^bold>\<open>How the parts interact.\<close> \<open>recur.c\<close> traverses pages: it takes URLs from its queue, asks \<open>retr.c\<close>
  to load them, and asks its policy which of the links it finds are enqueued. The policy uses the URL
  parser and the resolution of links (\<open>url.c\<close>), the filters of \<open>utils.c\<close> and \<open>host.c\<close>, the robots
  rules (\<open>res.c\<close>), and the blacklist, a set of strings in a table of \<open>hash.c\<close>. The retrieval of a
  URL consults HSTS (\<open>hsts.c\<close>) to upgrade the scheme, adds cookies (\<open>cookies.c\<close>) and credentials
  to the request (\<open>http.c\<close>), reads the head of the response, hands Set-Cookie and
  Strict-Transport-Security back to the two stores, and saves the body under a name that \<open>url.c\<close>
  computes; \<open>convert.c\<close> keeps the books of downloads and \<open>exits.c\<close> the exit status. At the end
  \<open>convert.c\<close> rewrites the links of the saved pages, where the scanner of \<open>html-parse.c\<close> found them.

  \<^bold>\<open>Conventions.\<close> A C string is a \<^typ>\<open>string\<close> without NUL, a pointer into one is the suffix it
  points to, \<open>NULL\<close> is \<^term>\<open>None\<close>. A computation that can fail to return (an assertion, undefined
  behaviour, a loop that may not end) has a type \<open>'a run\<close>, an option whose \<^term>\<open>None\<close> means that
  there is no return value; errors the code returns are values of their own. \<open>unsigned\<close> arithmetic
  that wraps is on words; \<open>time_t\<close>, \<open>wgint\<close> and \<open>int\<close> are integers with the overflow check
  written out where the code can reach it. Functions of libc that depend on the system, the resolver,
  the file system, the network and the clock are arguments.

  \<^bold>\<open>Theories.\<close>
  \<^item> \<open>C_Prelude\<close>: strings, character classes (\<open>lib/c-ctype.h\<close>), the comparison macros of \<open>wget.h\<close>, the
    run monad and the shared simplification rules.
  \<^item> \<open>Wget_Hash\<close>, \<open>Wget_Hash_Probe\<close>, \<open>Wget_Hash_Map\<close>, \<open>Wget_Hash_Foreach\<close> (\<open>hash.c\<close>): open addressing
    with growth and rehashing on deletion. A locale states what the key functions promise; under it the
    table refines a map, and walking over it while removing the current entry misses nothing. The
    interpretations are the string, the case-insensitive and the pointer keys.
  \<^item> \<open>Wget_String_Table\<close>: sets of strings (\<open>utils.c\<close>) and the contract \<open>string_map\<close> its clients use.
  \<^item> \<open>Wget_Url_Escape\<close>, \<open>Wget_Url_Types\<close>, \<open>Wget_Url_Path\<close>, \<open>Wget_Url\<close>, \<open>Wget_Url_Props\<close>,
    \<open>Wget_Url_Roundtrip\<close>, \<open>Wget_Url_Merge\<close>, \<open>Wget_Url_File\<close>, \<open>Wget_Url_File_Props\<close>, \<open>Wget_Numbers\<close>
    (\<open>url.c\<close>, \<open>url.h\<close>, number printing of \<open>utils.c\<close>): escaping and its round trips, the path
    simplifier against a reference on path elements, parsing (total, and what a parsed URL satisfies),
    printing, the round trip of canonical URLs, the resolution of links and the choice of local names.
  \<^item> \<open>Wget_Utils\<close>, \<open>Wget_Host\<close>, \<open>Wget_Params\<close>: filters, sorting and base64 (\<open>utils.c\<close>), addresses and domains
    (\<open>host.c\<close>), header parameters and dates (\<open>http.c\<close>).
  \<^item> \<open>Wget_Http_Head\<close>, \<open>Wget_Http_Head_Props\<close>, \<open>Wget_Http_Cookies\<close> (\<open>http.c\<close>): request headers, credentials,
    response heads, and the Set-Cookie loop of \<open>gethttp\<close>.
  \<^item> \<open>Wget_Cookies\<close>, \<open>Wget_Cookies_Jar\<close>, \<open>Wget_Cookies_Set\<close>, \<open>Wget_Cookies_Send\<close> (\<open>cookies.c\<close>): the jar refines a
    map; what Set-Cookie can change; which cookies a request carries, and in which order.
  \<^item> \<open>Wget_Hsts\<close>, \<open>Wget_Hsts_Store\<close>, \<open>Wget_Hsts_Props\<close> (\<open>hsts.c\<close>): matching, header processing, the database and
    its round trip, merging, and the invariant of all reachable stores.
  \<^item> \<open>Wget_Robots\<close>, \<open>Wget_Robots_Props\<close> (\<open>res.c\<close>): the parser of robots.txt against a reference on records,
    the decision for a path, the registry.
  \<^item> \<open>Wget_Downloads\<close> (\<open>convert.c\<close>): the books of downloads refine two maps.
  \<^item> \<open>Wget_Exits\<close> (\<open>exits.c\<close>), \<open>Wget_Url_Queue\<close> (the linked list of \<open>recur.c\<close>, in a store, as an instance of
    the contract \<open>fifo\<close>).
  \<^item> \<open>Wget_Recur\<close>, \<open>Wget_Recur_Props\<close>, \<open>Wget_Recur_Live\<close> (\<open>recur.c\<close>, \<open>spider.c\<close>, the retrieval of
    robots.txt): the policy for links, what a traversal loads, that it returns.
  \<^item> \<open>Wget_Html_Scan\<close>, \<open>Wget_Html_Parse\<close> (\<open>html-parse.c\<close>): the scanner for the tags of a page. It returns on every
    page, reads nothing outside its buffer, and what it reports lies in the buffer, in order; the skipping
    search for the end of a comment is the plain search.
  \<^item> \<open>Wget_Convert\<close>, \<open>Wget_Convert_Props\<close> (\<open>convert.c\<close>): rewriting the links of saved pages. A rewritten link is read
    back by the scanner as the file it names, a relative name leads from the page to the file, the rest of
    the page stays as it was, and the backup keeps the page before the first conversion. The links of a
    page are a parameter; which lists of links are safe to rewrite is \<open>placed\<close>.
  \<^item> \<open>Slinux_Tools\<close> (\<open>tools/\<close>): the salts of \<open>cryptpw\<close> and the terminal handling of \<open>getpass\<close>.

  \<^bold>\<open>Bounds and fuel.\<close> The prime table of \<open>hash.c\<close> ends at 1610612741 cells; as tables are at most
  three quarters full, a table holds up to 805306367 entries before an insertion may abort, and theorems
  about sequences of operations assume that bound. Probing runs with as much fuel as there are
  cells, which is enough because a table is never full. \<open>retrieve_loop\<close> is a partial function; that
  it returns is proved for every web whose links lead to finitely many URLs that can be parsed again
  (\<open>web_ok\<close>), by the number of URLs that are not blacklisted. The loop of the HTML scanner is a partial
  function too, and returns on every page. Lengths that C keeps in an \<open>int\<close> are
  assumed not to overflow: the strings come from buffers that are limited far below \<open>2 ^ 31\<close>. Allocation
  does not fail (\<open>xmalloc\<close> exits).

  \<^bold>\<open>Not modelled.\<close> In wget: connections, proxies, bodies and bandwidth (\<open>retr.c\<close>, \<open>connect.c\<close>, the
  rest of \<open>gethttp\<close> and \<open>http_loop\<close>), name resolution (\<open>host.c\<close>), TLS and NTLM (\<open>openssl.c\<close>,
  \<open>gnutls.c\<close>, \<open>http-ntlm.c\<close>), FTP, the extraction of links from the tags
  of a page and from style sheets (\<open>html-url.c\<close>, \<open>css-url.c\<close>), options and the command line
  (\<open>init.c\<close>, \<open>main.c\<close>), \<open>netrc.c\<close>, logs, progress bars and timers, WARC, Metalink, extended attributes,
  IRIs and the Windows port. They are input and output over sockets, terminals and files, calls of
  third-party libraries, or not compiled; where the modelled parts depend on them they are
  parameters. \<open>wget/lib\<close> is gnulib and \<open>userland/mandoc\<close> the vendored manual formatter: third-party code.
  The rest of slinux is shell scripts and configuration.
\<close>

end
